(* ===== verification/Go_Prelude.thy ===== *)
theory Go_Prelude
  imports Main "HOL-Library.AList" "HOL-Library.Multiset"
begin

text \<open>
  What the components share: the Go values and results they use, 64-bit integers with
  their wrap-around, \<^verbatim>\<open>time.Time\<close> and \<^verbatim>\<open>time.Duration\<close>, Go maps as association lists
  with distinct keys, and the generic list lemmas. The collection \<open>go_map\<close> holds the laws
  of Go maps, \<open>go_int\<close> those of the 64-bit integers.
\<close>

named_theorems go_map \<open>laws of Go maps\<close>
named_theorems go_int \<open>laws of 64-bit integers\<close>

section \<open>Results: a call returns or panics\<close>

datatype panic =
    IndexOutOfRange
  | NilDereference
  | DivideByZero
  | CloseOfClosedChannel
  | SendOnClosedChannel
  | UserPanic string

datatype 'a go = Panic panic | Ret (ret: 'a)

primrec go_bind :: "'a go \<Rightarrow> ('a \<Rightarrow> 'b go) \<Rightarrow> 'b go" where
  "go_bind (Panic p) f = Panic p"
| "go_bind (Ret x) f = f x"

lemma go_bind_Ret_iff: "go_bind r f = Ret y \<longleftrightarrow> (\<exists>x. r = Ret x \<and> f x = Ret y)"
  by (cases r) auto

section \<open>Integers\<close>

text \<open>
  Go's \<^verbatim>\<open>int\<close> and \<^verbatim>\<open>int64\<close> on the 64-bit platforms: an \<open>int\<close> in the range of a
  64-bit two's complement number; \<open>i64\<close> is what the hardware makes of the exact result
  of an addition or a multiplication.
\<close>

definition i64 :: "int \<Rightarrow> int" where
  "i64 x = (x + 2 ^ 63) mod 2 ^ 64 - 2 ^ 63"

definition in_i64 :: "int \<Rightarrow> bool" where
  "in_i64 x \<longleftrightarrow> - (2 ^ 63) \<le> x \<and> x < 2 ^ 63"

lemma i64_id [go_int]: "in_i64 x \<Longrightarrow> i64 x = x"
  by (simp add: i64_def in_i64_def)

lemma in_i64_i64 [go_int, simp]: "in_i64 (i64 x)"
proof -
  have "0 \<le> (x + 2 ^ 63) mod 2 ^ 64" "(x + 2 ^ 63) mod 2 ^ 64 < 2 ^ 64"
    by simp_all
  then show ?thesis by (simp add: i64_def in_i64_def)
qed

lemma i64_small [go_int]: "- (2 ^ 62) \<le> x \<Longrightarrow> x \<le> 2 ^ 62 \<Longrightarrow> i64 x = x"
  by (rule i64_id) (simp add: in_i64_def)

section \<open>Time\<close>

text \<open>
  A \<^verbatim>\<open>time.Time\<close> is its number of nanoseconds since the Unix epoch, a
  \<^verbatim>\<open>time.Duration\<close> a 64-bit number of nanoseconds; \<^verbatim>\<open>Unix()\<close> rounds down to seconds.
\<close>

type_synonym time = int
type_synonym duration = int

definition Second :: duration where
  "Second = 10 ^ 9"

definition time_Add :: "time \<Rightarrow> duration \<Rightarrow> time" where
  "time_Add t d = t + d"

definition time_Before :: "time \<Rightarrow> time \<Rightarrow> bool" where
  "time_Before t u \<longleftrightarrow> t < u"

definition time_Unix :: "time \<Rightarrow> int" where
  "time_Unix t = t div 10 ^ 9"

lemma time_Unix_Add_seconds: "time_Unix (time_Add t (10 ^ 9 * s)) = time_Unix t + s"
  by (simp add: time_Unix_def time_Add_def)

lemma time_Unix_mono: "t \<le> u \<Longrightarrow> time_Unix t \<le> time_Unix u"
  by (simp add: time_Unix_def zdiv_mono1)

section \<open>Values of type interface\<close>

text \<open>
  The dynamic types the sources tell apart by a type assertion; every other value is its
  type's name and an identity.
\<close>

datatype iface = INil | IInt int | IStr string | IOther string nat

primrec type_name :: "iface \<Rightarrow> string" where
  "type_name INil = ''<nil>''"
| "type_name (IInt _) = ''int''"
| "type_name (IStr _) = ''string''"
| "type_name (IOther t _) = t"

section \<open>Addresses\<close>

text \<open>Objects the code shares by pointer live in a store indexed by addresses.\<close>

type_synonym addr = nat

section \<open>Go maps\<close>

text \<open>
  A Go map is an association list with distinct keys: \<open>map_of\<close> looks a key up,
  \<open>AList.update\<close> assigns it, \<open>AList.delete\<close> deletes it, and the length of the list is
  \<^verbatim>\<open>len(m)\<close>. The order of the list is not the order of \<^verbatim>\<open>range\<close>, which Go leaves open.
\<close>

type_synonym ('k, 'v) gomap = "('k \<times> 'v) list"

definition gomap_wf :: "('k, 'v) gomap \<Rightarrow> bool" where
  "gomap_wf m \<longleftrightarrow> distinct (map fst m)"

lemma gomap_wf_empty [go_map, simp]: "gomap_wf []"
  by (simp add: gomap_wf_def)

lemma gomap_wf_update [go_map, simp]: "gomap_wf m \<Longrightarrow> gomap_wf (AList.update k v m)"
  by (simp add: gomap_wf_def distinct_update)

lemma gomap_wf_delete [go_map, simp]: "gomap_wf m \<Longrightarrow> gomap_wf (AList.delete k m)"
  by (simp add: gomap_wf_def distinct_delete)

lemma gomap_mem_iff [go_map]: "gomap_wf m \<Longrightarrow> (k, v) \<in> set m \<longleftrightarrow> map_of m k = Some v"
  by (auto simp: gomap_wf_def)

lemma gomap_length_update [go_map]:
  "length (AList.update k v m) = (if map_of m k = None then Suc (length m) else length m)"
  by (induction m) auto

lemma gomap_length_delete [go_map]:
  "gomap_wf m \<Longrightarrow>
   length (AList.delete k m) = (if map_of m k = None then length m else length m - 1)"
proof (induction m)
  case Nil
  then show ?case by (simp add: AList.delete_eq)
next
  case (Cons p m)
  obtain k' v' where p: "p = (k', v')" by (cases p)
  from Cons.prems have wf: "gomap_wf m" and fresh: "k' \<notin> fst ` set m"
    by (auto simp: gomap_wf_def p)
  show ?case
  proof (cases "k = k'")
    case True
    with fresh have "AList.delete k m = m" by (simp add: AList.delete_idem)
    with True show ?thesis by (simp add: p AList.delete_eq)
  next
    case False
    show ?thesis
    proof (cases "map_of m k")
      case None
      with Cons.IH [OF wf] False show ?thesis by (simp add: p AList.delete_eq)
    next
      case (Some v)
      then have "0 < length m" by auto
      with Cons.IH [OF wf] Some False show ?thesis by (simp add: p AList.delete_eq)
    qed
  qed
qed

lemma gomap_card_dom: "gomap_wf m \<Longrightarrow> card (dom (map_of m)) = length m"
  by (metis dom_map_of_conv_image_fst gomap_wf_def length_map set_map distinct_card)

section \<open>Lists\<close>

definition list_swap :: "'a list \<Rightarrow> nat \<Rightarrow> nat \<Rightarrow> 'a list" where
  "list_swap xs i j = xs[i := xs ! j, j := xs ! i]"

lemma length_list_swap [simp]: "length (list_swap xs i j) = length xs"
  by (simp add: list_swap_def)

lemma nth_list_swap:
  "i < length xs \<Longrightarrow> j < length xs \<Longrightarrow> k < length xs \<Longrightarrow>
   list_swap xs i j ! k = (if k = i then xs ! j else if k = j then xs ! i else xs ! k)"
  by (auto simp: list_swap_def nth_list_update)

lemma mset_list_swap [simp]:
  "i < length xs \<Longrightarrow> j < length xs \<Longrightarrow> mset (list_swap xs i j) = mset xs"
  by (simp add: list_swap_def mset_swap)

lemma set_list_swap [simp]:
  "i < length xs \<Longrightarrow> j < length xs \<Longrightarrow> set (list_swap xs i j) = set xs"
  by (metis mset_list_swap set_mset_mset)

lemma distinct_list_swap [simp]:
  "i < length xs \<Longrightarrow> j < length xs \<Longrightarrow> distinct (list_swap xs i j) = distinct xs"
  by (simp add: list_swap_def)

lemma mset_butlast_last: "xs \<noteq> [] \<Longrightarrow> mset xs = add_mset (last xs) (mset (butlast xs))"
  by (cases xs rule: rev_cases) auto

lemma append_sep_eq:
  "c \<notin> set xs \<Longrightarrow> c \<notin> set xs' \<Longrightarrow> xs @ c # ys = xs' @ c # ys' \<longleftrightarrow> xs = xs' \<and> ys = ys'"
proof (induction xs arbitrary: xs')
  case Nil
  then show ?case by (cases xs') auto
next
  case (Cons x xs)
  then show ?case by (cases xs') auto
qed

lemma last_notin_butlast: "distinct xs \<Longrightarrow> xs \<noteq> [] \<Longrightarrow> last xs \<notin> set (butlast xs)"
  by (cases xs rule: rev_cases) auto

end
