(* ===== verification/Go_Heap.thy ===== *)
theory Go_Heap
  imports Go_Prelude
begin

text \<open>
  The part of Go's \<^verbatim>\<open>container/heap\<close> that \<^verbatim>\<open>priority_queue.go\<close> runs on. The functions take
  the operations of \<^verbatim>\<open>heap.Interface\<close> as arguments; the locale \<open>heap_interface\<close> states
  what an implementation of that interface promises, and its lemmas show that sifting
  keeps the elements and restores the heap order. Indices are natural numbers; a slice is
  far shorter than the range of \<^verbatim>\<open>int\<close>, so \<open>2 * i + 1\<close> does not overflow.
\<close>

section \<open>Sifting\<close>

definition heap_parent :: "nat \<Rightarrow> nat" where
  "heap_parent k = (k - 1) div 2"

text \<open>\<^verbatim>\<open>(j - 1) / 2\<close> truncates towards zero in Go, so the parent of 0 is 0, as here.\<close>

function heap_up :: "('s \<Rightarrow> nat \<Rightarrow> nat \<Rightarrow> bool) \<Rightarrow> ('s \<Rightarrow> nat \<Rightarrow> nat \<Rightarrow> 's) \<Rightarrow> 's \<Rightarrow> nat \<Rightarrow> 's" where
  "heap_up lt sw s j =
     (let i = heap_parent j
      in if i = j \<or> \<not> lt s j i then s else heap_up lt sw (sw s i j) i)"
  by pat_completeness auto
termination
  by (relation "measure (\<lambda>(lt, sw, s, j). j)") (auto simp: heap_parent_def)

text \<open>The child \<open>down\<close> compares with its parent: the left one unless the right one is less.\<close>

definition heap_child :: "('s \<Rightarrow> nat \<Rightarrow> nat \<Rightarrow> bool) \<Rightarrow> 's \<Rightarrow> nat \<Rightarrow> nat \<Rightarrow> nat" where
  "heap_child lt s i n =
     (let j1 = 2 * i + 1; j2 = j1 + 1 in if j2 < n \<and> lt s j2 j1 then j2 else j1)"

function heap_down_loop ::
  "('s \<Rightarrow> nat \<Rightarrow> nat \<Rightarrow> bool) \<Rightarrow> ('s \<Rightarrow> nat \<Rightarrow> nat \<Rightarrow> 's) \<Rightarrow> 's \<Rightarrow> nat \<Rightarrow> nat \<Rightarrow> 's \<times> nat" where
  "heap_down_loop lt sw s i n =
     (if n \<le> 2 * i + 1 then (s, i)
      else let j = heap_child lt s i n
           in if \<not> lt s j i then (s, i) else heap_down_loop lt sw (sw s i j) j n)"
  by pat_completeness auto
termination
  by (relation "measure (\<lambda>(lt, sw, s, i, n). n - i)") (auto simp: heap_child_def Let_def)

definition heap_down ::
  "('s \<Rightarrow> nat \<Rightarrow> nat \<Rightarrow> bool) \<Rightarrow> ('s \<Rightarrow> nat \<Rightarrow> nat \<Rightarrow> 's) \<Rightarrow> 's \<Rightarrow> nat \<Rightarrow> nat \<Rightarrow> 's \<times> bool" where
  "heap_down lt sw s i0 n =
     (case heap_down_loop lt sw s i0 n of (s', i) \<Rightarrow> (s', i0 < i))"

declare heap_up.simps [simp del] heap_down_loop.simps [simp del]

text \<open>
  \<^verbatim>\<open>heap.Init\<close>; \<^verbatim>\<open>heap.Push\<close> after the element is appended; \<^verbatim>\<open>heap.Pop\<close> and
  \<^verbatim>\<open>heap.Remove\<close> before the last element is cut off. The callers check the index: an
  index outside the slice is a panic of the implementation's \<^verbatim>\<open>Swap\<close> or \<^verbatim>\<open>Pop\<close>.
\<close>

definition heap_Init ::
  "('s \<Rightarrow> nat) \<Rightarrow> ('s \<Rightarrow> nat \<Rightarrow> nat \<Rightarrow> bool) \<Rightarrow> ('s \<Rightarrow> nat \<Rightarrow> nat \<Rightarrow> 's) \<Rightarrow> 's \<Rightarrow> 's" where
  "heap_Init len lt sw s =
     foldl (\<lambda>s i. fst (heap_down lt sw s i (len s))) s (rev [0 ..< len s div 2])"

definition heap_pop_sift ::
  "('s \<Rightarrow> nat) \<Rightarrow> ('s \<Rightarrow> nat \<Rightarrow> nat \<Rightarrow> bool) \<Rightarrow> ('s \<Rightarrow> nat \<Rightarrow> nat \<Rightarrow> 's) \<Rightarrow> 's \<Rightarrow> 's" where
  "heap_pop_sift len lt sw s =
     (let n = len s - 1 in fst (heap_down lt sw (sw s 0 n) 0 n))"

definition heap_remove_sift ::
  "('s \<Rightarrow> nat) \<Rightarrow> ('s \<Rightarrow> nat \<Rightarrow> nat \<Rightarrow> bool) \<Rightarrow> ('s \<Rightarrow> nat \<Rightarrow> nat \<Rightarrow> 's) \<Rightarrow> 's \<Rightarrow> nat \<Rightarrow> 's" where
  "heap_remove_sift len lt sw s i =
     (let n = len s - 1
      in if n = i then s
         else case heap_down lt sw (sw s i n) i n of
                (s', moved) \<Rightarrow> if moved then s' else heap_up lt sw s' i)"

text \<open>Whatever an exchange leaves alone, sifting leaves alone.\<close>

lemma heap_up_frame:
  assumes frame: "\<And>s i j. g (sw s i j) = g s"
  shows "g (heap_up lt sw s j) = g s"
proof (induction j arbitrary: s rule: less_induct)
  case (less j)
  have "heap_parent j = j \<or> heap_parent j < j" by (auto simp: heap_parent_def)
  then show ?case
    using less.IH by (auto simp: heap_up.simps [of lt sw s j] Let_def frame)
qed

lemma heap_down_loop_frame:
  assumes frame: "\<And>s i j. g (sw s i j) = g s"
  shows "g (fst (heap_down_loop lt sw s i n)) = g s"
proof (induction "n - i" arbitrary: s i rule: less_induct)
  case less
  show ?case
  proof (cases "n \<le> 2 * i + 1 \<or> \<not> lt s (heap_child lt s i n) i")
    case True
    then show ?thesis by (auto simp: heap_down_loop.simps [of lt sw s i n] Let_def)
  next
    case False
    then have "n - heap_child lt s i n < n - i" by (auto simp: heap_child_def Let_def)
    with False less.hyps show ?thesis
      by (simp add: heap_down_loop.simps [of lt sw s i n] Let_def frame)
  qed
qed

lemma heap_sift_frame:
  assumes "\<And>s i j. g (sw s i j) = g s"
  shows "g (heap_pop_sift len lt sw s) = g s" and "g (heap_remove_sift len lt sw s i) = g s"
  using heap_down_loop_frame [of g sw lt] heap_up_frame [of g sw lt] assms
  by (auto simp: heap_pop_sift_def heap_remove_sift_def heap_down_def Let_def split: prod.splits)
    (metis fst_conv)+

section \<open>Heap order\<close>

text \<open>
  \<open>heap_ordered f n\<close>: the first \<open>n\<close> keys form a heap. \<open>heap_hole f n i\<close>: every edge that
  does not touch \<open>i\<close> is in order, and so are the edges that would bypass \<open>i\<close>: what holds
  while the element at \<open>i\<close> is out of place.
\<close>

definition heap_ordered :: "(nat \<Rightarrow> int) \<Rightarrow> nat \<Rightarrow> bool" where
  "heap_ordered f n \<longleftrightarrow> (\<forall>k. 0 < k \<and> k < n \<longrightarrow> f (heap_parent k) \<le> f k)"

definition heap_hole :: "(nat \<Rightarrow> int) \<Rightarrow> nat \<Rightarrow> nat \<Rightarrow> bool" where
  "heap_hole f n i \<longleftrightarrow>
     (\<forall>k. 0 < k \<and> k < n \<and> k \<noteq> i \<and> heap_parent k \<noteq> i \<longrightarrow> f (heap_parent k) \<le> f k) \<and>
     (\<forall>k. 0 < i \<and> 0 < k \<and> k < n \<and> heap_parent k = i \<longrightarrow> f (heap_parent i) \<le> f k)"

definition heap_above :: "(nat \<Rightarrow> int) \<Rightarrow> nat \<Rightarrow> bool" where
  "heap_above f i \<longleftrightarrow> (0 < i \<longrightarrow> f (heap_parent i) \<le> f i)"

definition heap_below :: "(nat \<Rightarrow> int) \<Rightarrow> nat \<Rightarrow> nat \<Rightarrow> bool" where
  "heap_below f n i \<longleftrightarrow> (\<forall>k. 0 < k \<and> k < n \<and> heap_parent k = i \<longrightarrow> f i \<le> f k)"

lemma heap_parent_less: "0 < k \<Longrightarrow> heap_parent k < k"
  by (simp add: heap_parent_def)

lemma heap_parent_0 [simp]: "heap_parent 0 = 0"
  by (simp add: heap_parent_def)

lemma heap_parent_eq_iff: "0 < k \<Longrightarrow> heap_parent k = i \<longleftrightarrow> k = 2 * i + 1 \<or> k = 2 * i + 2"
  by (auto simp: heap_parent_def)

lemma heap_parent_fixed_iff: "heap_parent k = k \<longleftrightarrow> k = 0"
  by (auto simp: heap_parent_def)

lemma heap_hole_ordered:
  "heap_hole f n i \<Longrightarrow> heap_above f i \<Longrightarrow> heap_below f n i \<Longrightarrow> heap_ordered f n"
  unfolding heap_hole_def heap_above_def heap_below_def heap_ordered_def by metis

lemma heap_ordered_mono: "heap_ordered f n \<Longrightarrow> m \<le> n \<Longrightarrow> heap_ordered f m"
  by (auto simp: heap_ordered_def)

lemma heap_ordered_least: "heap_ordered f n \<Longrightarrow> k < n \<Longrightarrow> f 0 \<le> f k"
proof (induction k rule: less_induct)
  case (less k)
  show ?case
  proof (cases "k = 0")
    case False
    with less have "f 0 \<le> f (heap_parent k)"
      using heap_parent_less [of k] by simp
    also have "\<dots> \<le> f k"
      using less.prems False by (simp add: heap_ordered_def)
    finally show ?thesis .
  qed simp
qed

text \<open>The two exchanges: one step of \<open>down\<close> and one step of \<open>up\<close> move the hole.\<close>

definition fswap :: "nat \<Rightarrow> nat \<Rightarrow> (nat \<Rightarrow> 'a) \<Rightarrow> nat \<Rightarrow> 'a" where
  "fswap i j f = f(i := f j, j := f i)"

lemma fswap_apply: "fswap i j f k = (if k = j then f i else if k = i then f j else f k)"
  by (simp add: fswap_def)

lemma heap_hole_down:
  assumes hole: "heap_hole f n i" and j: "0 < j" "j < n" "heap_parent j = i"
    and least: "\<And>k. 0 < k \<Longrightarrow> k < n \<Longrightarrow> heap_parent k = i \<Longrightarrow> f j \<le> f k"
    and less: "f j < f i"
  shows "heap_hole (fswap i j f) n j" and "heap_above (fswap i j f) j"
proof -
  have ij: "i < j" using j heap_parent_less by auto
  show "heap_above (fswap i j f) j"
    using j ij less by (simp add: heap_above_def fswap_apply)
  have "fswap i j f (heap_parent k) \<le> fswap i j f k"
    if k: "0 < k" "k < n" "k \<noteq> j" "heap_parent k \<noteq> j" for k
  proof (cases "heap_parent k = i")
    case True
    with k ij heap_parent_less [of k] have "k \<noteq> i" by auto
    with True k ij least show ?thesis by (simp add: fswap_apply)
  next
    case False
    with k hole j ij show ?thesis by (auto simp: heap_hole_def fswap_apply)
  qed
  moreover have "fswap i j f (heap_parent j) \<le> fswap i j f k"
    if k: "0 < k" "k < n" "heap_parent k = j" for k
  proof -
    have "j < k" using k heap_parent_less by auto
    moreover from this ij k hole have "f j \<le> f k"
      unfolding heap_hole_def by (metis less_trans nat_neq_iff)
    ultimately show ?thesis using j ij by (simp add: fswap_apply)
  qed
  ultimately show "heap_hole (fswap i j f) n j" by (auto simp: heap_hole_def)
qed

lemma heap_hole_up:
  assumes hole: "heap_hole f n j" and below: "heap_below f n j"
    and j: "0 < j" "j < n" "heap_parent j = i" and less: "f j < f i"
  shows "heap_hole (fswap i j f) n i" and "heap_below (fswap i j f) n i"
proof -
  have ij: "i < j" using j heap_parent_less by auto
  have sibling: "f i \<le> f k" if "0 < k" "k < n" "heap_parent k = i" "k \<noteq> j" for k
    using that hole ij by (auto simp: heap_hole_def)
  have parent: "f (heap_parent i) \<le> f i" if "0 < i"
    using that hole ij j heap_parent_less [of i] by (auto simp: heap_hole_def)
  show "heap_below (fswap i j f) n i"
    unfolding heap_below_def
  proof (intro allI impI)
    fix k assume k: "0 < k \<and> k < n \<and> heap_parent k = i"
    then have "k \<noteq> i" using heap_parent_less [of k] by auto
    then show "fswap i j f i \<le> fswap i j f k"
      using sibling [of k] k less ij by (fastforce simp: fswap_apply)
  qed
  have "fswap i j f (heap_parent k) \<le> fswap i j f k"
    if k: "0 < k" "k < n" "k \<noteq> i" "heap_parent k \<noteq> i" for k
  proof (cases "heap_parent k = j")
    case True
    then have "j < k" "f i \<le> f k"
      using k heap_parent_less hole j by (auto simp: heap_hole_def)
    with True k ij show ?thesis by (simp add: fswap_apply)
  next
    case False
    with k j have "k \<noteq> j" by auto
    with False k hole show ?thesis by (auto simp: heap_hole_def fswap_apply)
  qed
  moreover have "fswap i j f (heap_parent i) \<le> fswap i j f k"
    if k: "0 < i" "0 < k" "k < n" "heap_parent k = i" for k
  proof -
    have "heap_parent i < i" "k \<noteq> i"
      using k heap_parent_less [of i] heap_parent_less [of k] by auto
    then show ?thesis
      using sibling [of k] parent k ij by (auto simp: fswap_apply intro: order_trans)
  qed
  ultimately show "heap_hole (fswap i j f) n i" by (auto simp: heap_hole_def)
qed

text \<open>The key at a position of a slice, 0 outside it.\<close>

definition slice_key :: "('e \<Rightarrow> int) \<Rightarrow> 'e list \<Rightarrow> nat \<Rightarrow> int" where
  "slice_key f xs k = (if k < length xs then f (xs ! k) else 0)"

lemma slice_key_list_swap:
  "i < length xs \<Longrightarrow> j < length xs \<Longrightarrow>
   slice_key f (list_swap xs i j) = fswap i j (slice_key f xs)"
  by (auto simp: fun_eq_iff slice_key_def fswap_apply nth_list_swap)

lemma heap_ordered_cong:
  "(\<And>k. k < n \<Longrightarrow> f k = g k) \<Longrightarrow> heap_ordered f n = heap_ordered g n"
  unfolding heap_ordered_def by (metis heap_parent_less order.strict_trans)

section \<open>The interface\<close>

text \<open>
  What an implementation of \<^verbatim>\<open>heap.Interface\<close> promises: \<open>view\<close> is its slice, \<open>key\<close> the
  priority of an element; \<open>Swap\<close> exchanges two elements of the slice and changes no
  priority; \<open>wf\<close> is the implementation's own invariant.
\<close>

locale heap_interface =
  fixes Len :: "'s \<Rightarrow> nat"
    and Less :: "'s \<Rightarrow> nat \<Rightarrow> nat \<Rightarrow> bool"
    and Swap :: "'s \<Rightarrow> nat \<Rightarrow> nat \<Rightarrow> 's"
    and view :: "'s \<Rightarrow> 'e list"
    and key :: "'s \<Rightarrow> 'e \<Rightarrow> int"
    and wf :: "'s \<Rightarrow> bool"
  assumes Len_view: "Len s = length (view s)"
    and Less_key: "i < Len s \<Longrightarrow> j < Len s \<Longrightarrow> Less s i j \<longleftrightarrow> key s (view s ! i) < key s (view s ! j)"
    and view_Swap: "i < Len s \<Longrightarrow> j < Len s \<Longrightarrow> view (Swap s i j) = list_swap (view s) i j"
    and key_Swap: "i < Len s \<Longrightarrow> j < Len s \<Longrightarrow> key (Swap s i j) = key s"
    and wf_Swap: "i < Len s \<Longrightarrow> j < Len s \<Longrightarrow> wf s \<Longrightarrow> wf (Swap s i j)"
begin

definition hkey :: "'s \<Rightarrow> nat \<Rightarrow> int" where
  "hkey s = slice_key (key s) (view s)"

text \<open>\<open>sifted n s t\<close>: \<open>t\<close> is \<open>s\<close> with the elements below \<open>n\<close> rearranged.\<close>

definition sifted :: "nat \<Rightarrow> 's \<Rightarrow> 's \<Rightarrow> bool" where
  "sifted n s t \<longleftrightarrow>
     (wf s \<longrightarrow> wf t) \<and> key t = key s \<and> mset (view t) = mset (view s) \<and>
     (\<forall>k. n \<le> k \<and> k < length (view s) \<longrightarrow> view t ! k = view s ! k)"

lemma sifted_refl [simp]: "sifted n s s"
  by (simp add: sifted_def)

lemma sifted_Len: "sifted n s t \<Longrightarrow> Len t = Len s"
  by (metis Len_view sifted_def size_mset)

lemma sifted_trans: "sifted n s t \<Longrightarrow> sifted n t u \<Longrightarrow> sifted n s u"
  unfolding sifted_def by (metis size_mset)

lemma sifted_Swap: "i < n \<Longrightarrow> j < n \<Longrightarrow> n \<le> Len s \<Longrightarrow> sifted n s (Swap s i j)"
  by (auto simp: sifted_def view_Swap key_Swap wf_Swap nth_list_swap Len_view)

lemma hkey_Swap: "i < Len s \<Longrightarrow> j < Len s \<Longrightarrow> hkey (Swap s i j) = fswap i j (hkey s)"
  by (simp add: hkey_def view_Swap key_Swap slice_key_list_swap Len_view)

lemma Less_hkey: "i < Len s \<Longrightarrow> j < Len s \<Longrightarrow> Less s i j \<longleftrightarrow> hkey s i < hkey s j"
  by (simp add: Less_key hkey_def slice_key_def Len_view)

lemma heap_up_sifted: "j < n \<Longrightarrow> n \<le> Len s \<Longrightarrow> sifted n s (heap_up Less Swap s j)"
proof (induction j arbitrary: s rule: less_induct)
  case (less j)
  let ?i = "heap_parent j"
  show ?case
  proof (cases "?i = j \<or> \<not> Less s j ?i")
    case True
    then show ?thesis by (simp add: heap_up.simps)
  next
    case False
    then have i: "?i < j" by (metis heap_parent_0 heap_parent_less neq0_conv)
    have sw: "sifted n s (Swap s ?i j)"
      using i less.prems by (intro sifted_Swap) auto
    moreover have "sifted n (Swap s ?i j) (heap_up Less Swap (Swap s ?i j) ?i)"
      using i less.prems sifted_Len [OF sw] by (intro less.IH) auto
    ultimately show ?thesis
      using False by (simp add: heap_up.simps [of _ _ s j] Let_def sifted_trans)
  qed
qed

lemma heap_up_ordered:
  "j < n \<Longrightarrow> n \<le> Len s \<Longrightarrow> heap_hole (hkey s) n j \<Longrightarrow> heap_below (hkey s) n j \<Longrightarrow>
   heap_ordered (hkey (heap_up Less Swap s j)) n"
proof (induction j arbitrary: s rule: less_induct)
  case (less j)
  let ?i = "heap_parent j"
  show ?case
  proof (cases "?i = j \<or> \<not> Less s j ?i")
    case True
    then have "heap_above (hkey s) j"
      using less.prems heap_parent_less [of j]
      by (auto simp: heap_above_def heap_parent_fixed_iff Less_hkey not_less)
    with True less.prems show ?thesis
      by (auto simp: heap_up.simps intro: heap_hole_ordered)
  next
    case False
    then have i: "?i < j" and j: "0 < j" by (metis heap_parent_0 heap_parent_less neq0_conv)+
    have lt: "hkey s j < hkey s ?i" using False less.prems i by (simp add: Less_hkey)
    have keys: "hkey (Swap s ?i j) = fswap ?i j (hkey s)"
      using i less.prems by (simp add: hkey_Swap)
    have len: "n \<le> Len (Swap s ?i j)"
      using sifted_Len [OF sifted_Swap [of ?i n j s]] i less.prems by simp
    note moved = heap_hole_up [OF less.prems(3,4) j less.prems(1) refl lt]
    have "heap_ordered (hkey (heap_up Less Swap (Swap s ?i j) ?i)) n"
      using i less.prems len moved by (intro less.IH) (simp_all add: keys)
    with False show ?thesis by (simp add: heap_up.simps [of _ _ s j] Let_def)
  qed
qed

lemma heap_child_bounds:
  assumes "2 * i + 1 < n"
  shows "0 < heap_child Less s i n" and "heap_child Less s i n < n"
    and "heap_parent (heap_child Less s i n) = i" and "i < heap_child Less s i n"
  using assms by (auto simp: heap_child_def Let_def heap_parent_def)

lemma heap_child_least:
  assumes "2 * i + 1 < n" "n \<le> Len s" "0 < k" "k < n" "heap_parent k = i"
  shows "hkey s (heap_child Less s i n) \<le> hkey s k"
proof -
  have "k = 2 * i + 1 \<or> k = 2 * i + 2"
    using assms by (simp add: heap_parent_eq_iff)
  with assms show ?thesis by (auto simp: heap_child_def Let_def Less_hkey)
qed

lemma heap_down_loop_stop:
  "n \<le> 2 * i + 1 \<or> \<not> Less s (heap_child Less s i n) i \<Longrightarrow>
   heap_down_loop Less Swap s i n = (s, i)"
  by (auto simp: heap_down_loop.simps [of _ _ s i n] Let_def)

lemma heap_down_loop_step:
  "2 * i + 1 < n \<Longrightarrow> Less s (heap_child Less s i n) i \<Longrightarrow>
   heap_down_loop Less Swap s i n =
     heap_down_loop Less Swap (Swap s i (heap_child Less s i n)) (heap_child Less s i n) n"
  by (simp add: heap_down_loop.simps [of _ _ s i n] Let_def)

lemma heap_down_stop_below:
  assumes "n \<le> 2 * i + 1 \<or> \<not> Less s (heap_child Less s i n) i" "i < n" "n \<le> Len s"
  shows "heap_below (hkey s) n i"
proof (cases "n \<le> 2 * i + 1")
  case True
  then have "heap_parent k \<noteq> i" if "0 < k" "k < n" for k
    using that by (auto simp: heap_parent_eq_iff)
  then show ?thesis by (auto simp: heap_below_def)
next
  case False
  then have "hkey s i \<le> hkey s (heap_child Less s i n)"
    using assms heap_child_bounds [of i n s] by (auto simp: Less_hkey)
  moreover have "hkey s (heap_child Less s i n) \<le> hkey s k"
    if "0 < k" "k < n" "heap_parent k = i" for k
    using that False assms by (intro heap_child_least) auto
  ultimately show ?thesis unfolding heap_below_def by (metis order_trans)
qed

lemma heap_down_step_hole:
  assumes step: "2 * i + 1 < n" "Less s (heap_child Less s i n) i"
    and len: "n \<le> Len s" and hole: "heap_hole (hkey s) n i"
  defines "j \<equiv> heap_child Less s i n"
  shows "sifted n s (Swap s i j)" and "n \<le> Len (Swap s i j)"
    and "heap_hole (hkey (Swap s i j)) n j" and "heap_above (hkey (Swap s i j)) j"
proof -
  note j = heap_child_bounds [OF step(1), of s, folded j_def]
  show sw: "sifted n s (Swap s i j)" using j len by (intro sifted_Swap) auto
  show "n \<le> Len (Swap s i j)" using sifted_Len [OF sw] len by simp
  have lt: "hkey s j < hkey s i" using step(2) len j by (simp add: j_def Less_hkey)
  have keys: "hkey (Swap s i j) = fswap i j (hkey s)" using j len by (intro hkey_Swap) auto
  have least: "hkey s j \<le> hkey s k" if "0 < k" "k < n" "heap_parent k = i" for k
    using heap_child_least [OF step(1) len that] by (simp add: j_def)
  show "heap_hole (hkey (Swap s i j)) n j" "heap_above (hkey (Swap s i j)) j"
    using heap_hole_down [OF hole j(1-3) least lt] by (simp_all only: keys)
qed

lemma heap_down_loop_sifted:
  "n \<le> Len s \<Longrightarrow> heap_down_loop Less Swap s i n = (t, i') \<Longrightarrow> sifted n s t \<and> i \<le> i'"
proof (induction "n - i" arbitrary: s i rule: less_induct)
  case less
  let ?j = "heap_child Less s i n"
  show ?case
  proof (cases "n \<le> 2 * i + 1 \<or> \<not> Less s ?j i")
    case True
    with less.prems show ?thesis by (simp add: heap_down_loop_stop)
  next
    case False
    then have step: "2 * i + 1 < n" "Less s ?j i" by auto
    note j = heap_child_bounds [OF step(1), of s]
    have sw: "sifted n s (Swap s i ?j)" using j less.prems by (intro sifted_Swap) auto
    moreover have "sifted n (Swap s i ?j) t \<and> ?j \<le> i'"
      using less.prems j sifted_Len [OF sw] heap_down_loop_step [OF step]
      by (intro less.hyps) auto
    ultimately show ?thesis using sifted_trans j(4) by auto
  qed
qed

lemma heap_down_loop_ordered:
  "n \<le> Len s \<Longrightarrow> i < n \<Longrightarrow> heap_hole (hkey s) n i \<Longrightarrow> heap_above (hkey s) i \<Longrightarrow>
   heap_ordered (hkey (fst (heap_down_loop Less Swap s i n))) n"
proof (induction "n - i" arbitrary: s i rule: less_induct)
  case less
  let ?j = "heap_child Less s i n"
  show ?case
  proof (cases "n \<le> 2 * i + 1 \<or> \<not> Less s ?j i")
    case True
    then have "heap_below (hkey s) n i"
      using less.prems by (intro heap_down_stop_below)
    with True less.prems show ?thesis
      by (simp add: heap_down_loop_stop heap_hole_ordered)
  next
    case False
    then have step: "2 * i + 1 < n" "Less s ?j i" by auto
    note hole = heap_down_step_hole [OF step less.prems(1,3)]
    have "n - ?j < n - i" "?j < n" using heap_child_bounds [OF step(1), of s] by auto
    with hole(2-4) have "heap_ordered (hkey (fst (heap_down_loop Less Swap (Swap s i ?j) ?j n))) n"
      by (blast intro: less.hyps)
    then show ?thesis by (simp add: heap_down_loop_step [OF step])
  qed
qed

lemma heap_down_spec:
  assumes len: "n \<le> Len s" and "i < n" and hole: "heap_hole (hkey s) n i"
    and down: "heap_down Less Swap s i n = (t, moved)"
  shows "sifted n s t \<and> (if moved then heap_ordered (hkey t) n else t = s \<and> heap_below (hkey s) n i)"
proof -
  let ?j = "heap_child Less s i n"
  obtain i' where loop: "heap_down_loop Less Swap s i n = (t, i')" and moved: "moved \<longleftrightarrow> i < i'"
    using down by (auto simp: heap_down_def split: prod.splits)
  have sift: "sifted n s t" using heap_down_loop_sifted [OF len loop] by simp
  show ?thesis
  proof (cases "n \<le> 2 * i + 1 \<or> \<not> Less s ?j i")
    case True
    then show ?thesis
      using loop moved assms sift heap_down_stop_below by (simp add: heap_down_loop_stop)
  next
    case False
    then have step: "2 * i + 1 < n" "Less s ?j i" by auto
    note j = heap_child_bounds [OF step(1), of s]
    note swapped = heap_down_step_hole [OF step len hole]
    have next_loop: "heap_down_loop Less Swap (Swap s i ?j) ?j n = (t, i')"
      using loop heap_down_loop_step [OF step] by simp
    have "?j \<le> i'" using heap_down_loop_sifted [OF swapped(2) next_loop] by simp
    moreover have "heap_ordered (hkey t) n"
      using heap_down_loop_ordered [OF swapped(2) j(2) swapped(3,4)] by (simp add: next_loop)
    ultimately show ?thesis using j(4) moved sift by simp
  qed
qed

lemma heap_hole_of_ordered:
  assumes "heap_ordered (hkey s) (Suc n)" "i < n" "Suc n \<le> Len s"
  shows "heap_hole (hkey (Swap s i n)) n i"
proof -
  have keys: "hkey (Swap s i n) = fswap i n (hkey s)" using assms by (intro hkey_Swap) auto
  have edge: "hkey s (heap_parent k) \<le> hkey s k" if "0 < k" "k < n" for k
    using assms(1) that by (simp add: heap_ordered_def)
  have par: "heap_parent k \<noteq> n" if "k < n" for k
    using heap_parent_less [of k] that by (cases "k = 0") auto
  have "hkey s (heap_parent i) \<le> hkey s k" if "0 < i" "0 < k" "k < n" "heap_parent k = i" for k
    using edge [of i] edge [of k] that assms(2) by (auto intro: order_trans)
  then show ?thesis
    using edge par assms(2) par [OF assms(2)]
    by (simp add: keys heap_hole_def fswap_apply heap_parent_fixed_iff)
qed

text \<open>Removing position \<open>i\<close>: its element ends up last and the rest is a heap.\<close>

lemma heap_remove_sift_spec:
  assumes wf: "wf s" and ord: "heap_ordered (hkey s) (Len s)" and i: "i < Len s"
  defines "t \<equiv> heap_remove_sift Len Less Swap s i"
  shows "wf t \<and> key t = key s \<and> mset (view t) = mset (view s) \<and>
    view t ! (Len s - 1) = view s ! i \<and> heap_ordered (hkey t) (Len s - 1)"
proof (cases "Len s - 1 = i")
  case True
  then show ?thesis
    using wf heap_ordered_mono [OF ord, of i] by (auto simp: t_def heap_remove_sift_def)
next
  case False
  define n where "n = Len s - 1"
  have n: "i < n" "Len s = Suc n" using i False by (auto simp: n_def)
  let ?s = "Swap s i n"
  obtain u moved where down: "heap_down Less Swap ?s i n = (u, moved)" by force
  have view: "view ?s = list_swap (view s) i n" using n by (intro view_Swap) auto
  have sw: "sifted (Len s) s ?s" using n by (intro sifted_Swap) auto
  then have len: "Len ?s = Suc n" using sifted_Len n(2) by simp
  have hole: "heap_hole (hkey ?s) n i" using heap_hole_of_ordered ord n by simp
  note d = heap_down_spec [OF _ n(1) hole down]
  have t: "t = (if moved then u else heap_up Less Swap ?s i)"
    using d len n(1) unfolding t_def heap_remove_sift_def Let_def n_def [symmetric] down by auto
  have "sifted n ?s t \<and> heap_ordered (hkey t) n"
    using d len n(1) hole heap_up_ordered [of i n ?s] heap_up_sifted [of i n ?s]
    by (auto simp: t split: if_splits)
  moreover have "view ?s ! n = view s ! i"
    using n by (simp add: view nth_list_swap Len_view)
  ultimately show ?thesis
    using sw wf n(2) by (auto simp: sifted_def view Len_view [symmetric])
qed

lemma heap_pop_sift_spec:
  assumes wf: "wf s" and ord: "heap_ordered (hkey s) (Len s)" and ne: "0 < Len s"
  defines "t \<equiv> heap_pop_sift Len Less Swap s"
  shows "wf t \<and> key t = key s \<and> mset (view t) = mset (view s) \<and>
    view t ! (Len s - 1) = view s ! 0 \<and> heap_ordered (hkey t) (Len s - 1)"
proof -
  define n where "n = Len s - 1"
  have n: "Len s = Suc n" using ne by (simp add: n_def)
  let ?s = "Swap s 0 n"
  obtain u moved where down: "heap_down Less Swap ?s 0 n = (u, moved)" by force
  have t: "t = u" unfolding t_def heap_pop_sift_def Let_def n_def [symmetric] down by simp
  have view: "view ?s = list_swap (view s) 0 n" using n by (intro view_Swap) auto
  have sw: "sifted (Len s) s ?s" using n by (intro sifted_Swap) auto
  then have len: "Len ?s = Suc n" using sifted_Len n by simp
  have "sifted n ?s t \<and> heap_ordered (hkey t) n"
  proof (cases "n = 0")
    case True
    then show ?thesis
      using down by (simp add: t heap_down_def heap_down_loop.simps heap_ordered_def)
  next
    case False
    then have hole: "heap_hole (hkey ?s) n 0" using heap_hole_of_ordered ord n by simp
    with heap_down_spec [OF _ _ hole down] len False show ?thesis
      by (auto simp: t heap_above_def intro: heap_hole_ordered split: if_splits)
  qed
  moreover have "view ?s ! n = view s ! 0"
    using n by (simp add: view nth_list_swap Len_view)
  ultimately show ?thesis
    using sw wf n by (auto simp: sifted_def view Len_view [symmetric])
qed

text \<open>\<^verbatim>\<open>heap.Push\<close>: a state whose last element was just appended becomes a heap.\<close>

lemma heap_push_sift_spec:
  assumes wf: "wf s" and ord: "heap_ordered (hkey s) n" and len: "Len s = Suc n"
  defines "t \<equiv> heap_up Less Swap s n"
  shows "wf t \<and> key t = key s \<and> mset (view t) = mset (view s) \<and> heap_ordered (hkey t) (Suc n)"
proof -
  have no_child: "heap_parent k \<noteq> n" if "0 < k" "k < Suc n" for k
    using heap_parent_less [of k] that by simp
  have "heap_hole (hkey s) (Suc n) n" "heap_below (hkey s) (Suc n) n"
    using ord no_child by (auto simp: heap_hole_def heap_below_def heap_ordered_def)
  then show ?thesis
    using heap_up_ordered [of n "Suc n" s] heap_up_sifted [of n "Suc n" s] len wf
    by (simp add: t_def sifted_def)
qed

end

end
