(* ===== verification/Priority_Queue.thy ===== *)
theory Priority_Queue
  imports Go_Heap
begin

text \<open>
  \<^verbatim>\<open>priority_queue.go\<close> (and its copy \<^verbatim>\<open>v3/collections/priority_queue.go\<close>): the queue
  \<^verbatim>\<open>PriorityQueue\<close> over the slice \<^verbatim>\<open>pqImpl\<close> of pointers to \<^verbatim>\<open>PQItem\<close>. The items live in
  a store; an item knows its position in the slice through its field \<open>index\<close>, which
  \<^verbatim>\<open>Update\<close> and \<^verbatim>\<open>Remove\<close> trust. The invariant \<open>pq_inv\<close> says that the positions are
  right and the slice is a heap; the operations keep it, \<^verbatim>\<open>Pop\<close> returns an item of least
  priority, and \<^verbatim>\<open>Update\<close> and \<^verbatim>\<open>Remove\<close> act on exactly the item they are given.
\<close>

section \<open>Data\<close>

record 'v PQItem =
  item_Value :: 'v
  item_Priority :: int
  item_index :: int

record 'v PriorityQueue =
  pq_store :: "addr \<Rightarrow> 'v PQItem"
  pq_impl :: "addr list"

section \<open>The implementation of heap.Interface\<close>

definition set_index :: "(addr \<Rightarrow> 'v PQItem) \<Rightarrow> addr \<Rightarrow> int \<Rightarrow> (addr \<Rightarrow> 'v PQItem)" where
  "set_index st a i = st(a := (st a)\<lparr>item_index := i\<rparr>)"

definition pqImpl_Len :: "'v PriorityQueue \<Rightarrow> nat" where
  "pqImpl_Len q = length (pq_impl q)"

definition pqImpl_Less :: "'v PriorityQueue \<Rightarrow> nat \<Rightarrow> nat \<Rightarrow> bool" where
  "pqImpl_Less q i j \<longleftrightarrow>
     item_Priority (pq_store q (pq_impl q ! i)) < item_Priority (pq_store q (pq_impl q ! j))"

definition pqImpl_Swap :: "'v PriorityQueue \<Rightarrow> nat \<Rightarrow> nat \<Rightarrow> 'v PriorityQueue" where
  "pqImpl_Swap q i j =
     (let mh = list_swap (pq_impl q) i j;
          st = set_index (pq_store q) (mh ! i) (int i)
      in q\<lparr>pq_impl := mh, pq_store := set_index st (mh ! j) (int j)\<rparr>)"

definition pqImpl_Push :: "'v PriorityQueue \<Rightarrow> addr \<Rightarrow> 'v PriorityQueue" where
  "pqImpl_Push q item =
     (let n = length (pq_impl q)
      in q\<lparr>pq_store := set_index (pq_store q) item (int n), pq_impl := pq_impl q @ [item]\<rparr>)"

definition pqImpl_Pop :: "'v PriorityQueue \<Rightarrow> ('v PriorityQueue \<times> addr) go" where
  "pqImpl_Pop q =
     (let old = pq_impl q; n = length old
      in if n = 0 then Panic IndexOutOfRange
         else let item = old ! (n - 1)
              in Ret (q\<lparr>pq_store := set_index (pq_store q) item (- 1), pq_impl := take (n - 1) old\<rparr>, item))"

section \<open>The queue\<close>

definition NewPriorityQueue :: "(addr \<Rightarrow> 'v PQItem) \<Rightarrow> 'v PriorityQueue" where
  "NewPriorityQueue st = heap_Init pqImpl_Len pqImpl_Less pqImpl_Swap \<lparr>pq_store = st, pq_impl = []\<rparr>"

definition PriorityQueue_Len :: "'v PriorityQueue \<Rightarrow> nat" where
  "PriorityQueue_Len q = pqImpl_Len q"

definition PriorityQueue_Push :: "'v PriorityQueue \<Rightarrow> addr \<Rightarrow> 'v PriorityQueue" where
  "PriorityQueue_Push q el =
     (let q' = pqImpl_Push q el in heap_up pqImpl_Less pqImpl_Swap q' (pqImpl_Len q' - 1))"

text \<open>On an empty queue \<^verbatim>\<open>heap.Pop\<close> calls \<^verbatim>\<open>Swap(0, -1)\<close>, which panics.\<close>

definition PriorityQueue_Pop :: "'v PriorityQueue \<Rightarrow> ('v PriorityQueue \<times> addr) go" where
  "PriorityQueue_Pop q =
     (if pqImpl_Len q = 0 then Panic IndexOutOfRange
      else pqImpl_Pop (heap_pop_sift pqImpl_Len pqImpl_Less pqImpl_Swap q))"

definition PriorityQueue_Peek :: "'v PriorityQueue \<Rightarrow> addr go" where
  "PriorityQueue_Peek q = (if pq_impl q = [] then Panic IndexOutOfRange else Ret (pq_impl q ! 0))"

text \<open>\<^verbatim>\<open>heap.Remove\<close>: an index outside the slice makes \<^verbatim>\<open>Swap\<close>, or \<^verbatim>\<open>Pop\<close>, panic.\<close>

definition PriorityQueue_Remove :: "'v PriorityQueue \<Rightarrow> addr \<Rightarrow> 'v PriorityQueue go" where
  "PriorityQueue_Remove q el =
     (let i = item_index (pq_store q el)
      in if i < 0 \<or> int (pqImpl_Len q) \<le> i then Panic IndexOutOfRange
         else go_bind (pqImpl_Pop (heap_remove_sift pqImpl_Len pqImpl_Less pqImpl_Swap q (nat i)))
                (\<lambda>(q', _). Ret q'))"

definition set_priority :: "'v PriorityQueue \<Rightarrow> addr \<Rightarrow> int \<Rightarrow> 'v PriorityQueue" where
  "set_priority q el p = q\<lparr>pq_store := (pq_store q)(el := (pq_store q el)\<lparr>item_Priority := p\<rparr>)\<rparr>"

definition PriorityQueue_Update :: "'v PriorityQueue \<Rightarrow> addr \<Rightarrow> int \<Rightarrow> 'v PriorityQueue go" where
  "PriorityQueue_Update q el priority =
     go_bind (PriorityQueue_Remove q el)
       (\<lambda>q'. Ret (PriorityQueue_Push (set_priority q' el priority) el))"

section \<open>Invariant\<close>

definition pq_prio :: "'v PriorityQueue \<Rightarrow> addr \<Rightarrow> int" where
  "pq_prio q a = item_Priority (pq_store q a)"

definition pq_value :: "'v PriorityQueue \<Rightarrow> addr \<Rightarrow> 'v" where
  "pq_value q a = item_Value (pq_store q a)"

definition pq_wf :: "'v PriorityQueue \<Rightarrow> bool" where
  "pq_wf q \<longleftrightarrow>
     distinct (pq_impl q) \<and>
     (\<forall>i < length (pq_impl q). item_index (pq_store q (pq_impl q ! i)) = int i)"

definition pq_inv :: "'v PriorityQueue \<Rightarrow> bool" where
  "pq_inv q \<longleftrightarrow> pq_wf q \<and> heap_ordered (slice_key (pq_prio q) (pq_impl q)) (length (pq_impl q))"

lemma pq_prio_Swap [simp]: "pq_prio (pqImpl_Swap q i j) = pq_prio q"
  by (simp add: fun_eq_iff pq_prio_def pqImpl_Swap_def set_index_def Let_def)

lemma pq_value_Swap [simp]: "pq_value (pqImpl_Swap q i j) = pq_value q"
  by (simp add: fun_eq_iff pq_value_def pqImpl_Swap_def set_index_def Let_def)

lemma pq_wf_Swap:
  assumes "i < pqImpl_Len q" "j < pqImpl_Len q" "pq_wf q"
  shows "pq_wf (pqImpl_Swap q i j)"
proof -
  let ?mh = "list_swap (pq_impl q) i j"
  have "distinct ?mh" using assms by (simp add: pq_wf_def pqImpl_Len_def)
  moreover have "item_index (pq_store (pqImpl_Swap q i j) (?mh ! k)) = int k"
    if k: "k < length (pq_impl q)" for k
  proof (cases "k = i \<or> k = j")
    case True
    with assms k \<open>distinct ?mh\<close> show ?thesis
      by (auto simp: pqImpl_Swap_def set_index_def Let_def pqImpl_Len_def nth_eq_iff_index_eq)
  next
    case False
    then have "?mh ! k = pq_impl q ! k" "?mh ! k \<noteq> ?mh ! i" "?mh ! k \<noteq> ?mh ! j"
      using assms k \<open>distinct ?mh\<close>
      by (auto simp: nth_list_swap pqImpl_Len_def nth_eq_iff_index_eq)
    with assms k show ?thesis
      by (simp add: pqImpl_Swap_def set_index_def Let_def pq_wf_def)
  qed
  ultimately show ?thesis by (simp add: pq_wf_def pqImpl_Swap_def Let_def)
qed

interpretation pqh: heap_interface pqImpl_Len pqImpl_Less pqImpl_Swap pq_impl pq_prio pq_wf
proof (unfold_locales, goal_cases)
  case (1 s)
  show ?case by (simp add: pqImpl_Len_def)
next
  case (2 i s j)
  then show ?case by (simp add: pqImpl_Less_def pq_prio_def)
next
  case (3 i s j)
  then show ?case by (simp add: pqImpl_Swap_def Let_def)
next
  case (4 i s j)
  then show ?case by simp
next
  case (5 i s j)
  then show ?case by (rule pq_wf_Swap)
qed

lemma pq_inv_hkey: "pq_inv q \<longleftrightarrow> pq_wf q \<and> heap_ordered (pqh.hkey q) (pqImpl_Len q)"
  by (simp add: pq_inv_def pqh.hkey_def pqImpl_Len_def)

lemma pq_inv_least:
  assumes "pq_inv q" "a \<in> set (pq_impl q)"
  shows "pq_prio q (pq_impl q ! 0) \<le> pq_prio q a"
proof -
  obtain k where k: "k < length (pq_impl q)" "pq_impl q ! k = a"
    using assms(2) by (auto simp: in_set_conv_nth)
  then have "slice_key (pq_prio q) (pq_impl q) 0 \<le> slice_key (pq_prio q) (pq_impl q) k"
    using assms(1) by (intro heap_ordered_least) (simp_all add: pq_inv_def)
  moreover have "0 < length (pq_impl q)" using k by linarith
  ultimately show ?thesis using k by (simp add: slice_key_def)
qed

section \<open>What the operations do\<close>

lemma pq_Pop_last:
  assumes wf: "pq_wf q" and ord: "heap_ordered (pqh.hkey q) (pqImpl_Len q - 1)" and ne: "pq_impl q \<noteq> []"
  shows "\<exists>q'. pqImpl_Pop q = Ret (q', last (pq_impl q)) \<and> pq_inv q' \<and>
    pq_impl q' = butlast (pq_impl q) \<and> pq_prio q' = pq_prio q \<and> pq_value q' = pq_value q \<and>
    item_index (pq_store q' (last (pq_impl q))) = -1"
proof -
  let ?l = "last (pq_impl q)"
  define q' where "q' = q\<lparr>pq_store := set_index (pq_store q) ?l (- 1), pq_impl := butlast (pq_impl q)\<rparr>"
  have pop: "pqImpl_Pop q = Ret (q', ?l)"
    using ne by (simp add: pqImpl_Pop_def q'_def Let_def last_conv_nth butlast_conv_take)
  have frame: "pq_prio q' = pq_prio q" "pq_value q' = pq_value q" "pq_impl q' = butlast (pq_impl q)"
    by (simp_all add: fun_eq_iff q'_def pq_prio_def pq_value_def set_index_def)
  have "?l \<notin> set (butlast (pq_impl q))"
    using wf ne by (simp add: pq_wf_def last_notin_butlast)
  then have "butlast (pq_impl q) ! i \<noteq> ?l" if "i < length (pq_impl q) - 1" for i
    using that by (metis length_butlast nth_mem)
  then have "pq_wf q'"
    using wf by (auto simp: pq_wf_def q'_def set_index_def nth_butlast distinct_butlast)
  moreover have "heap_ordered (pqh.hkey q') (pqImpl_Len q')"
    using ord by (subst heap_ordered_cong [where g = "pqh.hkey q"])
      (auto simp: pqh.hkey_def slice_key_def frame pqImpl_Len_def nth_butlast)
  moreover have "item_index (pq_store q' ?l) = -1" by (simp add: q'_def set_index_def)
  ultimately show ?thesis using pop frame by (simp add: pq_inv_hkey)
qed

lemma NewPriorityQueue_spec:
  "pq_inv (NewPriorityQueue st)" "pq_impl (NewPriorityQueue st) = []"
  "pq_store (NewPriorityQueue st) = st"
  by (simp_all add: NewPriorityQueue_def heap_Init_def pqImpl_Len_def pq_inv_def pq_wf_def heap_ordered_def)

lemma PriorityQueue_Push_spec:
  assumes inv: "pq_inv q" and fresh: "el \<notin> set (pq_impl q)"
  defines "q' \<equiv> PriorityQueue_Push q el"
  shows "pq_inv q'" and "mset (pq_impl q') = add_mset el (mset (pq_impl q))"
    and "pq_prio q' = pq_prio q" and "pq_value q' = pq_value q"
proof -
  let ?p = "pqImpl_Push q el" and ?n = "pqImpl_Len q"
  have q': "q' = heap_up pqImpl_Less pqImpl_Swap ?p ?n"
    by (simp add: q'_def PriorityQueue_Push_def Let_def pqImpl_Push_def pqImpl_Len_def)
  have impl: "pq_impl ?p = pq_impl q @ [el]" by (simp add: pqImpl_Push_def Let_def)
  have prio: "pq_prio ?p = pq_prio q" and val: "pq_value ?p = pq_value q"
    by (simp_all add: fun_eq_iff pqImpl_Push_def Let_def pq_prio_def pq_value_def set_index_def)
  have "pq_wf ?p"
    using inv fresh
    by (auto simp: pq_inv_def pq_wf_def pqImpl_Push_def Let_def set_index_def nth_append less_Suc_eq)
  moreover have "heap_ordered (pqh.hkey ?p) ?n"
    using inv by (subst heap_ordered_cong [where g = "pqh.hkey q"])
      (auto simp: pq_inv_hkey pqh.hkey_def slice_key_def impl prio nth_append pqImpl_Len_def)
  moreover have "pqImpl_Len ?p = Suc ?n" by (simp add: pqImpl_Len_def impl)
  ultimately have "pq_wf q' \<and> pq_prio q' = pq_prio ?p \<and> mset (pq_impl q') = mset (pq_impl ?p) \<and>
      heap_ordered (pqh.hkey q') (Suc ?n)"
    unfolding q' by (rule pqh.heap_push_sift_spec)
  moreover from this have "pqImpl_Len q' = Suc ?n"
    by (metis impl length_append_singleton pqImpl_Len_def size_mset)
  ultimately show "pq_inv q'" "mset (pq_impl q') = add_mset el (mset (pq_impl q))"
    "pq_prio q' = pq_prio q"
    by (simp_all add: pq_inv_hkey impl prio)
  show "pq_value q' = pq_value q"
    unfolding q' by (subst heap_up_frame [where g = pq_value]) (simp_all add: val)
qed

lemma PriorityQueue_Pop_spec:
  assumes inv: "pq_inv q" and ne: "pq_impl q \<noteq> []"
  shows "\<exists>q' el. PriorityQueue_Pop q = Ret (q', el) \<and> PriorityQueue_Peek q = Ret el \<and> pq_inv q' \<and>
    mset (pq_impl q) = add_mset el (mset (pq_impl q')) \<and>
    (\<forall>a \<in> set (pq_impl q). pq_prio q el \<le> pq_prio q a) \<and>
    pq_prio q' = pq_prio q \<and> pq_value q' = pq_value q \<and> item_index (pq_store q' el) = -1"
proof -
  let ?t = "heap_pop_sift pqImpl_Len pqImpl_Less pqImpl_Swap q"
  have len: "0 < pqImpl_Len q" using ne by (simp add: pqImpl_Len_def)
  have t: "pq_wf ?t" "pq_prio ?t = pq_prio q" "mset (pq_impl ?t) = mset (pq_impl q)"
    "pq_impl ?t ! (pqImpl_Len q - 1) = pq_impl q ! 0" "heap_ordered (pqh.hkey ?t) (pqImpl_Len q - 1)"
    using pqh.heap_pop_sift_spec [of q] inv len by (simp_all add: pq_inv_hkey)
  have val: "pq_value ?t = pq_value q" by (rule heap_sift_frame) simp
  have len_t: "length (pq_impl ?t) = pqImpl_Len q" by (metis pqImpl_Len_def size_mset t(3))
  then have ne_t: "pq_impl ?t \<noteq> []" using len by auto
  then have last: "last (pq_impl ?t) = pq_impl q ! 0" using t(4) len_t by (simp add: last_conv_nth)
  obtain q' where q': "pqImpl_Pop ?t = Ret (q', pq_impl q ! 0)" "pq_inv q'"
    "pq_impl q' = butlast (pq_impl ?t)" "pq_prio q' = pq_prio q" "pq_value q' = pq_value q"
    "item_index (pq_store q' (pq_impl q ! 0)) = -1"
    using pq_Pop_last [OF t(1) _ ne_t] t(2,5) len_t val last by (auto simp: pqImpl_Len_def)
  have "mset (pq_impl q) = add_mset (pq_impl q ! 0) (mset (pq_impl q'))"
    using mset_butlast_last [OF ne_t] last t(3) q'(3) by simp
  then show ?thesis
    using q' len ne pq_inv_least [OF inv] by (simp add: PriorityQueue_Pop_def PriorityQueue_Peek_def)
qed

lemma PriorityQueue_Pop_empty:
  "pq_impl q = [] \<Longrightarrow> PriorityQueue_Pop q = Panic IndexOutOfRange"
  by (simp add: PriorityQueue_Pop_def pqImpl_Len_def)

lemma PriorityQueue_Remove_spec:
  assumes inv: "pq_inv q" and el: "el \<in> set (pq_impl q)"
  shows "\<exists>q'. PriorityQueue_Remove q el = Ret q' \<and> pq_inv q' \<and>
    mset (pq_impl q) = add_mset el (mset (pq_impl q')) \<and>
    pq_prio q' = pq_prio q \<and> pq_value q' = pq_value q \<and> item_index (pq_store q' el) = -1"
proof -
  obtain i where "i < length (pq_impl q)" "pq_impl q ! i = el"
    using el by (auto simp: in_set_conv_nth)
  with inv have i: "i < length (pq_impl q)" "pq_impl q ! i = el" "item_index (pq_store q el) = int i"
    by (auto simp: pq_inv_def pq_wf_def)
  let ?t = "heap_remove_sift pqImpl_Len pqImpl_Less pqImpl_Swap q i"
  have t: "pq_wf ?t" "pq_prio ?t = pq_prio q" "mset (pq_impl ?t) = mset (pq_impl q)"
    "pq_impl ?t ! (pqImpl_Len q - 1) = el" "heap_ordered (pqh.hkey ?t) (pqImpl_Len q - 1)"
    using pqh.heap_remove_sift_spec [of q i] inv i by (simp_all add: pq_inv_hkey pqImpl_Len_def)
  have val: "pq_value ?t = pq_value q" by (rule heap_sift_frame) simp
  have len_t: "length (pq_impl ?t) = length (pq_impl q)" by (metis size_mset t(3))
  then have ne_t: "pq_impl ?t \<noteq> []" using i by auto
  then have last: "last (pq_impl ?t) = el"
    using t(4) len_t by (simp add: last_conv_nth pqImpl_Len_def)
  obtain q' where q': "pqImpl_Pop ?t = Ret (q', el)" "pq_inv q'"
    "pq_impl q' = butlast (pq_impl ?t)" "pq_prio q' = pq_prio q" "pq_value q' = pq_value q"
    "item_index (pq_store q' el) = -1"
    using pq_Pop_last [OF t(1) _ ne_t] t(2,5) len_t val last by (auto simp: pqImpl_Len_def)
  have "mset (pq_impl q) = add_mset el (mset (pq_impl q'))"
    using mset_butlast_last [OF ne_t] last t(3) q'(3) by simp
  with q' i show ?thesis by (simp add: PriorityQueue_Remove_def pqImpl_Len_def)
qed

lemma set_priority_spec:
  "pq_prio (set_priority q el p) = (pq_prio q)(el := p)"
  "pq_value (set_priority q el p) = pq_value q"
  "pq_impl (set_priority q el p) = pq_impl q"
  by (simp_all add: set_priority_def pq_prio_def pq_value_def fun_eq_iff)

lemma set_priority_inv: "pq_inv q \<Longrightarrow> el \<notin> set (pq_impl q) \<Longrightarrow> pq_inv (set_priority q el p)"
proof -
  assume inv: "pq_inv q" and el: "el \<notin> set (pq_impl q)"
  have "pq_wf (set_priority q el p)"
    using inv by (auto simp: pq_inv_def pq_wf_def set_priority_def)
  moreover have "slice_key (pq_prio (set_priority q el p)) (pq_impl q) = slice_key (pq_prio q) (pq_impl q)"
    using el by (auto simp: fun_eq_iff slice_key_def set_priority_spec)
  ultimately show ?thesis using inv by (simp add: pq_inv_def set_priority_spec)
qed

lemma PriorityQueue_Update_spec:
  assumes inv: "pq_inv q" and el: "el \<in> set (pq_impl q)"
  shows "\<exists>q'. PriorityQueue_Update q el p = Ret q' \<and> pq_inv q' \<and>
    mset (pq_impl q') = mset (pq_impl q) \<and> pq_prio q' = (pq_prio q)(el := p) \<and> pq_value q' = pq_value q"
proof -
  obtain r where r: "PriorityQueue_Remove q el = Ret r" "pq_inv r"
    "mset (pq_impl q) = add_mset el (mset (pq_impl r))" "pq_prio r = pq_prio q" "pq_value r = pq_value q"
    using PriorityQueue_Remove_spec [OF inv el] by blast
  have "distinct (pq_impl q)" using inv by (simp add: pq_inv_def pq_wf_def)
  then have "distinct (el # pq_impl r)"
    using r(3) by (metis mset.simps(2) mset_eq_imp_distinct_iff)
  then have fresh: "el \<notin> set (pq_impl (set_priority r el p))" by (simp add: set_priority_spec)
  have "pq_inv (set_priority r el p)"
    using r(2) fresh by (intro set_priority_inv) (simp_all add: set_priority_spec)
  note push = PriorityQueue_Push_spec [OF this fresh]
  show ?thesis
    using push r by (simp add: PriorityQueue_Update_def set_priority_spec)
qed

section \<open>The interface of a priority queue\<close>

text \<open>Popping \<open>n\<close> times.\<close>

primrec pop_n :: "('q \<Rightarrow> ('q \<times> 'e) go) \<Rightarrow> nat \<Rightarrow> 'q \<Rightarrow> 'e list go" where
  "pop_n pop 0 q = Ret []"
| "pop_n pop (Suc n) q =
     go_bind (pop q) (\<lambda>(q', e). go_bind (pop_n pop n q') (\<lambda>es. Ret (e # es)))"

locale priority_queue =
  fixes push :: "'q \<Rightarrow> 'e \<Rightarrow> 'q"
    and pop :: "'q \<Rightarrow> ('q \<times> 'e) go"
    and members :: "'q \<Rightarrow> 'e multiset"
    and prio :: "'q \<Rightarrow> 'e \<Rightarrow> int"
    and invar :: "'q \<Rightarrow> bool"
  assumes push_law: "invar q \<Longrightarrow> e \<notin># members q \<Longrightarrow>
      invar (push q e) \<and> members (push q e) = add_mset e (members q) \<and> prio (push q e) = prio q"
    and pop_law: "invar q \<Longrightarrow> members q \<noteq> {#} \<Longrightarrow>
      \<exists>q' e. pop q = Ret (q', e) \<and> invar q' \<and> members q = add_mset e (members q') \<and>
        (\<forall>a \<in># members q. prio q e \<le> prio q a) \<and> prio q' = prio q"
begin

lemma pop_n_sorted:
  "invar q \<Longrightarrow> size (members q) = n \<Longrightarrow>
   \<exists>es. pop_n pop n q = Ret es \<and> mset es = members q \<and> sorted (map (prio q) es)"
proof (induction n arbitrary: q)
  case 0
  then show ?case by simp
next
  case (Suc n)
  then have "members q \<noteq> {#}" by auto
  with Suc.prems obtain q' e where pop: "pop q = Ret (q', e)" "invar q'"
    "members q = add_mset e (members q')" "\<forall>a \<in># members q. prio q e \<le> prio q a" "prio q' = prio q"
    using pop_law by blast
  then obtain es where es: "pop_n pop n q' = Ret es" "mset es = members q'" "sorted (map (prio q) es)"
    using Suc.IH [of q'] Suc.prems by auto
  then have "\<forall>a \<in> set es. prio q e \<le> prio q a" using pop(3,4) by (auto simp flip: es(2))
  with pop es show ?case by auto
qed

lemma foldl_push:
  "invar q \<Longrightarrow> distinct es \<Longrightarrow> \<forall>e \<in> set es. e \<notin># members q \<Longrightarrow>
   invar (foldl push q es) \<and> members (foldl push q es) = members q + mset es \<and>
   prio (foldl push q es) = prio q"
proof (induction es arbitrary: q)
  case (Cons e es)
  with push_law [of q e] have "invar (push q e)" "members (push q e) = add_mset e (members q)"
    "prio (push q e) = prio q" by auto
  with Cons.IH [of "push q e"] Cons.prems show ?case by auto
qed simp

text \<open>Heap sort: pushing distinct elements and popping them all sorts them.\<close>

lemma push_pop_sorts:
  assumes "invar q" "members q = {#}" "distinct es"
  shows "\<exists>os. pop_n pop (length es) (foldl push q es) = Ret os \<and> mset os = mset es \<and>
    sorted (map (prio q) os)"
  using foldl_push [of q es] pop_n_sorted [of "foldl push q es" "length es"] assms by auto

end

text \<open>The queue of an item that can be found again: it can be removed and moved.\<close>

locale indexed_priority_queue = priority_queue push pop members prio invar
  for push :: "'q \<Rightarrow> 'e \<Rightarrow> 'q" and pop members prio invar +
  fixes remove :: "'q \<Rightarrow> 'e \<Rightarrow> 'q go"
    and update :: "'q \<Rightarrow> 'e \<Rightarrow> int \<Rightarrow> 'q go"
  assumes remove_law: "invar q \<Longrightarrow> e \<in># members q \<Longrightarrow>
      \<exists>q'. remove q e = Ret q' \<and> invar q' \<and> members q = add_mset e (members q') \<and> prio q' = prio q"
    and update_law: "invar q \<Longrightarrow> e \<in># members q \<Longrightarrow>
      \<exists>q'. update q e p = Ret q' \<and> invar q' \<and> members q' = members q \<and> prio q' = (prio q)(e := p)"
begin

text \<open>An element moved strictly below all others is the next one out.\<close>

lemma update_least_next:
  assumes "invar q" "e \<in># members q" "\<forall>a \<in># members q. a \<noteq> e \<longrightarrow> p < prio q a"
  shows "\<exists>q1 q2. update q e p = Ret q1 \<and> pop q1 = Ret (q2, e)"
proof -
  obtain q1 where q1: "update q e p = Ret q1" "invar q1" "members q1 = members q"
    "prio q1 = (prio q)(e := p)"
    using update_law [OF assms(1,2)] by blast
  then have "members q1 \<noteq> {#}" using assms(2) by auto
  then obtain q2 b where b: "pop q1 = Ret (q2, b)" "b \<in># members q1" "\<forall>a \<in># members q1. prio q1 b \<le> prio q1 a"
    using pop_law [OF q1(2)] by auto
  have "b = e"
  proof (rule ccontr)
    assume "b \<noteq> e"
    then show False using b assms(2,3) q1(3,4) by fastforce
  qed
  with q1 b show ?thesis by blast
qed

end

interpretation pqi: indexed_priority_queue PriorityQueue_Push PriorityQueue_Pop
  "\<lambda>q. mset (pq_impl q)" pq_prio pq_inv PriorityQueue_Remove PriorityQueue_Update
proof (unfold_locales, goal_cases)
  case (1 q e)
  then show ?case using PriorityQueue_Push_spec [of q e] by simp
next
  case (2 q)
  then show ?case
    using PriorityQueue_Pop_spec [of q] unfolding set_mset_mset mset_zero_iff by blast
next
  case (3 q e)
  then show ?case using PriorityQueue_Remove_spec [of q e] by fastforce
next
  case (4 q e p)
  then show ?case using PriorityQueue_Update_spec [of q e p] by fastforce
qed

section \<open>Properties\<close>

text \<open>Three items of priorities 5, 3 and 9, at the addresses 0, 1 and 2.\<close>

definition pq_example_store :: "addr \<Rightarrow> nat PQItem" where
  "pq_example_store a =
     \<lparr>item_Value = a, item_Priority = (if a = 0 then 5 else if a = 1 then 3 else 9), item_index = 0\<rparr>"

definition pq_example :: "nat PriorityQueue" where
  "pq_example = foldl PriorityQueue_Push (NewPriorityQueue pq_example_store) [0, 1, 2]"

lemma pq_example_inv:
  "pq_inv pq_example" "mset (pq_impl pq_example) = mset [0, 1, 2]"
  "pq_prio pq_example = (\<lambda>a. item_Priority (pq_example_store a))"
  unfolding pq_example_def
  using pqi.foldl_push [of "NewPriorityQueue pq_example_store" "[0, 1, 2]"]
    NewPriorityQueue_spec [of pq_example_store]
  by (simp_all add: pq_prio_def [abs_def])

text \<open>
  C12: pushing distinct items into a new queue and popping as many returns exactly
  those items, in the order of their priorities, without a panic: the queue sorts.
\<close>

theorem PriorityQueue_sorts:
  assumes "distinct es"
  shows "\<exists>os. pop_n PriorityQueue_Pop (length es) (foldl PriorityQueue_Push (NewPriorityQueue st) es) = Ret os \<and>
    mset os = mset es \<and> sorted (map (\<lambda>a. item_Priority (st a)) os)"
proof -
  have "pq_prio (NewPriorityQueue st) = (\<lambda>a. item_Priority (st a))"
    by (simp add: fun_eq_iff pq_prio_def NewPriorityQueue_spec)
  then show ?thesis
    using pqi.push_pop_sorts [of "NewPriorityQueue st" es] assms by (simp add: NewPriorityQueue_spec)
qed

theorem PriorityQueue_sorts_witness:
  "\<exists>os. pop_n PriorityQueue_Pop 3 pq_example = Ret os \<and> mset os = mset [0, 1, 2 :: addr] \<and>
    sorted (map (\<lambda>a. item_Priority (pq_example_store a)) os)"
  using PriorityQueue_sorts [of "[0, 1, 2]" pq_example_store] by (simp add: pq_example_def numeral_3_eq_3)

text \<open>
  \<^verbatim>\<open>Update\<close> moves exactly the item it is given: on a queue whose positions
  are right it does not panic, keeps the set of items and every value, changes the
  priority of that item alone, and leaves a heap with right positions.
\<close>

theorem PriorityQueue_Update_moves:
  assumes "pq_inv q" "el \<in> set (pq_impl q)"
  shows "\<exists>q'. PriorityQueue_Update q el p = Ret q' \<and> pq_inv q' \<and> set (pq_impl q') = set (pq_impl q) \<and>
    PriorityQueue_Len q' = PriorityQueue_Len q \<and>
    (\<forall>a. item_Priority (pq_store q' a) = (if a = el then p else item_Priority (pq_store q a)) \<and>
         item_Value (pq_store q' a) = item_Value (pq_store q a))"
proof -
  obtain q' where q': "PriorityQueue_Update q el p = Ret q'" "pq_inv q'"
    "mset (pq_impl q') = mset (pq_impl q)" "pq_prio q' = (pq_prio q)(el := p)" "pq_value q' = pq_value q"
    using PriorityQueue_Update_spec [OF assms] by blast
  then have "set (pq_impl q') = set (pq_impl q)" "PriorityQueue_Len q' = PriorityQueue_Len q"
    by (metis set_mset_mset) (metis PriorityQueue_Len_def pqImpl_Len_def q'(3) size_mset)
  with q' show ?thesis by (simp add: fun_eq_iff pq_prio_def pq_value_def)
qed

theorem PriorityQueue_Update_moves_witness:
  "\<exists>q'. PriorityQueue_Update pq_example 2 1 = Ret q' \<and> pq_inv q' \<and>
    set (pq_impl q') = set (pq_impl pq_example) \<and> PriorityQueue_Len q' = PriorityQueue_Len pq_example \<and>
    (\<forall>a. item_Priority (pq_store q' a) = (if a = 2 then 1 else item_Priority (pq_store pq_example a)) \<and>
         item_Value (pq_store q' a) = item_Value (pq_store pq_example a))"
proof -
  have "2 \<in> set (pq_impl pq_example)"
    using pq_example_inv(2) by (metis list.set_intros set_mset_mset)
  then show ?thesis by (rule PriorityQueue_Update_moves [OF pq_example_inv(1)])
qed

text \<open>
  \<^verbatim>\<open>Remove\<close> takes out exactly the item it is given and marks it: the other
  items stay, and a second \<^verbatim>\<open>Remove\<close> or \<^verbatim>\<open>Update\<close> of the same item panics instead of
  taking out some other item.
\<close>

theorem PriorityQueue_Remove_exact:
  assumes "pq_inv q" "el \<in> set (pq_impl q)"
  shows "\<exists>q'. PriorityQueue_Remove q el = Ret q' \<and> pq_inv q' \<and>
    set (pq_impl q') = set (pq_impl q) - {el} \<and> PriorityQueue_Len q = Suc (PriorityQueue_Len q') \<and>
    (\<forall>a. item_Priority (pq_store q' a) = item_Priority (pq_store q a)) \<and>
    PriorityQueue_Remove q' el = Panic IndexOutOfRange \<and>
    PriorityQueue_Update q' el p = Panic IndexOutOfRange"
proof -
  obtain q' where q': "PriorityQueue_Remove q el = Ret q'" "pq_inv q'"
    "mset (pq_impl q) = add_mset el (mset (pq_impl q'))" "pq_prio q' = pq_prio q"
    "item_index (pq_store q' el) = -1"
    using PriorityQueue_Remove_spec [OF assms] by blast
  have eq: "mset (pq_impl q) = mset (el # pq_impl q')" using q'(3) by simp
  have "set (pq_impl q) = insert el (set (pq_impl q'))"
    using mset_eq_setD [OF eq] by simp
  moreover have "el \<notin> set (pq_impl q')"
    using mset_eq_imp_distinct_iff [OF eq] assms(1) by (simp add: pq_inv_def pq_wf_def)
  moreover have "length (pq_impl q) = Suc (length (pq_impl q'))"
    using q'(3) by (metis size_add_mset size_mset)
  moreover have "PriorityQueue_Remove q' el = Panic IndexOutOfRange"
    using q'(5) by (simp add: PriorityQueue_Remove_def)
  ultimately show ?thesis
    using q' by (auto simp: PriorityQueue_Update_def PriorityQueue_Len_def pqImpl_Len_def pq_prio_def fun_eq_iff)
qed

theorem PriorityQueue_Remove_exact_witness:
  "\<exists>q'. PriorityQueue_Remove pq_example 1 = Ret q' \<and> pq_inv q' \<and>
    set (pq_impl q') = set (pq_impl pq_example) - {1} \<and>
    PriorityQueue_Len pq_example = Suc (PriorityQueue_Len q') \<and>
    (\<forall>a. item_Priority (pq_store q' a) = item_Priority (pq_store pq_example a)) \<and>
    PriorityQueue_Remove q' 1 = Panic IndexOutOfRange \<and>
    PriorityQueue_Update q' 1 7 = Panic IndexOutOfRange"
proof -
  have "1 \<in> set (pq_impl pq_example)"
    using pq_example_inv(2) by (metis list.set_intros set_mset_mset)
  then show ?thesis by (rule PriorityQueue_Remove_exact [OF pq_example_inv(1)])
qed

end
