(* ===== verification/TTL_Map.thy ===== *)
theory TTL_Map
  imports Priority_Queue
begin

text \<open>
  \<^verbatim>\<open>ttlmap.go\<close>: the map whose entries expire. The elements are reachable by key through
  a Go map and by expiry time through a \<^verbatim>\<open>PriorityQueue\<close>; each element points to its
  queue item and the item points back. The invariant \<open>ttl_inv\<close> says that the two agree;
  \<open>ttl_abs\<close> abstracts a state to a map from keys to values with expiry times, on which
  the operations are specified. The methods read \<^verbatim>\<open>m.Clock\<close> once or more; every read is
  an argument of its own. \<^verbatim>\<open>v3/collections/ttlmap.go\<close> differs only in reading the clock
  of the package \<^verbatim>\<open>clock\<close>. The methods hold the mutex of the map; \<^verbatim>\<open>Get\<close> takes it twice,
  and its two critical sections are separate definitions.
\<close>

section \<open>Data\<close>

record mapElement =
  el_key :: string
  el_value :: iface
  el_heapEl :: addr

text \<open>
  The two stores hold the \<^verbatim>\<open>mapElement\<close>s and, in the queue, the \<^verbatim>\<open>PQItem\<close>s; addresses from
  \<open>ttl_next\<close> on are free in both. \<open>ttl_OnExpire\<close> says whether a callback is set and
  \<open>ttl_expired\<close> lists its calls.
\<close>

record TTLMap =
  ttl_capacity :: int
  ttl_elements :: "(string, addr) gomap"
  ttl_els :: "addr \<Rightarrow> mapElement"
  ttl_expiryTimes :: "addr PriorityQueue"
  ttl_next :: addr
  ttl_OnExpire :: bool
  ttl_expired :: "(string \<times> iface) list"

datatype ttl_error = TTLSecondsError int | NotIntegerError string

section \<open>Operations\<close>

definition NewTTLMap :: "int \<Rightarrow> TTLMap" where
  "NewTTLMap capacity =
     \<lparr>ttl_capacity = (if capacity \<le> 0 then 0 else capacity),
      ttl_elements = [],
      ttl_els = (\<lambda>_. \<lparr>el_key = [], el_value = INil, el_heapEl = 0\<rparr>),
      ttl_expiryTimes = NewPriorityQueue (\<lambda>_. \<lparr>item_Value = 0, item_Priority = 0, item_index = 0\<rparr>),
      ttl_next = 0, ttl_OnExpire = False, ttl_expired = []\<rparr>"

definition TTLMap_toEpochSeconds :: "time \<Rightarrow> int \<Rightarrow> ttl_error + int" where
  "TTLMap_toEpochSeconds now ttlSeconds =
     (if ttlSeconds \<le> 0 then Inl (TTLSecondsError ttlSeconds)
      else Inr (time_Unix (time_Add now (i64 (Second * ttlSeconds)))))"

definition TTLMap_Len :: "TTLMap \<Rightarrow> nat" where
  "TTLMap_Len m = length (ttl_elements m)"

definition ttl_priority :: "TTLMap \<Rightarrow> addr \<Rightarrow> int" where
  "ttl_priority m a = pq_prio (ttl_expiryTimes m) (el_heapEl (ttl_els m a))"

text \<open>The loop of \<^verbatim>\<open>RemoveExpired\<close>; \<open>n\<close> counts the iterations left.\<close>

fun RemoveExpired_loop :: "int \<Rightarrow> nat \<Rightarrow> nat \<Rightarrow> TTLMap \<Rightarrow> (TTLMap \<times> nat) go" where
  "RemoveExpired_loop now 0 removed m = Ret (m, removed)"
| "RemoveExpired_loop now (Suc n) removed m =
     (if ttl_elements m = [] then Ret (m, removed)
      else go_bind (PriorityQueue_Peek (ttl_expiryTimes m)) (\<lambda>heapEl.
        if now < pq_prio (ttl_expiryTimes m) heapEl then Ret (m, removed)
        else go_bind (PriorityQueue_Pop (ttl_expiryTimes m)) (\<lambda>(q, _).
          let mapEl = pq_value (ttl_expiryTimes m) heapEl
          in RemoveExpired_loop now n (removed + 1)
               (m\<lparr>ttl_expiryTimes := q,
                  ttl_elements := AList.delete (el_key (ttl_els m mapEl)) (ttl_elements m)\<rparr>))))"

definition TTLMap_RemoveExpired :: "time \<Rightarrow> TTLMap \<Rightarrow> int \<Rightarrow> (TTLMap \<times> nat) go" where
  "TTLMap_RemoveExpired now m iterations = RemoveExpired_loop (time_Unix now) (nat iterations) 0 m"

fun RemoveLastUsed_loop :: "nat \<Rightarrow> TTLMap \<Rightarrow> TTLMap go" where
  "RemoveLastUsed_loop 0 m = Ret m"
| "RemoveLastUsed_loop (Suc n) m =
     (if ttl_elements m = [] then Ret m
      else go_bind (PriorityQueue_Pop (ttl_expiryTimes m)) (\<lambda>(q, heapEl).
        let mapEl = pq_value q heapEl
        in RemoveLastUsed_loop n
             (m\<lparr>ttl_expiryTimes := q,
                ttl_elements := AList.delete (el_key (ttl_els m mapEl)) (ttl_elements m)\<rparr>)))"

definition TTLMap_RemoveLastUsed :: "TTLMap \<Rightarrow> int \<Rightarrow> TTLMap go" where
  "TTLMap_RemoveLastUsed m iterations = RemoveLastUsed_loop (nat iterations) m"

definition TTLMap_freeSpace :: "time \<Rightarrow> TTLMap \<Rightarrow> int \<Rightarrow> TTLMap go" where
  "TTLMap_freeSpace now m cnt =
     go_bind (TTLMap_RemoveExpired now m cnt) (\<lambda>(m', removed).
       if cnt \<le> int removed then Ret m' else TTLMap_RemoveLastUsed m' (cnt - int removed))"

text \<open>The new element and its queue item are allocated at the next free address.\<close>

definition ttl_insert :: "TTLMap \<Rightarrow> string \<Rightarrow> iface \<Rightarrow> int \<Rightarrow> TTLMap" where
  "ttl_insert m key value expiryTime =
     (let a = ttl_next m; q = ttl_expiryTimes m;
          q' = q\<lparr>pq_store := (pq_store q)(a := \<lparr>item_Value = a, item_Priority = expiryTime, item_index = 0\<rparr>)\<rparr>
      in m\<lparr>ttl_els := (ttl_els m)(a := \<lparr>el_key = key, el_value = value, el_heapEl = a\<rparr>),
           ttl_next := Suc a,
           ttl_elements := AList.update key a (ttl_elements m),
           ttl_expiryTimes := PriorityQueue_Push q' a\<rparr>)"

definition TTLMap_set :: "time \<Rightarrow> TTLMap \<Rightarrow> string \<Rightarrow> iface \<Rightarrow> int \<Rightarrow> TTLMap go" where
  "TTLMap_set now m key value expiryTime =
     (case map_of (ttl_elements m) key of
        Some a \<Rightarrow>
          let m' = m\<lparr>ttl_els := (ttl_els m)(a := (ttl_els m a)\<lparr>el_value := value\<rparr>)\<rparr>
          in go_bind (PriorityQueue_Update (ttl_expiryTimes m') (el_heapEl (ttl_els m' a)) expiryTime)
               (\<lambda>q. Ret (m'\<lparr>ttl_expiryTimes := q\<rparr>))
      | None \<Rightarrow>
          go_bind (if ttl_capacity m \<le> int (length (ttl_elements m)) then TTLMap_freeSpace now m 1 else Ret m)
            (\<lambda>m'. Ret (ttl_insert m' key value expiryTime)))"

definition TTLMap_Set ::
  "time \<Rightarrow> time \<Rightarrow> TTLMap \<Rightarrow> string \<Rightarrow> iface \<Rightarrow> int \<Rightarrow> (TTLMap \<times> ttl_error option) go" where
  "TTLMap_Set now1 now2 m key value ttlSeconds =
     (case TTLMap_toEpochSeconds now1 ttlSeconds of
        Inl err \<Rightarrow> Ret (m, Some err)
      | Inr expiryTime \<Rightarrow>
          go_bind (TTLMap_set now2 m key value expiryTime) (\<lambda>m'. Ret (m', None)))"

definition TTLMap_get :: "time \<Rightarrow> TTLMap \<Rightarrow> string \<Rightarrow> (addr \<times> bool) option" where
  "TTLMap_get now m key =
     (case map_of (ttl_elements m) key of
        None \<Rightarrow> None
      | Some a \<Rightarrow> Some (a, ttl_priority m a \<le> time_Unix now))"

text \<open>The first critical section of \<^verbatim>\<open>Get\<close>: the value, the element and whether it expired.\<close>

definition TTLMap_lockNGet :: "time \<Rightarrow> TTLMap \<Rightarrow> string \<Rightarrow> iface \<times> addr option \<times> bool" where
  "TTLMap_lockNGet now m key =
     (case TTLMap_get now m key of
        None \<Rightarrow> (INil, None, False)
      | Some (a, expired) \<Rightarrow> (el_value (ttl_els m a), Some a, expired))"

text \<open>The second one, which looks the element up again under the lock.\<close>

definition TTLMap_lockNDel :: "time \<Rightarrow> TTLMap \<Rightarrow> addr \<Rightarrow> TTLMap go" where
  "TTLMap_lockNDel now m mapEl =
     (case map_of (ttl_elements m) (el_key (ttl_els m mapEl)) of
        None \<Rightarrow> Ret m
      | Some a \<Rightarrow>
          if time_Unix now < ttl_priority m a then Ret m
          else
            let e = ttl_els m a;
                m' = (if ttl_OnExpire m then m\<lparr>ttl_expired := ttl_expired m @ [(el_key e, el_value e)]\<rparr> else m)
            in go_bind (PriorityQueue_Remove (ttl_expiryTimes m') (el_heapEl e))
                 (\<lambda>q. Ret (m'\<lparr>ttl_elements := AList.delete (el_key e) (ttl_elements m'), ttl_expiryTimes := q\<rparr>)))"

definition TTLMap_Get :: "time \<Rightarrow> time \<Rightarrow> TTLMap \<Rightarrow> string \<Rightarrow> (TTLMap \<times> iface option) go" where
  "TTLMap_Get now1 now2 m key =
     (case TTLMap_lockNGet now1 m key of
        (value, None, _) \<Rightarrow> Ret (m, None)
      | (value, Some a, expired) \<Rightarrow>
          if expired then go_bind (TTLMap_lockNDel now2 m a) (\<lambda>m'. Ret (m', None))
          else Ret (m, Some value))"

definition TTLMap_Increment ::
  "time \<Rightarrow> time \<Rightarrow> time \<Rightarrow> TTLMap \<Rightarrow> string \<Rightarrow> int \<Rightarrow> int \<Rightarrow> (TTLMap \<times> (ttl_error + int)) go" where
  "TTLMap_Increment now1 now2 now3 m key value ttlSeconds =
     (case TTLMap_toEpochSeconds now1 ttlSeconds of
        Inl err \<Rightarrow> Ret (m, Inl err)
      | Inr expiryTime \<Rightarrow>
          (case TTLMap_get now2 m key of
             None \<Rightarrow> go_bind (TTLMap_set now3 m key (IInt value) expiryTime) (\<lambda>m'. Ret (m', Inr value))
           | Some (a, True) \<Rightarrow> go_bind (TTLMap_set now3 m key (IInt value) expiryTime) (\<lambda>m'. Ret (m', Inr value))
           | Some (a, False) \<Rightarrow>
               (case el_value (ttl_els m a) of
                  IInt currentValue \<Rightarrow>
                    let v = i64 (currentValue + value)
                    in go_bind (TTLMap_set now3 m key (IInt v) expiryTime) (\<lambda>m'. Ret (m', Inr v))
                | other \<Rightarrow> Ret (m, Inl (NotIntegerError (type_name other))))))"

text \<open>\<open>Inr None\<close> is \<^verbatim>\<open>0, false, nil\<close>.\<close>

definition TTLMap_GetInt :: "time \<Rightarrow> time \<Rightarrow> TTLMap \<Rightarrow> string \<Rightarrow> (TTLMap \<times> (ttl_error + int option)) go" where
  "TTLMap_GetInt now1 now2 m key =
     go_bind (TTLMap_Get now1 now2 m key) (\<lambda>(m', valueI).
       Ret (m', case valueI of
                  None \<Rightarrow> Inr None
                | Some (IInt value) \<Rightarrow> Inr (Some value)
                | Some other \<Rightarrow> Inl (NotIntegerError (type_name other))))"

section \<open>Invariant and abstraction\<close>

text \<open>
  \<open>ttl_linked m k a\<close>: the element at \<open>a\<close> has the key \<open>k\<close>, and its item is in the queue and
  points back. \<open>ttl_owned m h\<close>: the item \<open>h\<close> belongs to an element that the map holds.
\<close>

definition ttl_linked :: "TTLMap \<Rightarrow> string \<Rightarrow> addr \<Rightarrow> bool" where
  "ttl_linked m k a \<longleftrightarrow>
     el_key (ttl_els m a) = k \<and> el_heapEl (ttl_els m a) \<in> set (pq_impl (ttl_expiryTimes m)) \<and>
     pq_value (ttl_expiryTimes m) (el_heapEl (ttl_els m a)) = a \<and> a < ttl_next m"

definition ttl_owned :: "TTLMap \<Rightarrow> addr \<Rightarrow> bool" where
  "ttl_owned m h \<longleftrightarrow>
     (let a = pq_value (ttl_expiryTimes m) h
      in h < ttl_next m \<and> map_of (ttl_elements m) (el_key (ttl_els m a)) = Some a \<and>
         el_heapEl (ttl_els m a) = h)"

definition ttl_inv :: "TTLMap \<Rightarrow> bool" where
  "ttl_inv m \<longleftrightarrow>
     pq_inv (ttl_expiryTimes m) \<and> gomap_wf (ttl_elements m) \<and>
     (\<forall>(k, a) \<in> set (ttl_elements m). ttl_linked m k a) \<and>
     (\<forall>h \<in> set (pq_impl (ttl_expiryTimes m)). ttl_owned m h)"

text \<open>A state as a map: each key with its value and the second it expires.\<close>

definition ttl_abs :: "TTLMap \<Rightarrow> string \<Rightarrow> (iface \<times> int) option" where
  "ttl_abs m k = map_option (\<lambda>a. (el_value (ttl_els m a), ttl_priority m a)) (map_of (ttl_elements m) k)"

lemma ttl_invI:
  assumes "pq_inv (ttl_expiryTimes m)" "gomap_wf (ttl_elements m)"
    and "\<And>k a. map_of (ttl_elements m) k = Some a \<Longrightarrow> ttl_linked m k a"
    and "\<And>h. h \<in> set (pq_impl (ttl_expiryTimes m)) \<Longrightarrow> ttl_owned m h"
  shows "ttl_inv m"
  using assms by (auto simp: ttl_inv_def gomap_mem_iff)

lemma ttl_invD:
  assumes "ttl_inv m"
  shows "pq_inv (ttl_expiryTimes m)" and "gomap_wf (ttl_elements m)"
    and "\<And>k a. map_of (ttl_elements m) k = Some a \<Longrightarrow> ttl_linked m k a"
    and "\<And>h. h \<in> set (pq_impl (ttl_expiryTimes m)) \<Longrightarrow> ttl_owned m h"
  using assms by (auto simp: ttl_inv_def dest: map_of_SomeD)

lemma ttl_linked_unique:
  "ttl_linked m k a \<Longrightarrow> ttl_linked m k' a' \<Longrightarrow> el_heapEl (ttl_els m a) = el_heapEl (ttl_els m a') \<Longrightarrow>
   a = a' \<and> k = k'"
  by (auto simp: ttl_linked_def)

lemma NewTTLMap_inv: "ttl_inv (NewTTLMap c)" "ttl_abs (NewTTLMap c) = Map.empty"
  by (simp_all add: ttl_inv_def NewTTLMap_def NewPriorityQueue_spec ttl_abs_def fun_eq_iff)

lemma ttl_abs_None_iff: "ttl_abs m k = None \<longleftrightarrow> map_of (ttl_elements m) k = None"
  by (simp add: ttl_abs_def)

lemma ttl_abs_size: "ttl_inv m \<Longrightarrow> TTLMap_Len m = card (dom (ttl_abs m))"
proof -
  assume "ttl_inv m"
  then have "gomap_wf (ttl_elements m)" by (rule ttl_invD)
  moreover have "dom (ttl_abs m) = dom (map_of (ttl_elements m))"
    by (auto simp: dom_def ttl_abs_def)
  ultimately show ?thesis by (simp add: TTLMap_Len_def gomap_card_dom)
qed

lemma ttl_pq_empty_iff:
  assumes inv: "ttl_inv m"
  shows "pq_impl (ttl_expiryTimes m) = [] \<longleftrightarrow> ttl_elements m = []"
proof
  assume empty: "pq_impl (ttl_expiryTimes m) = []"
  have "p \<notin> set (ttl_elements m)" for p
    using inv empty by (cases p) (auto simp: ttl_inv_def ttl_linked_def)
  then show "ttl_elements m = []" by (cases "ttl_elements m") auto
next
  assume "ttl_elements m = []"
  then have "h \<notin> set (pq_impl (ttl_expiryTimes m))" for h
    using inv by (auto simp: ttl_inv_def ttl_owned_def Let_def)
  then show "pq_impl (ttl_expiryTimes m) = []" by (cases "pq_impl (ttl_expiryTimes m)") auto
qed

section \<open>One entry out, one entry in\<close>

text \<open>Taking an item out of the queue and its element out of the map.\<close>

lemma ttl_drop:
  assumes inv: "ttl_inv m" and h: "h \<in> set (pq_impl (ttl_expiryTimes m))"
    and q: "pq_inv q" "mset (pq_impl (ttl_expiryTimes m)) = add_mset h (mset (pq_impl q))"
      "pq_prio q = pq_prio (ttl_expiryTimes m)" "pq_value q = pq_value (ttl_expiryTimes m)"
  defines "a \<equiv> pq_value (ttl_expiryTimes m) h"
  defines "k \<equiv> el_key (ttl_els m a)"
  defines "m' \<equiv> m\<lparr>ttl_expiryTimes := q, ttl_elements := AList.delete k (ttl_elements m)\<rparr>"
  shows "ttl_inv m'" and "ttl_abs m' = (ttl_abs m)(k := None)"
    and "ttl_abs m k = Some (el_value (ttl_els m a), pq_prio (ttl_expiryTimes m) h)"
proof -
  let ?q = "ttl_expiryTimes m"
  note I = ttl_invD [OF inv]
  have eq: "mset (pq_impl ?q) = mset (h # pq_impl q)" using q(2) by simp
  have "distinct (h # pq_impl q)"
    using I(1) mset_eq_imp_distinct_iff [OF eq] by (simp add: pq_inv_def pq_wf_def)
  then have set_q: "set (pq_impl q) = set (pq_impl ?q) - {h}"
    using mset_eq_setD [OF eq] by auto
  have k: "map_of (ttl_elements m) k = Some a" "el_heapEl (ttl_els m a) = h"
    using I(4) [OF h] by (simp_all add: ttl_owned_def k_def a_def Let_def)
  have del: "map_of (AList.delete k (ttl_elements m)) = (map_of (ttl_elements m))(k := None)"
    by (simp add: AList.delete_conv')
  show "ttl_inv m'"
  proof (rule ttl_invI)
    fix k' b assume "map_of (ttl_elements m') k' = Some b"
    then have b: "k' \<noteq> k" "ttl_linked m k' b"
      using I(3) by (auto simp: m'_def del split: if_splits)
    then have "el_heapEl (ttl_els m b) \<noteq> h"
      using ttl_linked_unique [OF b(2) I(3) [OF k(1)]] k(2) by auto
    with b show "ttl_linked m' k' b" by (simp add: ttl_linked_def m'_def set_q q(4))
  next
    fix g assume "g \<in> set (pq_impl (ttl_expiryTimes m'))"
    then have g: "g \<noteq> h" "ttl_owned m g" using I(4) by (auto simp: m'_def set_q)
    then have "el_key (ttl_els m (pq_value ?q g)) \<noteq> k" using k by (auto simp: ttl_owned_def Let_def)
    with g show "ttl_owned m' g" by (simp add: ttl_owned_def m'_def q(4) del Let_def)
  qed (simp_all add: m'_def q(1) I(2))
  show "ttl_abs m' = (ttl_abs m)(k := None)"
    by (simp add: fun_eq_iff ttl_abs_def m'_def ttl_priority_def del q(3))
  show "ttl_abs m k = Some (el_value (ttl_els m a), pq_prio ?q h)"
    using k by (simp add: ttl_abs_def ttl_priority_def)
qed

lemma pq_alloc:
  assumes "pq_inv q" "a \<notin> set (pq_impl q)"
  shows "pq_inv (q\<lparr>pq_store := (pq_store q)(a := it)\<rparr>)"
proof -
  let ?q = "q\<lparr>pq_store := (pq_store q)(a := it)\<rparr>"
  have ne: "pq_impl q ! i \<noteq> a" if "i < length (pq_impl q)" for i
    using assms(2) that nth_mem by metis
  have "pq_wf ?q" using assms(1) ne by (auto simp: pq_inv_def pq_wf_def)
  moreover have "slice_key (pq_prio ?q) (pq_impl q) = slice_key (pq_prio q) (pq_impl q)"
    using ne by (auto simp: fun_eq_iff slice_key_def pq_prio_def)
  ultimately show ?thesis using assms(1) by (simp add: pq_inv_def)
qed

lemma ttl_insert_queue:
  fixes e :: int
  assumes inv: "pq_inv q" and fresh: "a \<notin> set (pq_impl q)"
  defines "q' \<equiv> PriorityQueue_Push
     (q\<lparr>pq_store := (pq_store q)(a := \<lparr>item_Value = a, item_Priority = e, item_index = 0\<rparr>)\<rparr>) a"
  shows "pq_inv q'" and "set (pq_impl q') = insert a (set (pq_impl q))"
    and "pq_prio q' = (pq_prio q)(a := e)" and "pq_value q' = (pq_value q)(a := a)"
proof -
  let ?q = "q\<lparr>pq_store := (pq_store q)(a := \<lparr>item_Value = a, item_Priority = e, item_index = 0\<rparr>)\<rparr>"
  have alloc: "pq_inv ?q" "a \<notin> set (pq_impl ?q)"
    using pq_alloc [OF inv fresh] fresh by simp_all
  note push = PriorityQueue_Push_spec [OF alloc, folded q'_def]
  show "pq_inv q'" by (rule push)
  show "set (pq_impl q') = insert a (set (pq_impl q))"
    using arg_cong [OF push(2), of set_mset] by simp
  show "pq_prio q' = (pq_prio q)(a := e)" "pq_value q' = (pq_value q)(a := a)"
    using push(3,4) by (auto simp: pq_value_def pq_prio_def fun_eq_iff)
qed

lemma ttl_insert_spec:
  fixes v :: iface and e :: int
  assumes inv: "ttl_inv m" and new: "map_of (ttl_elements m) key = None"
  defines "m' \<equiv> ttl_insert m key v e"
  shows "ttl_inv m'" and "ttl_abs m' = (ttl_abs m)(key \<mapsto> (v, e))"
proof -
  let ?q = "ttl_expiryTimes m" and ?a = "ttl_next m"
  note I = ttl_invD [OF inv]
  have fresh: "?a \<notin> set (pq_impl ?q)" using I(4) by (auto simp: ttl_owned_def Let_def)
  note push = ttl_insert_queue [OF I(1) fresh, of e]
  have m': "ttl_els m' = (ttl_els m)(?a := \<lparr>el_key = key, el_value = v, el_heapEl = ?a\<rparr>)"
    "ttl_next m' = Suc ?a" "map_of (ttl_elements m') = (map_of (ttl_elements m))(key \<mapsto> ?a)"
    "gomap_wf (ttl_elements m')" "pq_inv (ttl_expiryTimes m')" "set (pq_impl (ttl_expiryTimes m')) = insert ?a (set (pq_impl ?q))"
    "pq_prio (ttl_expiryTimes m') = (pq_prio ?q)(?a := e)" "pq_value (ttl_expiryTimes m') = (pq_value ?q)(?a := ?a)"
    using push I(2) by (simp_all add: m'_def ttl_insert_def Let_def AList.update_conv')
  have old: "a \<noteq> ?a" "el_heapEl (ttl_els m a) \<noteq> ?a" if "ttl_linked m k a" for k a
    using that fresh by (auto simp: ttl_linked_def)
  show "ttl_inv m'"
  proof (rule ttl_invI)
    fix k a assume "map_of (ttl_elements m') k = Some a"
    then consider "k = key" "a = ?a" | "k \<noteq> key" "ttl_linked m k a"
      using I(3) by (auto simp: m'(3) split: if_splits)
    then show "ttl_linked m' k a"
    proof cases
      case 2
      with old [OF 2(2)] show ?thesis by (simp add: ttl_linked_def m')
    qed (simp add: ttl_linked_def m')
  next
    fix h assume "h \<in> set (pq_impl (ttl_expiryTimes m'))"
    then consider "h = ?a" | "h \<noteq> ?a" "ttl_owned m h" using I(4) by (auto simp: m'(6))
    then show "ttl_owned m' h"
    proof cases
      case 2
      then have "map_of (ttl_elements m) (el_key (ttl_els m (pq_value ?q h))) = Some (pq_value ?q h)"
        by (simp add: ttl_owned_def Let_def)
      moreover from this have "pq_value ?q h \<noteq> ?a" using old(1) I(3) by blast
      ultimately show ?thesis using 2 new by (auto simp: ttl_owned_def m' Let_def)
    qed (simp add: ttl_owned_def m' Let_def)
  qed (simp_all add: m'(4,5))
  show "ttl_abs m' = (ttl_abs m)(key \<mapsto> (v, e))"
    using old [OF I(3)] by (auto simp: fun_eq_iff ttl_abs_def ttl_priority_def m' intro!: option.map_cong)
qed

lemma ttl_update_spec:
  assumes inv: "ttl_inv m" and old: "map_of (ttl_elements m) key = Some a"
  shows "\<exists>m'. TTLMap_set now m key v e = Ret m' \<and> ttl_inv m' \<and> ttl_abs m' = (ttl_abs m)(key \<mapsto> (v, e)) \<and>
    ttl_elements m' = ttl_elements m \<and> ttl_capacity m' = ttl_capacity m"
proof -
  let ?q = "ttl_expiryTimes m" and ?h = "el_heapEl (ttl_els m a)"
  note I = ttl_invD [OF inv]
  have h: "?h \<in> set (pq_impl ?q)" using I(3) [OF old] by (simp add: ttl_linked_def)
  obtain q where q: "PriorityQueue_Update ?q ?h e = Ret q" "pq_inv q" "mset (pq_impl q) = mset (pq_impl ?q)"
    "pq_prio q = (pq_prio ?q)(?h := e)" "pq_value q = pq_value ?q"
    using PriorityQueue_Update_spec [OF I(1) h] by blast
  have set_q: "set (pq_impl q) = set (pq_impl ?q)" using q(3) by (rule mset_eq_setD)
  define m' where "m' = m\<lparr>ttl_els := (ttl_els m)(a := (ttl_els m a)\<lparr>el_value := v\<rparr>), ttl_expiryTimes := q\<rparr>"
  have set_eq: "TTLMap_set now m key v e = Ret m'"
    using old q(1) by (simp add: TTLMap_set_def m'_def Let_def)
  have same: "el_key (ttl_els m' b) = el_key (ttl_els m b)" "el_heapEl (ttl_els m' b) = el_heapEl (ttl_els m b)" for b
    by (simp_all add: m'_def)
  have "ttl_inv m'"
  proof (rule ttl_invI)
    fix k b assume "map_of (ttl_elements m') k = Some b"
    then have "ttl_linked m k b" using I(3) by (simp add: m'_def)
    then show "ttl_linked m' k b" by (simp add: ttl_linked_def same) (simp add: m'_def set_q q(5))
  next
    fix g assume "g \<in> set (pq_impl (ttl_expiryTimes m'))"
    then have "ttl_owned m g" using I(4) by (simp add: m'_def set_q)
    then show "ttl_owned m' g" by (simp add: ttl_owned_def Let_def same) (simp add: m'_def q(5))
  qed (simp_all add: m'_def q(2) I(2))
  moreover have "el_heapEl (ttl_els m b) \<noteq> ?h \<and> b \<noteq> a" if "map_of (ttl_elements m) k = Some b" "k \<noteq> key" for k b
    using ttl_linked_unique [OF I(3) [OF that(1)] I(3) [OF old]] that(2) by auto
  then have "ttl_abs m' = (ttl_abs m)(key \<mapsto> (v, e))"
    using old by (auto simp: fun_eq_iff ttl_abs_def ttl_priority_def m'_def q(4) intro!: option.map_cong)
  ultimately show ?thesis using set_eq by (simp add: m'_def)
qed

section \<open>Freeing space\<close>

text \<open>
  The head of the queue goes out: the entry that expires first. \<open>ttl_evicted m m'\<close> says so
  of the abstract map.
\<close>

definition ttl_evicted :: "(string \<Rightarrow> (iface \<times> int) option) \<Rightarrow> (string \<Rightarrow> (iface \<times> int) option) \<Rightarrow> bool" where
  "ttl_evicted M M' \<longleftrightarrow>
     (\<exists>k v e. M k = Some (v, e) \<and> M' = M(k := None) \<and> (\<forall>k' v' e'. M k' = Some (v', e') \<longrightarrow> e \<le> e'))"

lemma ttl_pop:
  assumes inv: "ttl_inv m" and ne: "ttl_elements m \<noteq> []"
  obtains q h m' where "PriorityQueue_Peek (ttl_expiryTimes m) = Ret h"
    "PriorityQueue_Pop (ttl_expiryTimes m) = Ret (q, h)" "pq_value q = pq_value (ttl_expiryTimes m)"
    "m' = m\<lparr>ttl_expiryTimes := q, ttl_elements :=
       AList.delete (el_key (ttl_els m (pq_value (ttl_expiryTimes m) h))) (ttl_elements m)\<rparr>"
    "ttl_inv m'" "TTLMap_Len m = Suc (TTLMap_Len m')" "ttl_evicted (ttl_abs m) (ttl_abs m')"
    "\<forall>k v e. ttl_abs m k = Some (v, e) \<longrightarrow> pq_prio (ttl_expiryTimes m) h \<le> e"
    "\<exists>k v. ttl_abs m k = Some (v, pq_prio (ttl_expiryTimes m) h) \<and> ttl_abs m' = (ttl_abs m)(k := None)"
proof -
  let ?Q = "ttl_expiryTimes m"
  note I = ttl_invD [OF inv]
  obtain q h where q: "PriorityQueue_Pop ?Q = Ret (q, h)" "PriorityQueue_Peek ?Q = Ret h" "pq_inv q"
    "mset (pq_impl ?Q) = add_mset h (mset (pq_impl q))" "\<forall>a \<in> set (pq_impl ?Q). pq_prio ?Q h \<le> pq_prio ?Q a"
    "pq_prio q = pq_prio ?Q" "pq_value q = pq_value ?Q"
    using PriorityQueue_Pop_spec [OF I(1)] ttl_pq_empty_iff [OF inv] ne by blast
  have h: "h \<in> set (pq_impl ?Q)" using q(4) by (metis set_mset_mset union_single_eq_member)
  let ?k = "el_key (ttl_els m (pq_value ?Q h))"
  define m' where "m' = m\<lparr>ttl_expiryTimes := q, ttl_elements := AList.delete ?k (ttl_elements m)\<rparr>"
  note d = ttl_drop [OF inv h q(3,4,6,7), folded m'_def]
  have least: "\<forall>k v e. ttl_abs m k = Some (v, e) \<longrightarrow> pq_prio ?Q h \<le> e"
    using q(5) I(3) by (auto simp: ttl_abs_def ttl_priority_def ttl_linked_def)
  then have "ttl_evicted (ttl_abs m) (ttl_abs m')"
    using d(2,3) unfolding ttl_evicted_def by blast
  moreover have "TTLMap_Len m = Suc (TTLMap_Len m')"
  proof -
    have "map_of (ttl_elements m) ?k \<noteq> None" using d(3) by (auto simp: ttl_abs_None_iff [symmetric])
    moreover have "0 < length (ttl_elements m)" using ne by simp
    ultimately show ?thesis
      using gomap_length_delete [OF I(2), of ?k] by (simp add: TTLMap_Len_def m'_def)
  qed
  ultimately show thesis using that [OF q(2,1,7) m'_def d(1)] least d(2,3) by blast
qed

lemma TTLMap_freeSpace_1:
  assumes inv: "ttl_inv m"
  shows "\<exists>m'. TTLMap_freeSpace now m 1 = Ret m' \<and> ttl_inv m' \<and> ttl_capacity m' = ttl_capacity m \<and>
    TTLMap_Len m' = TTLMap_Len m - 1 \<and>
    (if ttl_elements m = [] then m' = m else ttl_evicted (ttl_abs m) (ttl_abs m'))"
proof (cases "ttl_elements m = []")
  case True
  then show ?thesis
    using inv by (simp add: TTLMap_freeSpace_def TTLMap_RemoveExpired_def TTLMap_RemoveLastUsed_def TTLMap_Len_def)
next
  case False
  obtain q h m' where h: "PriorityQueue_Peek (ttl_expiryTimes m) = Ret h"
    "PriorityQueue_Pop (ttl_expiryTimes m) = Ret (q, h)" "pq_value q = pq_value (ttl_expiryTimes m)"
    "m' = m\<lparr>ttl_expiryTimes := q, ttl_elements :=
       AList.delete (el_key (ttl_els m (pq_value (ttl_expiryTimes m) h))) (ttl_elements m)\<rparr>"
    "ttl_inv m'" "ttl_evicted (ttl_abs m) (ttl_abs m')" "TTLMap_Len m = Suc (TTLMap_Len m')"
    by (rule ttl_pop [OF inv False])
  have "TTLMap_freeSpace now m 1 = Ret m'"
    using False h(1-4) by (simp add: TTLMap_freeSpace_def TTLMap_RemoveExpired_def TTLMap_RemoveLastUsed_def Let_def)
  then show ?thesis using h False by simp
qed

section \<open>What the operations do\<close>

text \<open>Storing an entry: an old key keeps the others; a new one may evict the first to expire.\<close>

definition ttl_stored ::
  "int \<Rightarrow> (string \<Rightarrow> (iface \<times> int) option) \<Rightarrow> nat \<Rightarrow> string \<Rightarrow> iface \<times> int \<Rightarrow>
   (string \<Rightarrow> (iface \<times> int) option) \<Rightarrow> bool" where
  "ttl_stored capacity M n key entry M' \<longleftrightarrow>
     (if M key \<noteq> None \<or> int n < capacity \<or> n = 0 then M' = M(key \<mapsto> entry)
      else \<exists>M1. ttl_evicted M M1 \<and> M' = M1(key \<mapsto> entry))"

lemma TTLMap_set_spec:
  assumes inv: "ttl_inv m"
  shows "\<exists>m'. TTLMap_set now m key v e = Ret m' \<and> ttl_inv m' \<and> ttl_capacity m' = ttl_capacity m \<and>
    ttl_stored (ttl_capacity m) (ttl_abs m) (TTLMap_Len m) key (v, e) (ttl_abs m') \<and>
    TTLMap_Len m' = (if ttl_abs m key \<noteq> None then TTLMap_Len m
      else if int (TTLMap_Len m) < ttl_capacity m then Suc (TTLMap_Len m) else Suc (TTLMap_Len m - 1))"
proof (cases "map_of (ttl_elements m) key")
  case (Some a)
  have "ttl_abs m key \<noteq> None" using Some by (simp add: ttl_abs_None_iff)
  then show ?thesis
    using ttl_update_spec [OF inv Some, of now v e] by (auto simp: ttl_stored_def TTLMap_Len_def)
next
  case None
  then have abs_None: "ttl_abs m key = None" by (simp add: ttl_abs_None_iff)
  let ?full = "ttl_capacity m \<le> int (length (ttl_elements m))"
  have "\<exists>m1. (if ?full then TTLMap_freeSpace now m 1 else Ret m) = Ret m1 \<and> ttl_inv m1 \<and>
    ttl_capacity m1 = ttl_capacity m \<and> TTLMap_Len m1 = (if ?full then TTLMap_Len m - 1 else TTLMap_Len m) \<and>
    (if ?full \<and> ttl_elements m \<noteq> [] then ttl_evicted (ttl_abs m) (ttl_abs m1) else m1 = m)"
  proof (cases ?full)
    case True
    with TTLMap_freeSpace_1 [OF inv, of now] show ?thesis by (auto split: if_splits)
  next
    case False
    with inv show ?thesis by simp
  qed
  then obtain m1 where m1: "(if ?full then TTLMap_freeSpace now m 1 else Ret m) = Ret m1" "ttl_inv m1"
    "ttl_capacity m1 = ttl_capacity m" "TTLMap_Len m1 = (if ?full then TTLMap_Len m - 1 else TTLMap_Len m)"
    "if ?full \<and> ttl_elements m \<noteq> [] then ttl_evicted (ttl_abs m) (ttl_abs m1) else m1 = m"
    by blast
  have "ttl_abs m1 key = None"
    using m1(5) abs_None by (auto simp: ttl_evicted_def split: if_splits)
  then have new: "map_of (ttl_elements m1) key = None" by (simp add: ttl_abs_None_iff)
  let ?m' = "ttl_insert m1 key v e"
  have "TTLMap_set now m key v e = Ret ?m'" using m1(1) None by (simp add: TTLMap_set_def)
  moreover have "TTLMap_Len ?m' = Suc (TTLMap_Len m1)" "ttl_capacity ?m' = ttl_capacity m"
    using new m1(3) by (simp_all add: TTLMap_Len_def ttl_insert_def Let_def gomap_length_update)
  moreover have "ttl_stored (ttl_capacity m) (ttl_abs m) (TTLMap_Len m) key (v, e) (ttl_abs ?m')"
    using ttl_insert_spec(2) [OF m1(2) new, of v e] m1(5) abs_None
    by (auto simp: ttl_stored_def TTLMap_Len_def split: if_splits)
  ultimately show ?thesis
    using ttl_insert_spec(1) [OF m1(2) new, of v e] m1(4) abs_None
    by (auto simp: TTLMap_Len_def split: if_splits)
qed

lemma TTLMap_get_abs:
  "TTLMap_get now m key =
     (case ttl_abs m key of None \<Rightarrow> None
      | Some (v, e) \<Rightarrow> Some (the (map_of (ttl_elements m) key), e \<le> time_Unix now))"
  by (auto simp: TTLMap_get_def ttl_abs_def split: option.splits)

lemma TTLMap_lockNGet_abs:
  "TTLMap_lockNGet now m key =
     (case ttl_abs m key of None \<Rightarrow> (INil, None, False)
      | Some (v, e) \<Rightarrow> (v, map_of (ttl_elements m) key, e \<le> time_Unix now))"
  by (auto simp: TTLMap_lockNGet_def TTLMap_get_abs ttl_abs_def split: option.splits)

text \<open>
  The second critical section of \<^verbatim>\<open>Get\<close> in any state the map may have reached meanwhile: it
  deletes the entry of that key if it is expired now, calls the callback for it, and
  changes nothing else.
\<close>

lemma TTLMap_lockNDel_spec:
  fixes a :: addr
  assumes inv: "ttl_inv m"
  defines "k \<equiv> el_key (ttl_els m a)"
  shows "\<exists>m'. TTLMap_lockNDel now m a = Ret m' \<and> ttl_inv m' \<and> ttl_capacity m' = ttl_capacity m \<and>
    (case ttl_abs m k of
       Some (v, e) \<Rightarrow>
         if e \<le> time_Unix now then ttl_abs m' = (ttl_abs m)(k := None) \<and>
           ttl_expired m' = ttl_expired m @ (if ttl_OnExpire m then [(k, v)] else [])
         else m' = m
     | None \<Rightarrow> m' = m)"
proof (cases "map_of (ttl_elements m) k")
  case None
  then show ?thesis using inv by (simp add: TTLMap_lockNDel_def k_def ttl_abs_def)
next
  case (Some b)
  note I = ttl_invD [OF inv]
  let ?Q = "ttl_expiryTimes m" and ?h = "el_heapEl (ttl_els m b)"
  have abs: "ttl_abs m k = Some (el_value (ttl_els m b), ttl_priority m b)"
    using Some by (simp add: ttl_abs_def)
  have b: "el_key (ttl_els m b) = k" "?h \<in> set (pq_impl ?Q)" "pq_value ?Q ?h = b"
    using I(3) [OF Some] by (simp_all add: ttl_linked_def)
  show ?thesis
  proof (cases "time_Unix now < ttl_priority m b")
    case True
    then show ?thesis using Some inv abs by (simp add: TTLMap_lockNDel_def k_def)
  next
    case False
    obtain q where q: "PriorityQueue_Remove ?Q ?h = Ret q" "pq_inv q"
      "mset (pq_impl ?Q) = add_mset ?h (mset (pq_impl q))" "pq_prio q = pq_prio ?Q" "pq_value q = pq_value ?Q"
      using PriorityQueue_Remove_spec [OF I(1) b(2)] by blast
    define m1 where "m1 = m\<lparr>ttl_expiryTimes := q, ttl_elements := AList.delete k (ttl_elements m)\<rparr>"
    define m' where "m' = m1\<lparr>ttl_expired := ttl_expired m @ (if ttl_OnExpire m then [(k, el_value (ttl_els m b))] else [])\<rparr>"
    note d = ttl_drop [OF inv b(2) q(2-5), unfolded b, folded m1_def]
    have frame: "ttl_inv m' = ttl_inv m1" "ttl_abs m' = ttl_abs m1"
      by (simp_all add: m'_def ttl_inv_def ttl_linked_def ttl_owned_def ttl_abs_def ttl_priority_def fun_eq_iff)
    have "TTLMap_lockNDel now m a = Ret m'"
      using Some False q(1) b(1) by (simp add: TTLMap_lockNDel_def k_def m'_def m1_def Let_def)
    moreover have "ttl_expired m' = ttl_expired m @ (if ttl_OnExpire m then [(k, el_value (ttl_els m b))] else [])"
      by (simp add: m'_def)
    moreover have "ttl_capacity m' = ttl_capacity m" by (simp add: m'_def m1_def)
    ultimately show ?thesis using d False abs frame by simp
  qed
qed

lemma TTLMap_Get_spec:
  assumes inv: "ttl_inv m"
  shows "\<exists>m' r. TTLMap_Get now1 now2 m key = Ret (m', r) \<and> ttl_inv m' \<and> ttl_capacity m' = ttl_capacity m \<and>
    r = (case ttl_abs m key of Some (v, e) \<Rightarrow> if time_Unix now1 < e then Some v else None | None \<Rightarrow> None) \<and>
    ttl_abs m' = (case ttl_abs m key of
        Some (v, e) \<Rightarrow> if e \<le> time_Unix now1 \<and> e \<le> time_Unix now2 then (ttl_abs m)(key := None) else ttl_abs m
      | None \<Rightarrow> ttl_abs m)"
proof (cases "ttl_abs m key")
  case None
  then show ?thesis using inv by (simp add: TTLMap_Get_def TTLMap_lockNGet_abs)
next
  case (Some p)
  obtain v e where p: "ttl_abs m key = Some (v, e)" using Some by (cases p) auto
  then obtain a where a: "map_of (ttl_elements m) key = Some a" by (auto simp: ttl_abs_def)
  then have k: "el_key (ttl_els m a) = key"
    using ttl_invD(3) [OF inv a] by (simp add: ttl_linked_def)
  show ?thesis
    using TTLMap_lockNDel_spec [OF inv, of now2 a] p a inv
    by (auto simp: TTLMap_Get_def TTLMap_lockNGet_abs k not_less split: if_splits)
qed

text \<open>\<open>ttl_pruned now M M'\<close>: some of the entries expired at \<open>now\<close> are gone, nothing else changed.\<close>

definition ttl_pruned :: "int \<Rightarrow> (string \<Rightarrow> (iface \<times> int) option) \<Rightarrow> (string \<Rightarrow> (iface \<times> int) option) \<Rightarrow> bool" where
  "ttl_pruned now M M' \<longleftrightarrow>
     (\<forall>k. M' k = M k \<or> M' k = None \<and> (\<exists>v e. M k = Some (v, e) \<and> e \<le> now))"

lemma ttl_pruned_refl [simp]: "ttl_pruned now M M"
  by (simp add: ttl_pruned_def)

lemma ttl_pruned_step:
  assumes "M k = Some (v, e)" "e \<le> now" "ttl_pruned now (M(k := None)) M'"
  shows "ttl_pruned now M M'"
  unfolding ttl_pruned_def
proof
  fix j
  show "M' j = M j \<or> M' j = None \<and> (\<exists>v e. M j = Some (v, e) \<and> e \<le> now)"
    using assms(1,2) assms(3) [unfolded ttl_pruned_def, rule_format, of j] by (cases "j = k") auto
qed

lemma RemoveExpired_loop_spec:
  "ttl_inv m \<Longrightarrow>
   \<exists>m' r. RemoveExpired_loop now n r0 m = Ret (m', r) \<and> ttl_inv m' \<and> ttl_capacity m' = ttl_capacity m \<and>
     r0 \<le> r \<and> r \<le> r0 + n \<and> TTLMap_Len m = TTLMap_Len m' + (r - r0) \<and>
     ttl_pruned now (ttl_abs m) (ttl_abs m') \<and>
     (r < r0 + n \<longrightarrow> (\<forall>k v e. ttl_abs m' k = Some (v, e) \<longrightarrow> now < e))"
proof (induction n arbitrary: m r0)
  case 0
  then show ?case by simp
next
  case (Suc n)
  show ?case
  proof (cases "ttl_elements m = []")
    case True
    with Suc.prems show ?thesis by (simp add: ttl_abs_def)
  next
    case False
    obtain q h m1 where h: "PriorityQueue_Peek (ttl_expiryTimes m) = Ret h"
      "PriorityQueue_Pop (ttl_expiryTimes m) = Ret (q, h)"
      "m1 = m\<lparr>ttl_expiryTimes := q, ttl_elements :=
         AList.delete (el_key (ttl_els m (pq_value (ttl_expiryTimes m) h))) (ttl_elements m)\<rparr>"
      "ttl_inv m1" "TTLMap_Len m = Suc (TTLMap_Len m1)"
      "\<forall>k v e. ttl_abs m k = Some (v, e) \<longrightarrow> pq_prio (ttl_expiryTimes m) h \<le> e"
      "\<exists>k v. ttl_abs m k = Some (v, pq_prio (ttl_expiryTimes m) h) \<and> ttl_abs m1 = (ttl_abs m)(k := None)"
      by (rule ttl_pop [OF Suc.prems False])
    show ?thesis
    proof (cases "now < pq_prio (ttl_expiryTimes m) h")
      case True
      then have "\<forall>k v e. ttl_abs m k = Some (v, e) \<longrightarrow> now < e" using h(6) by fastforce
      with True h(1) False Suc.prems show ?thesis by simp
    next
      case expired: False
      obtain m' r where m': "RemoveExpired_loop now n (Suc r0) m1 = Ret (m', r)" "ttl_inv m'"
        "ttl_capacity m' = ttl_capacity m1" "Suc r0 \<le> r" "r \<le> Suc r0 + n"
        "TTLMap_Len m1 = TTLMap_Len m' + (r - Suc r0)" "ttl_pruned now (ttl_abs m1) (ttl_abs m')"
        "r < Suc r0 + n \<longrightarrow> (\<forall>k v e. ttl_abs m' k = Some (v, e) \<longrightarrow> now < e)"
        using Suc.IH [OF h(4), of "Suc r0"] by blast
      have "RemoveExpired_loop now (Suc n) r0 m = Ret (m', r)"
        using False h(1-3) expired m'(1) by (simp add: Let_def)
      moreover have "ttl_pruned now (ttl_abs m) (ttl_abs m')"
        using h(7) m'(7) expired by (auto intro: ttl_pruned_step)
      moreover have "ttl_capacity m' = ttl_capacity m" using m'(3) by (simp add: h(3))
      ultimately show ?thesis using m'(2,4-6,8) h(5) by auto
    qed
  qed
qed

lemma RemoveLastUsed_loop_spec:
  "ttl_inv m \<Longrightarrow>
   \<exists>m'. RemoveLastUsed_loop n m = Ret m' \<and> ttl_inv m' \<and> ttl_capacity m' = ttl_capacity m \<and>
     TTLMap_Len m' = TTLMap_Len m - n"
proof (induction n arbitrary: m)
  case (Suc n)
  show ?case
  proof (cases "ttl_elements m = []")
    case False
    obtain q h m1 where h: "PriorityQueue_Pop (ttl_expiryTimes m) = Ret (q, h)"
      "pq_value q = pq_value (ttl_expiryTimes m)"
      "m1 = m\<lparr>ttl_expiryTimes := q, ttl_elements :=
         AList.delete (el_key (ttl_els m (pq_value (ttl_expiryTimes m) h))) (ttl_elements m)\<rparr>"
      "ttl_inv m1" "TTLMap_Len m = Suc (TTLMap_Len m1)"
      by (rule ttl_pop [OF Suc.prems False])
    show ?thesis using Suc.IH [OF h(4)] False h(1-3,5) by (simp add: Let_def)
  qed (use Suc.prems in \<open>simp add: TTLMap_Len_def\<close>)
qed simp

text \<open>What the map returns for a stored entry at a given second.\<close>

definition ttl_live :: "int \<Rightarrow> (iface \<times> int) option \<Rightarrow> iface option" where
  "ttl_live now entry = (case entry of Some (v, e) \<Rightarrow> if now < e then Some v else None | None \<Rightarrow> None)"

lemma TTLMap_Set_ok:
  fixes now1 :: time
  assumes inv: "ttl_inv m" and s: "0 < s"
  defines "e \<equiv> time_Unix (time_Add now1 (i64 (Second * s)))"
  shows "\<exists>m'. TTLMap_Set now1 now2 m key v s = Ret (m', None) \<and> ttl_inv m' \<and> ttl_capacity m' = ttl_capacity m \<and>
    ttl_stored (ttl_capacity m) (ttl_abs m) (TTLMap_Len m) key (v, e) (ttl_abs m')"
  using TTLMap_set_spec [OF inv, of now2 key v e] s
  by (auto simp: TTLMap_Set_def TTLMap_toEpochSeconds_def e_def)

lemma ttl_expiry_in_range:
  "0 < s \<Longrightarrow> s \<le> 9223372036 \<Longrightarrow> time_Unix (time_Add t (i64 (Second * s))) = time_Unix t + s"
  by (simp add: Second_def i64_id in_i64_def time_Unix_Add_seconds [simplified])

lemma ttl_stored_at: "ttl_stored c M n key entry M' \<Longrightarrow> M' key = Some entry"
  by (auto simp: ttl_stored_def split: if_splits)

lemma ttl_Len_mono:
  assumes "ttl_inv m" "ttl_inv m'" "dom (ttl_abs m') \<subseteq> dom (ttl_abs m)"
  shows "TTLMap_Len m' \<le> TTLMap_Len m"
proof -
  have "dom (ttl_abs m) = dom (map_of (ttl_elements m))" by (auto simp: dom_def ttl_abs_def)
  then have "finite (dom (ttl_abs m))" by (simp add: finite_dom_map_of)
  then show ?thesis using assms by (simp add: ttl_abs_size card_mono)
qed

lemma TTLMap_lockNDel_pruned:
  assumes "ttl_inv m"
  shows "\<exists>m'. TTLMap_lockNDel t m a = Ret m' \<and> ttl_inv m' \<and> ttl_capacity m' = ttl_capacity m \<and>
    ttl_pruned (time_Unix t) (ttl_abs m) (ttl_abs m')"
proof (cases "ttl_abs m (el_key (ttl_els m a))")
  case None
  with TTLMap_lockNDel_spec [OF assms, of t a] show ?thesis by auto
next
  case (Some p)
  then obtain v e where p: "ttl_abs m (el_key (ttl_els m a)) = Some (v, e)" by (cases p) auto
  then have "ttl_pruned (time_Unix t) (ttl_abs m) ((ttl_abs m)(el_key (ttl_els m a) := None))" if "e \<le> time_Unix t"
    using that by (rule ttl_pruned_step) simp
  with TTLMap_lockNDel_spec [OF assms, of t a] p show ?thesis
    by (cases "e \<le> time_Unix t") auto
qed

lemma TTLMap_Increment_spec:
  assumes inv: "ttl_inv m" and s: "0 < s"
  shows "\<exists>m' r. TTLMap_Increment now1 now2 now3 m key n s = Ret (m', r) \<and> ttl_inv m' \<and>
    (case ttl_live (time_Unix now2) (ttl_abs m key) of
       None \<Rightarrow> r = Inr n
     | Some (IInt c) \<Rightarrow> r = Inr (i64 (c + n))
     | Some other \<Rightarrow> r = Inl (NotIntegerError (type_name other)) \<and> m' = m) \<and>
    (case r of
       Inr v \<Rightarrow> TTLMap_set now3 m key (IInt v) (time_Unix (time_Add now1 (i64 (Second * s)))) = Ret m'
     | Inl _ \<Rightarrow> m' = m)"
proof -
  let ?e = "time_Unix (time_Add now1 (i64 (Second * s)))"
  have set_ok: "\<exists>m'. TTLMap_set now3 m key v ?e = Ret m' \<and> ttl_inv m'" for v
    using TTLMap_set_spec [OF inv, of now3 key v ?e] by blast
  have epoch: "TTLMap_toEpochSeconds now1 s = Inr ?e" using s by (simp add: TTLMap_toEpochSeconds_def)
  show ?thesis
  proof (cases "ttl_abs m key")
    case None
    then show ?thesis
      using set_ok [of "IInt n"] by (auto simp: TTLMap_Increment_def epoch TTLMap_get_abs ttl_live_def)
  next
    case (Some p)
    obtain v e where p: "ttl_abs m key = Some (v, e)" using Some by (cases p) auto
    then obtain a where a: "map_of (ttl_elements m) key = Some a" "el_value (ttl_els m a) = v"
      by (auto simp: ttl_abs_def)
    show ?thesis
    proof (cases "e \<le> time_Unix now2")
      case True
      then show ?thesis
        using set_ok [of "IInt n"] p by (auto simp: TTLMap_Increment_def epoch TTLMap_get_abs ttl_live_def)
    next
      case False
      then have get: "TTLMap_get now2 m key = Some (a, False)" and live: "ttl_live (time_Unix now2) (ttl_abs m key) = Some v"
        using p a by (simp_all add: TTLMap_get_abs ttl_live_def)
      show ?thesis
      proof (cases v)
        case (IInt c)
        then show ?thesis
          using set_ok [of "IInt (i64 (c + n))"] by (auto simp: TTLMap_Increment_def epoch get live a(2))
      qed (use inv in \<open>simp_all add: TTLMap_Increment_def epoch get live a(2)\<close>)
    qed
  qed
qed

section \<open>Runs\<close>

text \<open>
  The calls clients make, in the order the mutex serialises them. \<open>OpLockNDel\<close> is the
  second half of a \<^verbatim>\<open>Get\<close> of another goroutine, which may run long after its first half,
  with a pointer to any element.
\<close>

datatype ttl_op =
    OpSet time time string iface int
  | OpGet time time string
  | OpGetInt time time string
  | OpIncrement time time time string int int
  | OpRemoveExpired time int
  | OpRemoveLastUsed int
  | OpLockNDel time addr

primrec ttl_step :: "ttl_op \<Rightarrow> TTLMap \<Rightarrow> TTLMap go" where
  "ttl_step (OpSet t1 t2 k v s) m = go_bind (TTLMap_Set t1 t2 m k v s) (\<lambda>(m', _). Ret m')"
| "ttl_step (OpGet t1 t2 k) m = go_bind (TTLMap_Get t1 t2 m k) (\<lambda>(m', _). Ret m')"
| "ttl_step (OpGetInt t1 t2 k) m = go_bind (TTLMap_GetInt t1 t2 m k) (\<lambda>(m', _). Ret m')"
| "ttl_step (OpIncrement t1 t2 t3 k n s) m = go_bind (TTLMap_Increment t1 t2 t3 m k n s) (\<lambda>(m', _). Ret m')"
| "ttl_step (OpRemoveExpired t n) m = go_bind (TTLMap_RemoveExpired t m n) (\<lambda>(m', _). Ret m')"
| "ttl_step (OpRemoveLastUsed n) m = TTLMap_RemoveLastUsed m n"
| "ttl_step (OpLockNDel t a) m = TTLMap_lockNDel t m a"

primrec ttl_run :: "ttl_op list \<Rightarrow> TTLMap \<Rightarrow> TTLMap go" where
  "ttl_run [] m = Ret m"
| "ttl_run (op # ops) m = go_bind (ttl_step op m) (ttl_run ops)"

text \<open>The invariant with the bound on the size: a map of capacity 0 holds one entry.\<close>

definition ttl_ok :: "int \<Rightarrow> TTLMap \<Rightarrow> bool" where
  "ttl_ok c m \<longleftrightarrow> ttl_inv m \<and> ttl_capacity m = c \<and> int (TTLMap_Len m) \<le> max 1 c"

lemma TTLMap_set_ok:
  "ttl_ok c m \<Longrightarrow> \<exists>m'. TTLMap_set t m k v e = Ret m' \<and> ttl_ok c m'"
  using TTLMap_set_spec [of m t k v e] by (auto simp: ttl_ok_def max_def split: if_splits)

lemma TTLMap_lockNDel_ok:
  assumes "ttl_ok c m"
  shows "\<exists>m'. TTLMap_lockNDel t m a = Ret m' \<and> ttl_ok c m'"
proof -
  have inv: "ttl_inv m" using assms by (simp add: ttl_ok_def)
  obtain m' where m': "TTLMap_lockNDel t m a = Ret m'" "ttl_inv m'" "ttl_capacity m' = ttl_capacity m"
    "ttl_pruned (time_Unix t) (ttl_abs m) (ttl_abs m')"
    using TTLMap_lockNDel_pruned [OF inv] by blast
  then have "dom (ttl_abs m') \<subseteq> dom (ttl_abs m)" by (auto simp: ttl_pruned_def dom_def) metis
  then have "TTLMap_Len m' \<le> TTLMap_Len m" using inv m'(2) by (intro ttl_Len_mono)
  with m' assms show ?thesis by (auto simp: ttl_ok_def)
qed

lemma TTLMap_Get_ok:
  assumes "ttl_ok c m"
  shows "\<exists>m' r. TTLMap_Get t1 t2 m k = Ret (m', r) \<and> ttl_ok c m'"
proof -
  obtain v el expired where get: "TTLMap_lockNGet t1 m k = (v, el, expired)"
    by (cases "TTLMap_lockNGet t1 m k")
  show ?thesis
  proof (cases el)
    case (Some a)
    with TTLMap_lockNDel_ok [OF assms, of t2 a] assms get show ?thesis
      by (auto simp: TTLMap_Get_def)
  qed (use assms get in \<open>simp add: TTLMap_Get_def\<close>)
qed

lemma TTLMap_Increment_ok:
  assumes "ttl_ok c m"
  shows "\<exists>m' r. TTLMap_Increment t1 t2 t3 m k n s = Ret (m', r) \<and> ttl_ok c m'"
proof (cases "TTLMap_toEpochSeconds t1 s")
  case (Inl e)
  then show ?thesis using assms by (simp add: TTLMap_Increment_def)
next
  case (Inr e)
  then have s: "0 < s" "e = time_Unix (time_Add t1 (i64 (Second * s)))"
    by (auto simp: TTLMap_toEpochSeconds_def split: if_splits)
  have inv: "ttl_inv m" using assms by (simp add: ttl_ok_def)
  obtain m' r where "TTLMap_Increment t1 t2 t3 m k n s = Ret (m', r)"
    "case r of Inr v \<Rightarrow> TTLMap_set t3 m k (IInt v) e = Ret m' | Inl _ \<Rightarrow> m' = m"
    using TTLMap_Increment_spec [OF inv s(1), of t1 t2 t3 k n] unfolding s(2) by blast
  moreover obtain v where "r = Inr v \<or> (\<exists>x. r = Inl x)" by (cases r) auto
  ultimately show ?thesis
    using TTLMap_set_ok [OF assms, of t3 k "IInt v" e] assms by auto
qed

lemma ttl_step_ok:
  assumes "ttl_ok c m"
  shows "\<exists>m'. ttl_step op m = Ret m' \<and> ttl_ok c m'"
proof (cases op)
  case (OpSet t1 t2 k v s)
  then show ?thesis
  proof (cases "TTLMap_toEpochSeconds t1 s")
    case (Inr e)
    with OpSet TTLMap_set_ok [OF assms, of t2 k v e] show ?thesis by (auto simp: TTLMap_Set_def)
  qed (use assms in \<open>simp add: TTLMap_Set_def\<close>)
next
  case (OpGet t1 t2 k)
  then show ?thesis using TTLMap_Get_ok [OF assms, of t1 t2 k] by auto
next
  case (OpGetInt t1 t2 k)
  then show ?thesis using TTLMap_Get_ok [OF assms, of t1 t2 k] by (auto simp: TTLMap_GetInt_def)
next
  case (OpIncrement t1 t2 t3 k n s)
  then show ?thesis using TTLMap_Increment_ok [OF assms, of t1 t2 t3 k n s] by auto
next
  case (OpRemoveExpired t n)
  obtain m' r where "RemoveExpired_loop (time_Unix t) (nat n) 0 m = Ret (m', r)" "ttl_inv m'"
    "ttl_capacity m' = ttl_capacity m" "TTLMap_Len m = TTLMap_Len m' + (r - 0)"
    using RemoveExpired_loop_spec [of m "time_Unix t" "nat n" 0] assms unfolding ttl_ok_def by blast
  with OpRemoveExpired assms show ?thesis by (simp add: TTLMap_RemoveExpired_def ttl_ok_def)
next
  case (OpRemoveLastUsed n)
  obtain m' where "RemoveLastUsed_loop (nat n) m = Ret m'" "ttl_inv m'"
    "ttl_capacity m' = ttl_capacity m" "TTLMap_Len m' = TTLMap_Len m - nat n"
    using RemoveLastUsed_loop_spec [of m "nat n"] assms unfolding ttl_ok_def by blast
  with OpRemoveLastUsed assms show ?thesis by (auto simp: TTLMap_RemoveLastUsed_def ttl_ok_def)
next
  case (OpLockNDel t a)
  then show ?thesis using TTLMap_lockNDel_ok [OF assms, of t a] by simp
qed

lemma ttl_run_ok: "ttl_ok c m \<Longrightarrow> \<exists>m'. ttl_run ops m = Ret m' \<and> ttl_ok c m'"
proof (induction ops arbitrary: m)
  case (Cons op ops)
  obtain m1 where "ttl_step op m = Ret m1" "ttl_ok c m1" using ttl_step_ok [OF Cons.prems, of op] by blast
  with Cons.IH [of m1] show ?case by simp
qed simp

section \<open>The interface clients rely on\<close>

text \<open>
  A store of expiring entries: what \<^verbatim>\<open>Set\<close> and \<^verbatim>\<open>Get\<close> promise on the abstract map. The clients'
  lemmas ask when an entry survives: \<open>ttl_newer M e\<close> are the keys that expire no earlier than \<open>e\<close>,
  and an entry that expires at \<open>e\<close> stays while these are fewer than the capacity.
\<close>

definition ttl_newer :: "(string \<Rightarrow> (iface \<times> int) option) \<Rightarrow> int \<Rightarrow> string set" where
  "ttl_newer M e = {k. \<exists>v e'. M k = Some (v, e') \<and> e \<le> e'}"

lemma ttl_pruned_live:
  assumes "ttl_pruned now M M'" "now < e"
  shows "M k = Some (v, e) \<longleftrightarrow> M' k = Some (v, e)"
  using assms(1) [unfolded ttl_pruned_def, rule_format, of k] assms(2) by auto

lemma ttl_newer_pruned:
  assumes "ttl_pruned now M M'" "now < e"
  shows "ttl_newer M' e = ttl_newer M e"
proof -
  have "e \<le> e' \<Longrightarrow> M k = Some (v, e') \<longleftrightarrow> M' k = Some (v, e')" for k v e'
    using ttl_pruned_live [OF assms(1), of e' k v] assms(2) by linarith
  then show ?thesis unfolding ttl_newer_def by blast
qed

lemma ttl_newer_update: "ttl_newer (M(k \<mapsto> p)) e \<subseteq> insert k (ttl_newer M e)"
  by (auto simp: ttl_newer_def)

lemma ttl_evicted_survives:
  assumes "ttl_evicted M M'" "M k = Some (v, e)" "card (ttl_newer M e) < card (dom M)"
  shows "M' k = Some (v, e)" and "ttl_newer M' e \<subseteq> ttl_newer M e"
proof -
  obtain k0 v0 e0 where k0: "M k0 = Some (v0, e0)" "M' = M(k0 := None)"
    "\<forall>k' v' e'. M k' = Some (v', e') \<longrightarrow> e0 \<le> e'"
    using assms(1) unfolding ttl_evicted_def by blast
  have "k0 \<noteq> k"
  proof
    assume "k0 = k"
    then have "ttl_newer M e = dom M" using k0 assms(2) by (fastforce simp: ttl_newer_def dom_def)
    with assms(3) show False by simp
  qed
  then show "M' k = Some (v, e)" "ttl_newer M' e \<subseteq> ttl_newer M e"
    using k0(2) assms(2) by (auto simp: ttl_newer_def split: if_splits)
qed

locale ttl_store =
  fixes abs :: "'s \<Rightarrow> string \<Rightarrow> (iface \<times> int) option"
    and invar :: "'s \<Rightarrow> bool"
    and cap :: "'s \<Rightarrow> int"
    and put :: "time \<Rightarrow> time \<Rightarrow> 's \<Rightarrow> string \<Rightarrow> iface \<Rightarrow> int \<Rightarrow> ('s \<times> ttl_error option) go"
    and fetch :: "time \<Rightarrow> time \<Rightarrow> 's \<Rightarrow> string \<Rightarrow> ('s \<times> iface option) go"
  assumes finite_abs: "invar m \<Longrightarrow> finite (dom (abs m))"
    and fetch_law: "invar m \<Longrightarrow> \<exists>m'. fetch t1 t2 m k = Ret (m', ttl_live (time_Unix t1) (abs m k)) \<and>
      invar m' \<and> cap m' = cap m \<and> ttl_pruned (time_Unix t1) (abs m) (abs m')"
    and put_law: "invar m \<Longrightarrow> 0 < s \<Longrightarrow> s \<le> 9223372036 \<Longrightarrow>
      \<exists>m'. put t1 t2 m k v s = Ret (m', None) \<and> invar m' \<and> cap m' = cap m \<and>
        ttl_stored (cap m) (abs m) (card (dom (abs m))) k (v, time_Unix t1 + s) (abs m')"
begin

lemma put_survives:
  assumes "invar m" "0 < s" "s \<le> 9223372036" "put t1 t2 m j w s = Ret (m', x)"
    and "j \<noteq> k" "abs m k = Some (v, e)" "int (card (ttl_newer (abs m) e)) < cap m"
  shows "abs m' k = Some (v, e)" and "ttl_newer (abs m') e \<subseteq> insert j (ttl_newer (abs m) e)"
proof -
  have st: "ttl_stored (cap m) (abs m) (card (dom (abs m))) j (w, time_Unix t1 + s) (abs m')"
    using put_law [OF assms(1-3), of t1 t2 j w] assms(4) by auto
  have "abs m' k = Some (v, e) \<and> ttl_newer (abs m') e \<subseteq> insert j (ttl_newer (abs m) e)"
  proof (cases "abs m j \<noteq> None \<or> int (card (dom (abs m))) < cap m \<or> card (dom (abs m)) = 0")
    case True
    then have "abs m' = (abs m)(j \<mapsto> (w, time_Unix t1 + s))" using st by (auto simp: ttl_stored_def)
    then show ?thesis using assms(5,6) ttl_newer_update by fastforce
  next
    case False
    then obtain M1 where M1: "ttl_evicted (abs m) M1" "abs m' = M1(j \<mapsto> (w, time_Unix t1 + s))"
      using st by (auto simp: ttl_stored_def)
    have "card (ttl_newer (abs m) e) < card (dom (abs m))" using False assms(7) by linarith
    note ev = ttl_evicted_survives [OF M1(1) assms(6) this]
    have "ttl_newer (abs m') e \<subseteq> insert j (ttl_newer M1 e)" unfolding M1(2) by (rule ttl_newer_update)
    then show ?thesis using ev M1(2) assms(5) by auto
  qed
  then show "abs m' k = Some (v, e)" and "ttl_newer (abs m') e \<subseteq> insert j (ttl_newer (abs m) e)" by auto
qed

lemma fetch_survives:
  assumes "invar m" "fetch t1 t2 m j = Ret (m', r)" "time_Unix t1 < e"
  shows "invar m'" "cap m' = cap m" "abs m k = Some (v, e) \<Longrightarrow> abs m' k = Some (v, e)"
    "ttl_newer (abs m') e = ttl_newer (abs m) e" "r = ttl_live (time_Unix t1) (abs m j)"
proof -
  have p: "invar m'" "cap m' = cap m" "r = ttl_live (time_Unix t1) (abs m j)"
    "ttl_pruned (time_Unix t1) (abs m) (abs m')"
    using fetch_law [OF assms(1), of t1 t2 j] assms(2) by auto
  show "ttl_newer (abs m') e = ttl_newer (abs m) e" by (rule ttl_newer_pruned [OF p(4) assms(3)])
  show "abs m' k = Some (v, e)" if "abs m k = Some (v, e)"
    using that ttl_pruned_live [OF p(4) assms(3)] by simp
qed (use fetch_law [OF assms(1), of t1 t2 j] assms(2) in auto)

end

interpretation ttls: ttl_store ttl_abs ttl_inv ttl_capacity TTLMap_Set TTLMap_Get
proof
  fix m
  assume "ttl_inv m"
  have "dom (ttl_abs m) = dom (map_of (ttl_elements m))" by (auto simp: dom_def ttl_abs_def)
  then show "finite (dom (ttl_abs m))" by (simp add: finite_dom_map_of)
next
  fix m t1 t2 k
  assume inv: "ttl_inv m"
  obtain m' r where g: "TTLMap_Get t1 t2 m k = Ret (m', r)" "ttl_inv m'" "ttl_capacity m' = ttl_capacity m"
    "r = (case ttl_abs m k of Some (v, e) \<Rightarrow> if time_Unix t1 < e then Some v else None | None \<Rightarrow> None)"
    "ttl_abs m' = (case ttl_abs m k of
        Some (v, e) \<Rightarrow> if e \<le> time_Unix t1 \<and> e \<le> time_Unix t2 then (ttl_abs m)(k := None) else ttl_abs m
      | None \<Rightarrow> ttl_abs m)"
    using TTLMap_Get_spec [OF inv, of t1 t2 k] by blast
  have "ttl_pruned (time_Unix t1) (ttl_abs m) (ttl_abs m')"
    unfolding g(5) by (auto simp: ttl_pruned_def split: option.splits)
  then show "\<exists>m'. TTLMap_Get t1 t2 m k = Ret (m', ttl_live (time_Unix t1) (ttl_abs m k)) \<and>
      ttl_inv m' \<and> ttl_capacity m' = ttl_capacity m \<and> ttl_pruned (time_Unix t1) (ttl_abs m) (ttl_abs m')"
    using g(1-4) unfolding ttl_live_def by blast
next
  fix m and s t1 t2 :: int and k v
  assume inv: "ttl_inv m" and s: "0 < s" "s \<le> 9223372036"
  show "\<exists>m'. TTLMap_Set t1 t2 m k v s = Ret (m', None) \<and> ttl_inv m' \<and> ttl_capacity m' = ttl_capacity m \<and>
        ttl_stored (ttl_capacity m) (ttl_abs m) (card (dom (ttl_abs m))) k (v, time_Unix t1 + s) (ttl_abs m')"
    using TTLMap_Set_ok [OF inv s(1), of t1 t2 k v]
    by (simp only: ttl_abs_size [OF inv] ttl_expiry_in_range [OF s])
qed

section \<open>Correctness\<close>

lemma NewTTLMap_ok: "ttl_ok (if c \<le> 0 then 0 else c) (NewTTLMap c\<lparr>ttl_OnExpire := b\<rparr>)"
proof -
  have "ttl_inv (NewTTLMap c\<lparr>ttl_OnExpire := b\<rparr>) = ttl_inv (NewTTLMap c)"
    by (simp add: ttl_inv_def ttl_linked_def ttl_owned_def)
  then show ?thesis using NewTTLMap_inv(1) [of c] by (simp add: ttl_ok_def) (simp add: NewTTLMap_def TTLMap_Len_def)
qed

lemma ttl_reachable_inv:
  assumes "ttl_run ops (NewTTLMap c\<lparr>ttl_OnExpire := b\<rparr>) = Ret m"
  shows "ttl_inv m" and "ttl_capacity m = (if c \<le> 0 then 0 else c)"
  using ttl_run_ok [OF NewTTLMap_ok, of ops b c] assms by (auto simp: ttl_ok_def)

lemma ttl_reachable:
  assumes "ttl_run ops (NewTTLMap c) = Ret m"
  shows "ttl_inv m" and "ttl_capacity m = max 0 c"
  using ttl_reachable_inv [of ops False c m] assms by (simp_all add: NewTTLMap_def max_def)

text \<open>
  C6: whatever the calls on a new map are, with whatever arguments, clock readings and
  interleaving of the second half of \<^verbatim>\<open>Get\<close>, none of them panics, the map and the queue
  agree, and the map never holds more entries than its capacity (one for capacity 0).
\<close>

theorem TTLMap_safe:
  "\<exists>m. ttl_run ops (NewTTLMap c\<lparr>ttl_OnExpire := b\<rparr>) = Ret m \<and> ttl_inv m \<and> int (TTLMap_Len m) \<le> max 1 c"
  using ttl_run_ok [OF NewTTLMap_ok, of ops b c] by (auto simp: ttl_ok_def max_def split: if_splits)

text \<open>
  C7: \<^verbatim>\<open>Set\<close> in a reachable map stores the value with the expiry \<open>now + ttlSeconds\<close> and keeps all
  other entries, except that a new key in a full map replaces an entry that expires first.
\<close>

theorem TTLMap_Set_refines:
  assumes "ttl_run ops (NewTTLMap c) = Ret m" and "0 < s" and "s \<le> 9223372036"
  shows "\<exists>m'. TTLMap_Set now1 now2 m key v s = Ret (m', None) \<and>
    ttl_stored (max 0 c) (ttl_abs m) (TTLMap_Len m) key (v, time_Unix now1 + s) (ttl_abs m')"
proof -
  note r = ttl_reachable [OF assms(1)]
  then show ?thesis
    using TTLMap_Set_ok [OF r(1) assms(2), of now1 now2 key v] ttl_expiry_in_range [OF assms(2,3), of now1]
    by (auto simp: max_def)
qed

theorem TTLMap_Set_refines_witness:
  "\<exists>m m'. ttl_run [OpSet 0 0 ''a'' (IInt 1) 10, OpSet 0 0 ''b'' (IInt 2) 5] (NewTTLMap 2) = Ret m \<and>
    TTLMap_Set 0 0 m ''c'' (IInt 3) 7 = Ret (m', None) \<and>
    ttl_stored 2 (ttl_abs m) (TTLMap_Len m) ''c'' (IInt 3, 7) (ttl_abs m')"
proof -
  obtain m where m: "ttl_run [OpSet 0 0 ''a'' (IInt 1) 10, OpSet 0 0 ''b'' (IInt 2) 5] (NewTTLMap 2) = Ret m"
    using ttl_run_ok [OF NewTTLMap_ok [of 2 False], of "[OpSet 0 0 ''a'' (IInt 1) 10, OpSet 0 0 ''b'' (IInt 2) 5]"]
    by (auto simp: NewTTLMap_def)
  with TTLMap_Set_refines [OF m, of 7 0 0 "''c''" "IInt 3"] show ?thesis by (auto simp: time_Unix_def)
qed

text \<open>
  After \<^verbatim>\<open>Set\<close> of a key, \<^verbatim>\<open>Get\<close> returns the value while the clock is before
  \<open>now + ttlSeconds\<close> and nothing from that second on.
\<close>

theorem TTLMap_Get_after_Set:
  assumes "ttl_run ops (NewTTLMap c) = Ret m" and "0 < s" and "s \<le> 9223372036"
  shows "\<exists>m1 m2. TTLMap_Set now1 now2 m key v s = Ret (m1, None) \<and>
    TTLMap_Get now3 now4 m1 key = Ret (m2, if time_Unix now3 < time_Unix now1 + s then Some v else None)"
proof -
  note r = ttl_reachable [OF assms(1)]
  obtain m1 where m1: "TTLMap_Set now1 now2 m key v s = Ret (m1, None)" "ttl_inv m1"
    "ttl_abs m1 key = Some (v, time_Unix now1 + s)"
    using TTLMap_Set_ok [OF r(1) assms(2), of now1 now2 key v] ttl_expiry_in_range [OF assms(2,3), of now1]
    by (auto dest: ttl_stored_at)
  then show ?thesis using TTLMap_Get_spec [OF m1(2), of now3 now4 key] by auto
qed

theorem TTLMap_Get_after_Set_witness:
  "\<exists>m1 m2. TTLMap_Set 0 0 (NewTTLMap 1) ''a'' (IInt 1) 5 = Ret (m1, None) \<and>
    TTLMap_Get (4 * Second) 0 m1 ''a'' = Ret (m2, Some (IInt 1))"
  using TTLMap_Get_after_Set [of "[]" 1 "NewTTLMap 1" 5 0 0 "''a''" "IInt 1" "4 * Second" 0]
  by (simp add: time_Unix_def Second_def)

text \<open>
  \<^verbatim>\<open>Increment\<close> of a live integer entry returns the wrapped 64-bit sum, of a missing or
  expired one the increment, and stores what it returns with the new expiry; a live entry of
  another type is an error that names the type and leaves the map as it was.
\<close>

theorem TTLMap_Increment_correct:
  assumes "ttl_run ops (NewTTLMap c) = Ret m" and "0 < s" and "s \<le> 9223372036"
  shows "\<exists>m' r. TTLMap_Increment now1 now2 now3 m key n s = Ret (m', r) \<and>
    r = (case ttl_live (time_Unix now2) (ttl_abs m key) of
           None \<Rightarrow> Inr n
         | Some (IInt old) \<Rightarrow> Inr (i64 (old + n))
         | Some other \<Rightarrow> Inl (NotIntegerError (type_name other))) \<and>
    (case r of Inr v \<Rightarrow> ttl_abs m' key = Some (IInt v, time_Unix now1 + s) | Inl _ \<Rightarrow> m' = m)"
proof -
  note inv = ttl_reachable(1) [OF assms(1)]
  let ?e = "time_Unix (time_Add now1 (i64 (Second * s)))"
  have stored: "ttl_abs m' key = Some (IInt v, time_Unix now1 + s)" if "TTLMap_set now3 m key (IInt v) ?e = Ret m'" for m' v
    using TTLMap_set_spec [OF inv, of now3 key "IInt v" ?e] that ttl_expiry_in_range [OF assms(2,3), of now1]
    by (auto dest: ttl_stored_at)
  obtain m' r where r: "TTLMap_Increment now1 now2 now3 m key n s = Ret (m', r)"
    "case ttl_live (time_Unix now2) (ttl_abs m key) of
       None \<Rightarrow> r = Inr n
     | Some (IInt old) \<Rightarrow> r = Inr (i64 (old + n))
     | Some other \<Rightarrow> r = Inl (NotIntegerError (type_name other)) \<and> m' = m"
    "case r of Inr v \<Rightarrow> TTLMap_set now3 m key (IInt v) ?e = Ret m' | Inl _ \<Rightarrow> m' = m"
    using TTLMap_Increment_spec [OF inv assms(2), of now1 now2 now3 key n] by blast
  from r(3) have "case r of Inr v \<Rightarrow> ttl_abs m' key = Some (IInt v, time_Unix now1 + s) | Inl _ \<Rightarrow> m' = m"
    by (auto dest: stored split: sum.splits)
  with r(1,2) show ?thesis by (auto split: option.splits iface.splits)
qed

theorem TTLMap_Increment_correct_witness:
  "\<exists>m m'. ttl_run [OpSet 0 0 ''a'' (IInt 9223372036854775807) 10] (NewTTLMap 2) = Ret m \<and>
    TTLMap_Increment 0 0 0 m ''a'' 1 7 = Ret (m', Inr (- 9223372036854775808)) \<and>
    ttl_abs m' ''a'' = Some (IInt (- 9223372036854775808), 7)"
proof -
  have run: "ttl_run [OpSet 0 0 ''a'' (IInt 9223372036854775807) 10] (NewTTLMap 2) =
    Ret (ttl_insert (NewTTLMap 2) ''a'' (IInt 9223372036854775807) 10)"
    by (simp add: TTLMap_Set_def TTLMap_toEpochSeconds_def TTLMap_set_def NewTTLMap_def Second_def
        i64_id in_i64_def time_Add_def time_Unix_def)
  moreover have "ttl_abs (ttl_insert (NewTTLMap 2) ''a'' (IInt 9223372036854775807) 10) ''a'' =
    Some (IInt 9223372036854775807, 10)"
    using ttl_insert_spec(2) [OF NewTTLMap_inv(1), of 2 "''a''"] by (simp add: NewTTLMap_def)
  ultimately show ?thesis
    using TTLMap_Increment_correct [OF run, of 7 0 0 0 "''a''" 1]
    by (auto simp: ttl_live_def i64_def time_Unix_def)
qed

text \<open>
  \<^verbatim>\<open>RemoveExpired(n)\<close> removes only expired entries, at most \<open>n\<close>, returns how many, and when it
  returns less than \<open>n\<close> no expired entry is left.
\<close>

theorem TTLMap_RemoveExpired_exact:
  assumes "ttl_run ops (NewTTLMap c) = Ret m"
  shows "\<exists>m' r. TTLMap_RemoveExpired now m n = Ret (m', r) \<and> ttl_pruned (time_Unix now) (ttl_abs m) (ttl_abs m') \<and>
    int r \<le> max 0 n \<and> TTLMap_Len m = TTLMap_Len m' + r \<and>
    (int r < n \<longrightarrow> (\<forall>k v e. ttl_abs m' k = Some (v, e) \<longrightarrow> time_Unix now < e))"
proof -
  note inv = ttl_reachable(1) [OF assms(1)]
  obtain m' r where r: "RemoveExpired_loop (time_Unix now) (nat n) 0 m = Ret (m', r)" "r \<le> nat n"
    "TTLMap_Len m = TTLMap_Len m' + r" "ttl_pruned (time_Unix now) (ttl_abs m) (ttl_abs m')"
    "r < nat n \<longrightarrow> (\<forall>k v e. ttl_abs m' k = Some (v, e) \<longrightarrow> time_Unix now < e)"
    using RemoveExpired_loop_spec [OF inv, of "time_Unix now" "nat n" 0] by auto
  then have "int r \<le> max 0 n" "int r < n \<Longrightarrow> r < nat n" by auto
  with r show ?thesis unfolding TTLMap_RemoveExpired_def by blast
qed

theorem TTLMap_RemoveExpired_exact_witness:
  "\<exists>m' r. TTLMap_RemoveExpired 0 (NewTTLMap 3) 2 = Ret (m', r) \<and> r = 0 \<and>
     ttl_pruned 0 (ttl_abs (NewTTLMap 3)) (ttl_abs m')"
  using TTLMap_RemoveExpired_exact [of "[]" 3 "NewTTLMap 3" 0 2]
  by (auto simp: NewTTLMap_def TTLMap_Len_def time_Unix_def)

text \<open>
  C8: the second half of a \<^verbatim>\<open>Get\<close>, run with a pointer to any element after any calls of other
  goroutines, removes no entry that is not expired at that moment, whatever was stored under
  the key meanwhile, and calls the callback for exactly what it removes.
\<close>

theorem TTLMap_lockNDel_rechecks:
  assumes "ttl_run ops (NewTTLMap c\<lparr>ttl_OnExpire := b\<rparr>) = Ret m"
  shows "\<exists>m'. TTLMap_lockNDel now m a = Ret m' \<and>
    (let k = el_key (ttl_els m a) in
     case ttl_abs m k of
       Some (v, e) \<Rightarrow>
         if e \<le> time_Unix now then ttl_abs m' = (ttl_abs m)(k := None) \<and>
           ttl_expired m' = ttl_expired m @ (if ttl_OnExpire m then [(k, v)] else [])
         else m' = m
     | None \<Rightarrow> m' = m)"
  using TTLMap_lockNDel_spec [OF ttl_reachable_inv(1) [OF assms], of now a] unfolding Let_def by blast

theorem TTLMap_lockNDel_rechecks_witness:
  "\<exists>m m'. ttl_run [OpSet 0 0 ''a'' (IInt 1) 10] (NewTTLMap 2\<lparr>ttl_OnExpire := True\<rparr>) = Ret m \<and>
    ttl_abs m ''a'' = Some (IInt 1, 10) \<and> TTLMap_lockNDel (9 * Second) m 0 = Ret m' \<and> m' = m"
proof -
  let ?n = "NewTTLMap 2\<lparr>ttl_OnExpire := True\<rparr>"
  have run: "ttl_run [OpSet 0 0 ''a'' (IInt 1) 10] ?n = Ret (ttl_insert ?n ''a'' (IInt 1) 10)"
    by (simp add: TTLMap_Set_def TTLMap_toEpochSeconds_def TTLMap_set_def NewTTLMap_def Second_def
        i64_id in_i64_def time_Add_def time_Unix_def)
  moreover have abs: "ttl_abs (ttl_insert ?n ''a'' (IInt 1) 10) ''a'' = Some (IInt 1, 10)"
    using ttl_insert_spec(2) [of ?n "''a''" "IInt 1" 10] NewTTLMap_ok [of 2 True]
    by (simp add: ttl_ok_def) (simp add: NewTTLMap_def)
  moreover have "el_key (ttl_els (ttl_insert ?n ''a'' (IInt 1) 10) 0) = ''a''"
    by (simp add: ttl_insert_def NewTTLMap_def Let_def)
  ultimately show ?thesis
    using TTLMap_lockNDel_rechecks [OF run, of "9 * Second" 0] by (auto simp: Let_def time_Unix_def Second_def)
qed

text \<open>
  A time to live of 9223372037 seconds overflows the 64-bit duration: \<^verbatim>\<open>Set\<close> reports no error
  and stores an entry that is expired at once.
\<close>

theorem TTLMap_Set_overflow:
  "\<exists>m1 m2. TTLMap_Set now now (NewTTLMap c) key v 9223372037 = Ret (m1, None) \<and>
     TTLMap_Get now now m1 key = Ret (m2, None)"
proof -
  let ?e = "time_Unix (time_Add now (i64 (Second * 9223372037)))"
  have "i64 (Second * 9223372037) = - 9223372036709551616" by (simp add: i64_def Second_def)
  then have "?e \<le> time_Unix now" by (simp add: time_Add_def time_Unix_mono)
  moreover obtain m1 where "TTLMap_Set now now (NewTTLMap c) key v 9223372037 = Ret (m1, None)" "ttl_inv m1"
    "ttl_abs m1 key = Some (v, ?e)"
    using TTLMap_Set_ok [OF NewTTLMap_inv(1), of 9223372037 now now c key v] by (auto dest: ttl_stored_at)
  ultimately show ?thesis using TTLMap_Get_spec [of m1 now now key] by fastforce
qed

end
