(* ===== verification/Nonce_Cache.thy ===== *)
theory Nonce_Cache
  imports TTL_Map
begin

text \<open>
  \<^verbatim>\<open>httpsign/nonce.go\<close>: the cache of the nonces a service has accepted, a client of the store of
  expiring entries. \<^verbatim>\<open>InCache\<close> holds the lock of the cache over its two calls on the store, so a
  call is one step; its readings of the clock are arguments. \<^verbatim>\<open>v3/httpsign/nonce.go\<close> has the
  same code on the clock of its package.
\<close>

record NonceCache =
  nc_cache :: TTLMap
  nc_cacheTTL :: int

definition NewNonceCache :: "int \<Rightarrow> int \<Rightarrow> NonceCache" where
  "NewNonceCache capacity cacheTTL = \<lparr>nc_cache = NewTTLMap capacity, nc_cacheTTL = cacheTTL\<rparr>"

text \<open>The four readings of the clock: two in \<^verbatim>\<open>Get\<close>, two in \<^verbatim>\<open>Set\<close>, whose error is dropped.\<close>

record nonce_clock =
  get1 :: time
  get2 :: time
  set1 :: time
  set2 :: time

definition NonceCache_InCache :: "nonce_clock \<Rightarrow> NonceCache \<Rightarrow> string \<Rightarrow> (NonceCache \<times> bool) go" where
  "NonceCache_InCache t n nonce =
     go_bind (TTLMap_Get (get1 t) (get2 t) (nc_cache n) nonce) (\<lambda>(cache, r).
       case r of
         Some _ \<Rightarrow> Ret (n\<lparr>nc_cache := cache\<rparr>, True)
       | None \<Rightarrow>
           go_bind (TTLMap_Set (set1 t) (set2 t) cache nonce (IStr []) (nc_cacheTTL n)) (\<lambda>(cache', _).
             Ret (n\<lparr>nc_cache := cache'\<rparr>, False)))"

text \<open>The invariant: the store is well formed and the time to live is one that \<^verbatim>\<open>Set\<close> accepts.\<close>

definition nc_inv :: "NonceCache \<Rightarrow> bool" where
  "nc_inv n \<longleftrightarrow> ttl_inv (nc_cache n) \<and> 0 < nc_cacheTTL n \<and> nc_cacheTTL n \<le> 9223372036"

lemma NewNonceCache_inv: "0 < s \<Longrightarrow> s \<le> 9223372036 \<Longrightarrow> nc_inv (NewNonceCache c s)"
  by (simp add: nc_inv_def NewNonceCache_def NewTTLMap_inv)

lemma InCache_spec:
  assumes inv: "nc_inv n"
  shows "\<exists>n' r. NonceCache_InCache t n nonce = Ret (n', r) \<and> nc_inv n' \<and>
    nc_cacheTTL n' = nc_cacheTTL n \<and> ttl_capacity (nc_cache n') = ttl_capacity (nc_cache n) \<and>
    r = (ttl_live (time_Unix (get1 t)) (ttl_abs (nc_cache n) nonce) \<noteq> None) \<and>
    (\<not> r \<longrightarrow> ttl_abs (nc_cache n') nonce = Some (IStr [], time_Unix (set1 t) + nc_cacheTTL n))"
proof -
  have I: "ttl_inv (nc_cache n)" "0 < nc_cacheTTL n" "nc_cacheTTL n \<le> 9223372036"
    using inv by (simp_all add: nc_inv_def)
  obtain m1 where m1: "TTLMap_Get (get1 t) (get2 t) (nc_cache n) nonce =
      Ret (m1, ttl_live (time_Unix (get1 t)) (ttl_abs (nc_cache n) nonce))" "ttl_inv m1"
    "ttl_capacity m1 = ttl_capacity (nc_cache n)"
    using ttls.fetch_law [OF I(1), of "get1 t" "get2 t" nonce] by blast
  obtain m2 where m2: "TTLMap_Set (set1 t) (set2 t) m1 nonce (IStr []) (nc_cacheTTL n) = Ret (m2, None)" "ttl_inv m2"
    "ttl_capacity m2 = ttl_capacity m1" "ttl_abs m2 nonce = Some (IStr [], time_Unix (set1 t) + nc_cacheTTL n)"
    using ttls.put_law [OF m1(2) I(2,3), of "set1 t" "set2 t" nonce "IStr []"] by (blast dest: ttl_stored_at)
  show ?thesis
    using m1 m2 inv
    by (cases "ttl_live (time_Unix (get1 t)) (ttl_abs (nc_cache n) nonce)")
      (auto simp: NonceCache_InCache_def nc_inv_def)
qed

text \<open>
  A nonce that expires at \<open>e\<close> survives a call made before \<open>e\<close> while the nonces that expire no
  earlier are fewer than the capacity, and the call adds at most one to these.
\<close>

lemma InCache_survives:
  assumes inv: "nc_inv n" and call: "NonceCache_InCache t n j = Ret (n', r)"
    and k: "ttl_abs (nc_cache n) k = Some (v, e)" and before: "time_Unix (get1 t) < e"
    and room: "int (card (ttl_newer (ttl_abs (nc_cache n)) e)) < ttl_capacity (nc_cache n)"
  shows "ttl_abs (nc_cache n') k = Some (v, e)"
    and "card (ttl_newer (ttl_abs (nc_cache n')) e) \<le> Suc (card (ttl_newer (ttl_abs (nc_cache n)) e))"
proof -
  have I: "ttl_inv (nc_cache n)" "0 < nc_cacheTTL n" "nc_cacheTTL n \<le> 9223372036"
    using inv by (simp_all add: nc_inv_def)
  obtain m1 r1 where get: "TTLMap_Get (get1 t) (get2 t) (nc_cache n) j = Ret (m1, r1)"
    using ttls.fetch_law [OF I(1), of "get1 t" "get2 t" j] by blast
  note g = ttls.fetch_survives [OF I(1) get before]
  have fin: "finite (ttl_newer (ttl_abs (nc_cache n)) e)"
    using ttls.finite_abs [OF I(1)] by (rule rev_finite_subset) (auto simp: ttl_newer_def)
  have "ttl_abs (nc_cache n') k = Some (v, e) \<and> ttl_newer (ttl_abs (nc_cache n')) e \<subseteq> insert j (ttl_newer (ttl_abs (nc_cache n)) e)"
  proof (cases r1)
    case None
    then have "j \<noteq> k" using g(5) k before by (auto simp: ttl_live_def)
    obtain m2 x where put: "TTLMap_Set (set1 t) (set2 t) m1 j (IStr []) (nc_cacheTTL n) = Ret (m2, x)"
      using ttls.put_law [OF g(1) I(2,3), of "set1 t" "set2 t" j "IStr []"] by blast
    have "nc_cache n' = m2" using call get None put by (auto simp: NonceCache_InCache_def)
    then show ?thesis
      using ttls.put_survives [OF g(1) I(2,3) put \<open>j \<noteq> k\<close> g(3) [OF k]] room by (simp add: g(2,4))
  next
    case (Some w)
    then have "nc_cache n' = m1" using call get by (auto simp: NonceCache_InCache_def)
    then show ?thesis using g(3) [OF k] g(4) by auto
  qed
  then show "ttl_abs (nc_cache n') k = Some (v, e)"
    and "card (ttl_newer (ttl_abs (nc_cache n')) e) \<le> Suc (card (ttl_newer (ttl_abs (nc_cache n)) e))"
    using fin card_mono [of "insert j (ttl_newer (ttl_abs (nc_cache n)) e)"] card_insert_le_m1
    by (auto simp: card_insert_if dest!: card_mono [rotated] split: if_splits)
qed

text \<open>The first call on an empty cache.\<close>

lemma InCache_first:
  assumes inv: "nc_inv n" and empty: "ttl_abs (nc_cache n) = Map.empty"
  shows "\<exists>n'. NonceCache_InCache t n nonce = Ret (n', False) \<and>
    ttl_abs (nc_cache n') = [nonce \<mapsto> (IStr [], time_Unix (set1 t) + nc_cacheTTL n)] \<and>
    ttl_capacity (nc_cache n') = ttl_capacity (nc_cache n)"
proof -
  have I: "ttl_inv (nc_cache n)" "0 < nc_cacheTTL n" "nc_cacheTTL n \<le> 9223372036"
    using inv by (simp_all add: nc_inv_def)
  obtain m1 where m1: "TTLMap_Get (get1 t) (get2 t) (nc_cache n) nonce = Ret (m1, None)" "ttl_inv m1"
    "ttl_abs m1 = Map.empty" "ttl_capacity m1 = ttl_capacity (nc_cache n)"
    using TTLMap_Get_spec [OF I(1), of "get1 t" "get2 t" nonce] empty by auto
  obtain m2 where m2: "TTLMap_Set (set1 t) (set2 t) m1 nonce (IStr []) (nc_cacheTTL n) = Ret (m2, None)"
    "ttl_capacity m2 = ttl_capacity m1" "ttl_abs m2 = [nonce \<mapsto> (IStr [], time_Unix (set1 t) + nc_cacheTTL n)]"
    using ttls.put_law [OF m1(2) I(2,3), of "set1 t" "set2 t" nonce "IStr []"] m1(3) by (auto simp: ttl_stored_def)
  show ?thesis using m1 m2 by (simp add: NonceCache_InCache_def)
qed

end
