(* ===== verification/Go_Strings.thy ===== *)
theory Go_Strings
  imports Go_Prelude
begin

text \<open>
  What the sources use of Go's \<^verbatim>\<open>strconv\<close>, \<^verbatim>\<open>encoding/hex\<close>, \<^verbatim>\<open>fmt\<close> and \<^verbatim>\<open>net/http\<close> on strings:
  decimal numbers and their parser, base 16 and its decoder, and the headers of a request with
  the canonical form of their names. A Go string and a \<^verbatim>\<open>[]byte\<close> are both lists of 8-bit characters.
\<close>

section \<open>Decimal numbers\<close>

definition digit_char :: "nat \<Rightarrow> char" where
  "digit_char d = char_of (48 + d)"

definition digit_val :: "char \<Rightarrow> nat option" where
  "digit_val c = (let n = (of_char c :: nat) in if 48 \<le> n \<and> n \<le> 57 then Some (n - 48) else None)"

fun nat_digits :: "nat \<Rightarrow> string" where
  "nat_digits n = (if n < 10 then [digit_char n] else nat_digits (n div 10) @ [digit_char (n mod 10)])"

declare nat_digits.simps [simp del]

definition FormatInt :: "int \<Rightarrow> string" where
  "FormatInt n = (if n < 0 then CHR ''-'' # nat_digits (nat (- n)) else nat_digits (nat n))"

primrec parse_digits :: "nat \<Rightarrow> string \<Rightarrow> nat option" where
  "parse_digits acc [] = Some acc"
| "parse_digits acc (c # cs) = (case digit_val c of None \<Rightarrow> None | Some d \<Rightarrow> parse_digits (10 * acc + d) cs)"

text \<open>\<^verbatim>\<open>strconv.ParseInt(s, 10, 0)\<close>; \<open>None\<close> stands for its errors, which the callers do not tell apart.\<close>

definition ParseInt :: "string \<Rightarrow> int option" where
  "ParseInt s =
     (let neg = (s \<noteq> [] \<and> hd s = CHR ''-'');
          rest = (if s \<noteq> [] \<and> (hd s = CHR ''-'' \<or> hd s = CHR ''+'') then tl s else s)
      in if rest = [] then None
         else case parse_digits 0 rest of
           None \<Rightarrow> None
         | Some n \<Rightarrow>
             if neg then (if 2 ^ 63 < n then None else Some (- int n))
             else (if 2 ^ 63 \<le> n then None else Some (int n)))"

lemma digit_val_char: "d < 10 \<Longrightarrow> digit_val (digit_char d) = Some d"
  by (simp add: digit_val_def digit_char_def)

lemma digit_char_inj: "d < 10 \<Longrightarrow> d' < 10 \<Longrightarrow> digit_char d = digit_char d' \<Longrightarrow> d = d'"
  by (metis digit_val_char option.inject)

lemma digit_char_neq:
  assumes "d < 10"
  shows "digit_char d \<noteq> CHR ''-''" "digit_char d \<noteq> CHR ''+''" "digit_char d \<noteq> CHR ''|''"
proof -
  have "digit_val CHR ''-'' = None" "digit_val CHR ''+'' = None" "digit_val CHR ''|'' = None"
    by (simp_all add: digit_val_def)
  then show "digit_char d \<noteq> CHR ''-''" "digit_char d \<noteq> CHR ''+''" "digit_char d \<noteq> CHR ''|''"
    using digit_val_char [OF assms] by auto
qed

lemma nat_digits_chars: "c \<in> set (nat_digits n) \<Longrightarrow> \<exists>d < 10. c = digit_char d"
proof (induction n rule: nat_digits.induct)
  case (1 n)
  then show ?case
    by (subst (asm) (2) nat_digits.simps) (auto split: if_splits intro: exI [of _ "n mod 10"])
qed

lemma nat_digits_not_Nil [simp]: "nat_digits n \<noteq> []"
  by (subst nat_digits.simps) simp

lemma parse_digits_append:
  "parse_digits acc (xs @ ys) = (case parse_digits acc xs of None \<Rightarrow> None | Some a \<Rightarrow> parse_digits a ys)"
  by (induction xs arbitrary: acc) (auto split: option.splits)

lemma parse_nat_digits: "parse_digits 0 (nat_digits n) = Some n"
proof (induction n rule: nat_digits.induct)
  case (1 n)
  show ?case
  proof (cases "n < 10")
    case True
    then show ?thesis by (subst nat_digits.simps) (simp add: digit_val_char)
  next
    case False
    then show ?thesis
      using 1 [OF False] by (subst nat_digits.simps) (simp add: parse_digits_append digit_val_char)
  qed
qed

lemma nat_digits_inj: "nat_digits m = nat_digits n \<Longrightarrow> m = n"
  by (metis option.inject parse_nat_digits)

lemma nat_digits_hd: "hd (nat_digits n) \<noteq> CHR ''-''" "hd (nat_digits n) \<noteq> CHR ''+''"
  using nat_digits_chars [OF hd_in_set [OF nat_digits_not_Nil], of n] digit_char_neq by metis+

lemma nat_digits_no_bar: "CHR ''|'' \<notin> set (nat_digits n)"
  using nat_digits_chars [of "CHR ''|''" n] digit_char_neq(3) by metis

lemma ParseInt_FormatInt: "in_i64 n \<Longrightarrow> ParseInt (FormatInt n) = Some n"
  by (auto simp: ParseInt_def FormatInt_def Let_def parse_nat_digits nat_digits_hd in_i64_def)

lemma FormatInt_not_Nil [simp]: "FormatInt n \<noteq> []"
  by (simp add: FormatInt_def)

lemma ParseInt_in_i64: "ParseInt s = Some n \<Longrightarrow> in_i64 n"
  by (auto simp: ParseInt_def Let_def in_i64_def split: if_splits option.splits)

section \<open>Base 16\<close>

definition hex_char :: "nat \<Rightarrow> char" where
  "hex_char d = (if d < 10 then char_of (48 + d) else char_of (87 + d))"

definition hex_val :: "char \<Rightarrow> nat option" where
  "hex_val c =
     (let n = (of_char c :: nat)
      in if 48 \<le> n \<and> n \<le> 57 then Some (n - 48)
         else if 97 \<le> n \<and> n \<le> 102 then Some (n - 87)
         else if 65 \<le> n \<and> n \<le> 70 then Some (n - 55)
         else None)"

primrec hex_EncodeToString :: "string \<Rightarrow> string" where
  "hex_EncodeToString [] = []"
| "hex_EncodeToString (c # cs) =
     hex_char (of_char c div 16) # hex_char (of_char c mod 16) # hex_EncodeToString cs"

fun hex_DecodeString :: "string \<Rightarrow> string option" where
  "hex_DecodeString [] = Some []"
| "hex_DecodeString [c] = None"
| "hex_DecodeString (a # b # cs) =
     (case (hex_val a, hex_val b, hex_DecodeString cs) of
        (Some x, Some y, Some r) \<Rightarrow> Some (char_of (16 * x + y) # r)
      | _ \<Rightarrow> None)"

lemma hex_val_char: "d < 16 \<Longrightarrow> hex_val (hex_char d) = Some d"
  by (simp add: hex_val_def hex_char_def)

lemma of_char_less: "(of_char c :: nat) < 256"
  using nat_of_char_less_256 by simp

lemma hex_Decode_Encode: "hex_DecodeString (hex_EncodeToString s) = Some s"
proof (induction s)
  case (Cons c cs)
  have "(of_char c :: nat) div 16 < 16" "(of_char c :: nat) mod 16 < 16" using of_char_less [of c] by linarith simp
  with Cons.IH show ?case by (simp add: hex_val_char mult.commute)
qed simp

lemma length_hex_Encode: "length (hex_EncodeToString s) = 2 * length s"
  by (induction s) simp_all

lemma hex_EncodeToString_Nil [simp]: "hex_EncodeToString s = [] \<longleftrightarrow> s = []"
  by (cases s) simp_all

section \<open>Headers\<close>

text \<open>\<^verbatim>\<open>textproto.CanonicalMIMEHeaderKey\<close>: a name with a byte that no header name has stays as it is.\<close>

definition is_lower :: "char \<Rightarrow> bool" where
  "is_lower c \<longleftrightarrow> 97 \<le> (of_char c :: nat) \<and> (of_char c :: nat) \<le> 122"

definition is_upper :: "char \<Rightarrow> bool" where
  "is_upper c \<longleftrightarrow> 65 \<le> (of_char c :: nat) \<and> (of_char c :: nat) \<le> 90"

definition valid_header_byte :: "char \<Rightarrow> bool" where
  "valid_header_byte c \<longleftrightarrow>
     is_lower c \<or> is_upper c \<or> digit_val c \<noteq> None \<or> of_char c \<in> {33, 35, 36, 37, 38, 39, 42, 43, 45, 46, 94, 95, 96, 124, 126 :: nat}"

primrec canonical_loop :: "bool \<Rightarrow> string \<Rightarrow> string" where
  "canonical_loop upper [] = []"
| "canonical_loop upper (c # cs) =
     (let c' = (if upper \<and> is_lower c then char_of ((of_char c :: nat) - 32)
                else if \<not> upper \<and> is_upper c then char_of ((of_char c :: nat) + 32) else c)
      in c' # canonical_loop (c' = CHR ''-'') cs)"

definition CanonicalHeaderKey :: "string \<Rightarrow> string" where
  "CanonicalHeaderKey s = (if list_all valid_header_byte s then canonical_loop True s else s)"

type_synonym header = "(string, string list) gomap"

definition Header_Get :: "header \<Rightarrow> string \<Rightarrow> string" where
  "Header_Get h key =
     (case map_of h (CanonicalHeaderKey key) of Some (v # _) \<Rightarrow> v | _ \<Rightarrow> [])"

definition Header_Set :: "header \<Rightarrow> string \<Rightarrow> string \<Rightarrow> header" where
  "Header_Set h key v = AList.update (CanonicalHeaderKey key) [v] h"

lemma Header_Get_Set:
  "Header_Get (Header_Set h key v) key' =
     (if CanonicalHeaderKey key = CanonicalHeaderKey key' then v else Header_Get h key')"
  by (simp add: Header_Get_def Header_Set_def update_conv')

lemma Header_lookup_Set:
  "CanonicalHeaderKey key \<noteq> key' \<Longrightarrow> map_of (Header_Set h key v) key' = map_of h key'"
  by (simp add: Header_Set_def update_conv')

section \<open>Splitting\<close>

text \<open>\<^verbatim>\<open>strings.Split\<close> with a separator of one character.\<close>

fun strings_Split :: "char \<Rightarrow> string \<Rightarrow> string list" where
  "strings_Split sep [] = [[]]"
| "strings_Split sep (c # cs) =
     (case strings_Split sep cs of
        [] \<Rightarrow> [[c]]
      | w # ws \<Rightarrow> if c = sep then [] # w # ws else (c # w) # ws)"

fun strings_Join :: "char \<Rightarrow> string list \<Rightarrow> string" where
  "strings_Join sep [] = []"
| "strings_Join sep [w] = w"
| "strings_Join sep (w # v # ws) = w @ sep # strings_Join sep (v # ws)"

lemma strings_Split_not_Nil [simp]: "strings_Split sep s \<noteq> []"
  by (induction sep s rule: strings_Split.induct) (auto split: list.splits)

lemma strings_Join_Split: "strings_Join sep (strings_Split sep s) = s"
proof (induction sep s rule: strings_Split.induct)
  case (2 sep c cs)
  obtain w ws where split: "strings_Split sep cs = w # ws" by (cases "strings_Split sep cs") auto
  then have "strings_Join sep (w # ws) = cs" using 2 by simp
  then show ?case using split by (cases ws) auto
qed simp

lemma strings_Split_parts: "w \<in> set (strings_Split sep s) \<Longrightarrow> sep \<notin> set w"
  by (induction sep s arbitrary: w rule: strings_Split.induct) (auto split: list.splits if_splits)

end
