(* ===== verification/HTTP_Sign.thy ===== *)
theory HTTP_Sign
  imports Nonce_Cache Go_Strings
begin

text \<open>
  \<^verbatim>\<open>httpsign/auth.go\<close>: the service that signs HTTP requests and authenticates signed ones. The
  message authentication code (HMAC-SHA256 in Go's library) is the parameter \<open>hmac\<close>, a function
  of the key and the bytes written; the theorems hold for every such function. Readings of the
  clock, of the random provider, of the host name and of the key file are arguments.
\<close>

section \<open>Data\<close>

definition MaxSkewSec :: int where "MaxSkewSec = 5"

definition CacheTimeout :: int where "CacheTimeout = 100"

definition CacheCapacity :: int where "CacheCapacity = 5000 * CacheTimeout"

definition XMailgunSignature :: string where "XMailgunSignature = ''X-Mailgun-Signature''"

definition XMailgunSignatureVersion :: string where
  "XMailgunSignatureVersion = ''X-Mailgun-Signature-Version''"

definition XMailgunNonce :: string where "XMailgunNonce = ''X-Mailgun-Nonce''"

definition XMailgunTimestamp :: string where "XMailgunTimestamp = ''X-Mailgun-Timestamp''"

text \<open>
  A slice that may be nil is an \<open>option\<close>. The clock and the random provider of the
  configuration are arguments of the calls that read them.
\<close>

record Config =
  cfg_KeyPath :: string
  cfg_KeyBytes :: "string option"
  cfg_HeadersToSign :: "string list"
  cfg_SignVerbAndURI :: bool
  cfg_NonceCacheCapacity :: int
  cfg_NonceCacheTimeout :: int
  cfg_EmitStats :: bool
  cfg_StatsdHost :: string
  cfg_StatsdPort :: int
  cfg_StatsdPrefix :: string
  cfg_NonceHeaderName :: string
  cfg_TimestampHeaderName :: string
  cfg_SignatureHeaderName :: string
  cfg_SignatureVersionHeaderName :: string

text \<open>
  \<open>svc_metricsClient\<close> is the address and the prefix of the metrics client, \<open>None\<close> for the client
  that drops everything; \<open>svc_metrics\<close> lists the counters incremented.
\<close>

record Service =
  svc_config :: Config
  svc_nonceCache :: NonceCache
  svc_secretKey :: "string option"
  svc_metricsClient :: "(string \<times> string) option"
  svc_metrics :: "string list"

text \<open>
  The body of a request: none, a stream that delivers its bytes and then ends or fails, or one
  that does not fit into memory (\<^verbatim>\<open>bytes.ErrTooLarge\<close>). \<open>req_RequestURI\<close> is \<^verbatim>\<open>r.URL.RequestURI()\<close>.
\<close>

datatype req_body = NoBody | Body string "string option" | HugeBody

record request =
  req_Method :: string
  req_RequestURI :: string
  req_Header :: header
  req_ContentLength :: int
  req_Body :: req_body

datatype sign_error =
    ConfigRequired
  | HostnameError string
  | MetricsError string
  | KeyFileError string
  | NoKeyBytes
  | NoKeyLoaded
  | HeaderNotFound string
  | BodyError string
  | SignedHeaderMissing string
  | RandomError string
  | SignatureNotHex string
  | SignatureMismatch string
  | TimestampUnparsable string
  | TimestampFromFuture int int
  | TimestampTooOld int int
  | NonceAlreadyInCache string

section \<open>Creating a service\<close>

text \<open>What \<^verbatim>\<open>os.Hostname\<close>, \<^verbatim>\<open>metrics.NewWithOptions\<close> and \<^verbatim>\<open>ioutil.ReadFile\<close> return.\<close>

record environment =
  env_Hostname :: "string + string"
  env_metrics :: "string \<Rightarrow> string \<Rightarrow> string option"
  env_ReadFile :: "string \<Rightarrow> string + string"

definition TrimNewline :: "string \<Rightarrow> string" where
  "TrimNewline s = (if s \<noteq> [] \<and> last s = CHR 10 then butlast s else s)"

definition readKeyFromDisk :: "environment \<Rightarrow> string \<Rightarrow> sign_error + string" where
  "readKeyFromDisk env keypath =
     (case env_ReadFile env keypath of
        Inl e \<Rightarrow> Inl (KeyFileError e)
      | Inr keyBytes \<Rightarrow> Inr (TrimNewline keyBytes))"

definition set_defaults :: "Config \<Rightarrow> Config" where
  "set_defaults config =
     config\<lparr>cfg_NonceCacheCapacity :=
              (if cfg_NonceCacheCapacity config < 1 then CacheCapacity else cfg_NonceCacheCapacity config),
            cfg_NonceCacheTimeout :=
              (if cfg_NonceCacheTimeout config < 1 then CacheTimeout else cfg_NonceCacheTimeout config),
            cfg_NonceHeaderName :=
              (if cfg_NonceHeaderName config = [] then XMailgunNonce else cfg_NonceHeaderName config),
            cfg_TimestampHeaderName :=
              (if cfg_TimestampHeaderName config = [] then XMailgunTimestamp else cfg_TimestampHeaderName config),
            cfg_SignatureHeaderName :=
              (if cfg_SignatureHeaderName config = [] then XMailgunSignature else cfg_SignatureHeaderName config),
            cfg_SignatureVersionHeaderName :=
              (if cfg_SignatureVersionHeaderName config = [] then XMailgunSignatureVersion
               else cfg_SignatureVersionHeaderName config)\<rparr>"

definition metrics_client :: "environment \<Rightarrow> Config \<Rightarrow> sign_error + (string \<times> string) option" where
  "metrics_client env config =
     (if cfg_EmitStats config then
        case env_Hostname env of
          Inl e \<Rightarrow> Inl (HostnameError e)
        | Inr hostname \<Rightarrow>
            let prefix = ''lemma.'' @ map (\<lambda>c. if c = CHR ''.'' then CHR ''_'' else c) hostname;
                prefix' = (if cfg_StatsdPrefix config \<noteq> [] then prefix @ ''.'' @ cfg_StatsdPrefix config else prefix);
                hostport = cfg_StatsdHost config @ '':'' @ FormatInt (cfg_StatsdPort config)
            in (case env_metrics env hostport prefix' of
                  Some e \<Rightarrow> Inl (MetricsError e)
                | None \<Rightarrow> Inr (Some (hostport, prefix')))
      else Inr None)"

text \<open>The configuration is shared with the caller; it comes back with its defaults, on an error too.\<close>

definition NewWithProviders :: "environment \<Rightarrow> Config option \<Rightarrow> Config option \<times> (sign_error + Service)" where
  "NewWithProviders env config =
     (case config of
        None \<Rightarrow> (None, Inl ConfigRequired)
      | Some config0 \<Rightarrow>
          let config = set_defaults config0
          in (Some config,
              case metrics_client env config of
                Inl e \<Rightarrow> Inl e
              | Inr client \<Rightarrow>
                  (case (if cfg_KeyPath config \<noteq> [] then readKeyFromDisk env (cfg_KeyPath config)
                         else case cfg_KeyBytes config of None \<Rightarrow> Inl NoKeyBytes | Some k \<Rightarrow> Inr k) of
                     Inl e \<Rightarrow> Inl e
                   | Inr keyBytes \<Rightarrow>
                       Inr \<lparr>svc_config = config,
                            svc_nonceCache = NewNonceCache (cfg_NonceCacheCapacity config) (cfg_NonceCacheTimeout config),
                            svc_secretKey = Some keyBytes, svc_metricsClient = client, svc_metrics = []\<rparr>)))"

text \<open>\<^verbatim>\<open>New\<close> takes the addresses of two fields of the configuration before anything else.\<close>

definition New :: "environment \<Rightarrow> Config option \<Rightarrow> (Config option \<times> (sign_error + Service)) go" where
  "New env config = (case config of None \<Rightarrow> Panic NilDereference | Some c \<Rightarrow> Ret (NewWithProviders env (Some c)))"

section \<open>Reading a request\<close>

text \<open>
  The buffer is allocated with the announced length of the body, and \<^verbatim>\<open>make\<close> panics above the
  size of the address space. The body read is put back, also when reading it failed.
\<close>

definition MinRead :: int where "MinRead = 512"

definition maxAlloc :: int where "maxAlloc = 2 ^ 48"

definition readBody :: "request \<Rightarrow> (request \<times> (sign_error + string)) go" where
  "readBody r =
     (if req_Body r = NoBody then Ret (r, Inr [])
      else
        let n = (if MinRead < req_ContentLength r then req_ContentLength r else MinRead)
        in if maxAlloc < n then Panic (UserPanic ''makeslice: cap out of range'')
           else case req_Body r of
             Body b err \<Rightarrow>
               Ret (r\<lparr>req_Body := Body b None\<rparr>, case err of None \<Rightarrow> Inr b | Some e \<Rightarrow> Inl (BodyError e))
           | _ \<Rightarrow> Ret (r, Inl (BodyError ''bytes.Buffer: too large'')))"

text \<open>The names are looked up as they are; \<^verbatim>\<open>Get\<close> then uses their canonical form.\<close>

primrec extractHeaderValues :: "request \<Rightarrow> string list \<Rightarrow> sign_error + string list" where
  "extractHeaderValues r [] = Inr []"
| "extractHeaderValues r (headerName # headerNames) =
     (case map_of (req_Header r) headerName of
        None \<Rightarrow> Inl (SignedHeaderMissing headerName)
      | Some _ \<Rightarrow>
          (case extractHeaderValues r headerNames of
             Inl e \<Rightarrow> Inl e
           | Inr vs \<Rightarrow> Inr (Header_Get (req_Header r) headerName # vs)))"

section \<open>The message authentication code\<close>

definition mac_payload ::
  "bool \<Rightarrow> string \<Rightarrow> string \<Rightarrow> string \<Rightarrow> string \<Rightarrow> string \<Rightarrow> string list \<Rightarrow> string" where
  "mac_payload signVerbAndUri httpVerb httpResourceUri timestamp nonce body headerValues =
     nat_digits (length timestamp) @ ''|'' @ timestamp @
     ''|'' @ nat_digits (length nonce) @ ''|'' @ nonce @
     ''|'' @ nat_digits (length body) @ ''|'' @ body @
     (if signVerbAndUri then
        ''|'' @ nat_digits (length httpVerb) @ ''|'' @ httpVerb @
        ''|'' @ nat_digits (length httpResourceUri) @ ''|'' @ httpResourceUri
      else []) @
     concat (map (\<lambda>headerValue. ''|'' @ nat_digits (length headerValue) @ ''|'' @ headerValue) headerValues)"

definition computeMAC ::
  "(string \<Rightarrow> string \<Rightarrow> string) \<Rightarrow> string \<Rightarrow> bool \<Rightarrow> string \<Rightarrow> string \<Rightarrow> string \<Rightarrow> string \<Rightarrow> string \<Rightarrow> string list \<Rightarrow> string" where
  "computeMAC hmac secretKey signVerbAndUri httpVerb httpResourceUri timestamp nonce body headerValues =
     hmac secretKey (mac_payload signVerbAndUri httpVerb httpResourceUri timestamp nonce body headerValues)"

definition checkMAC ::
  "(string \<Rightarrow> string \<Rightarrow> string) \<Rightarrow> string \<Rightarrow> bool \<Rightarrow> string \<Rightarrow> string \<Rightarrow> string \<Rightarrow> string \<Rightarrow> string \<Rightarrow> string list \<Rightarrow>
   string \<Rightarrow> sign_error option" where
  "checkMAC hmac secretKey signVerbAndUri httpVerb httpResourceUri timestamp nonce body headerValues signature =
     (case hex_DecodeString signature of
        None \<Rightarrow> Some (SignatureNotHex signature)
      | Some expectedMAC \<Rightarrow>
          if expectedMAC = computeMAC hmac secretKey signVerbAndUri httpVerb httpResourceUri timestamp nonce body headerValues
          then None else Some (SignatureMismatch expectedMAC))"

section \<open>Signing and authenticating\<close>

definition CheckTimestamp :: "time \<Rightarrow> Service \<Rightarrow> string \<Rightarrow> sign_error option" where
  "CheckTimestamp t s timestampHeader =
     (case ParseInt timestampHeader of
        None \<Rightarrow> Some (TimestampUnparsable timestampHeader)
      | Some timestamp \<Rightarrow>
          let now = time_Unix t
          in if i64 (now + MaxSkewSec) \<le> timestamp then Some (TimestampFromFuture now timestamp)
             else if timestamp \<le> i64 (now - i64 (nc_cacheTTL (svc_nonceCache s) - MaxSkewSec))
               then Some (TimestampTooOld now timestamp)
             else None)"

definition SignRequestWithKey ::
  "(string \<Rightarrow> string \<Rightarrow> string) \<Rightarrow> time \<Rightarrow> string + string \<Rightarrow> Service \<Rightarrow> request \<Rightarrow> string \<Rightarrow> (request \<times> sign_error option) go" where
  "SignRequestWithKey hmac t hexDigest s r secretKey =
     go_bind (readBody r) (\<lambda>(r, bodyRes).
       case bodyRes of Inl e \<Rightarrow> Ret (r, Some e) | Inr bodyBytes \<Rightarrow>
       case extractHeaderValues r (cfg_HeadersToSign (svc_config s)) of Inl e \<Rightarrow> Ret (r, Some e) | Inr headerValues \<Rightarrow>
       case hexDigest of Inl e \<Rightarrow> Ret (r, Some (RandomError e)) | Inr nonce \<Rightarrow>
       let timestamp = FormatInt (time_Unix t);
           computedMAC = computeMAC hmac secretKey (cfg_SignVerbAndURI (svc_config s)) (req_Method r) (req_RequestURI r)
             timestamp nonce bodyBytes headerValues;
           h1 = Header_Set (req_Header r) (cfg_NonceHeaderName (svc_config s)) nonce;
           h2 = Header_Set h1 (cfg_TimestampHeaderName (svc_config s)) timestamp;
           h3 = Header_Set h2 (cfg_SignatureHeaderName (svc_config s)) (hex_EncodeToString computedMAC);
           h4 = Header_Set h3 (cfg_SignatureVersionHeaderName (svc_config s)) ''2''
       in Ret (r\<lparr>req_Header := h4\<rparr>, None))"

definition SignRequest ::
  "(string \<Rightarrow> string \<Rightarrow> string) \<Rightarrow> time \<Rightarrow> string + string \<Rightarrow> Service \<Rightarrow> request \<Rightarrow> (request \<times> sign_error option) go" where
  "SignRequest hmac t hexDigest s r =
     (case svc_secretKey s of
        None \<Rightarrow> Ret (r, Some NoKeyLoaded)
      | Some secretKey \<Rightarrow> SignRequestWithKey hmac t hexDigest s r secretKey)"

text \<open>The deferred function: one counter is incremented on every return.\<close>

definition emit_metric :: "Service \<Rightarrow> sign_error option \<Rightarrow> Service" where
  "emit_metric s err = s\<lparr>svc_metrics := svc_metrics s @ [if err = None then ''success'' else ''failure'']\<rparr>"

definition AuthenticateRequestWithKey ::
  "(string \<Rightarrow> string \<Rightarrow> string) \<Rightarrow> time \<Rightarrow> nonce_clock \<Rightarrow> Service \<Rightarrow> request \<Rightarrow> string \<Rightarrow>
   (Service \<times> request \<times> sign_error option) go" where
  "AuthenticateRequestWithKey hmac t tn s r secretKey =
     (let config = svc_config s;
          fail = (\<lambda>r e. Ret (emit_metric s (Some e), r, Some e));
          signature = Header_Get (req_Header r) (cfg_SignatureHeaderName config);
          nonce = Header_Get (req_Header r) (cfg_NonceHeaderName config);
          timestamp = Header_Get (req_Header r) (cfg_TimestampHeaderName config)
      in if signature = [] then fail r (HeaderNotFound (cfg_SignatureHeaderName config))
         else if nonce = [] then fail r (HeaderNotFound (cfg_NonceHeaderName config))
         else if timestamp = [] then fail r (HeaderNotFound (cfg_TimestampHeaderName config))
         else go_bind (readBody r) (\<lambda>(r, bodyRes).
           case bodyRes of Inl e \<Rightarrow> fail r e | Inr bodyBytes \<Rightarrow>
           case extractHeaderValues r (cfg_HeadersToSign config) of Inl e \<Rightarrow> fail r e | Inr headerValues \<Rightarrow>
           case checkMAC hmac secretKey (cfg_SignVerbAndURI config) (req_Method r) (req_RequestURI r)
             timestamp nonce bodyBytes headerValues signature of Some e \<Rightarrow> fail r e | None \<Rightarrow>
           case CheckTimestamp t s timestamp of Some e \<Rightarrow> fail r e | None \<Rightarrow>
           go_bind (NonceCache_InCache tn (svc_nonceCache s) nonce) (\<lambda>(nonceCache, inCache).
             let s' = s\<lparr>svc_nonceCache := nonceCache\<rparr>;
                 err = (if inCache then Some (NonceAlreadyInCache nonce) else None)
             in Ret (emit_metric s' err, r, err))))"

definition AuthenticateRequest ::
  "(string \<Rightarrow> string \<Rightarrow> string) \<Rightarrow> time \<Rightarrow> nonce_clock \<Rightarrow> Service \<Rightarrow> request \<Rightarrow> (Service \<times> request \<times> sign_error option) go" where
  "AuthenticateRequest hmac t tn s r =
     (case svc_secretKey s of
        None \<Rightarrow> Ret (s, r, Some NoKeyLoaded)
      | Some secretKey \<Rightarrow> AuthenticateRequestWithKey hmac t tn s r secretKey)"

section \<open>The bytes authenticated\<close>

text \<open>Every field is preceded by its length, so the fields can be read back from the bytes.\<close>

definition mac_frame :: "string \<Rightarrow> string" where
  "mac_frame s = ''|'' @ nat_digits (length s) @ ''|'' @ s"

lemma mac_frame_append_inj:
  assumes "mac_frame s @ r = mac_frame s' @ r'"
  shows "s = s' \<and> r = r'"
proof -
  have "nat_digits (length s) @ CHR ''|'' # (s @ r) = nat_digits (length s') @ CHR ''|'' # (s' @ r')"
    using assms by (simp add: mac_frame_def)
  then have "nat_digits (length s) = nat_digits (length s')" "s @ r = s' @ r'"
    by (simp_all only: append_sep_eq [OF nat_digits_no_bar nat_digits_no_bar])
  then show ?thesis by (auto dest: nat_digits_inj)
qed

lemma mac_frames_inj: "concat (map mac_frame l) = concat (map mac_frame l') \<Longrightarrow> l = l'"
proof (induction l arbitrary: l')
  case Nil
  then show ?case by (cases l') (simp_all add: mac_frame_def)
next
  case (Cons x l)
  show ?case
  proof (cases l')
    case Nil
    with Cons.prems show ?thesis by (simp add: mac_frame_def)
  next
    case (Cons y l'')
    with Cons.prems Cons.IH show ?thesis by (auto dest: mac_frame_append_inj)
  qed
qed

lemma mac_payload_frames:
  "CHR ''|'' # mac_payload b v u t n body hv =
     concat (map mac_frame ([t, n, body] @ (if b then [v, u] else []) @ hv))"
proof -
  have frame: "(\<lambda>headerValue. ''|'' @ nat_digits (length headerValue) @ ''|'' @ headerValue) = mac_frame"
    by (rule ext) (simp add: mac_frame_def)
  show ?thesis unfolding mac_payload_def frame by (simp add: mac_frame_def)
qed

text \<open>
  C3: the bytes that \<^verbatim>\<open>computeMAC\<close> authenticates determine the timestamp, the nonce, the body, the
  signed headers and, when the service signs them, the verb and the URI: no two different
  requests are authenticated by the same bytes.
\<close>

theorem mac_payload_injective:
  assumes "mac_payload b v u t n body hv = mac_payload b v' u' t' n' body' hv'"
  shows "t = t' \<and> n = n' \<and> body = body' \<and> hv = hv' \<and> (b \<longrightarrow> v = v' \<and> u = u')"
proof -
  have "concat (map mac_frame ([t, n, body] @ (if b then [v, u] else []) @ hv)) =
    concat (map mac_frame ([t', n', body'] @ (if b then [v', u'] else []) @ hv'))"
    using assms unfolding mac_payload_frames [symmetric] by simp
  from mac_frames_inj [OF this] show ?thesis by (simp split: if_splits)
qed

theorem mac_payload_injective_witness:
  "mac_payload True ''GET'' ''/a'' ''12'' ''ff'' [] [''x''] = ''2|12|2|ff|0||3|GET|2|/a|1|x'' \<and>
   (\<forall>n. mac_payload True ''GET'' ''/a'' ''12'' n [] [''x''] = mac_payload True ''GET'' ''/a'' ''12'' ''ff'' [] [''x''] \<longleftrightarrow> n = ''ff'')"
  using mac_payload_injective [of True "''GET''" "''/a''" "''12''" _ "[]" "[''x'']" "''GET''" "''/a''" "''12''" "''ff''" "[]" "[''x'']"]
  by (intro conjI allI iffI) (code_simp, blast+)

section \<open>The window of timestamps\<close>

definition clock_ok :: "time \<Rightarrow> bool" where
  "clock_ok t \<longleftrightarrow> - (2 ^ 62) \<le> time_Unix t \<and> time_Unix t \<le> 2 ^ 62"

lemma CheckTimestamp_window:
  assumes "nc_inv (svc_nonceCache s)" "clock_ok t"
  shows "CheckTimestamp t s h = None \<longleftrightarrow>
    (\<exists>ts. ParseInt h = Some ts \<and> time_Unix t - nc_cacheTTL (svc_nonceCache s) + 5 < ts \<and> ts < time_Unix t + 5)"
proof -
  let ?ttl = "nc_cacheTTL (svc_nonceCache s)"
  have ttl: "0 < ?ttl" "?ttl \<le> 9223372036" using assms(1) by (simp_all add: nc_inv_def)
  have "i64 (?ttl - 5) = ?ttl - 5" using ttl by (intro i64_small) auto
  moreover have "i64 (time_Unix t + 5) = time_Unix t + 5" "i64 (time_Unix t - (?ttl - 5)) = time_Unix t - (?ttl - 5)"
    using assms(2) ttl by (auto simp: clock_ok_def in_i64_def intro!: i64_id)
  ultimately show ?thesis
    by (auto simp: CheckTimestamp_def MaxSkewSec_def Let_def split: option.splits)
qed

section \<open>What an accepted request satisfies\<close>

text \<open>
  An authentication fails and leaves the nonce cache alone, or passes the checks of the code and
  of the timestamp and asks the nonce cache.
\<close>

lemma Authenticate_cases:
  assumes auth: "AuthenticateRequestWithKey hmac t tn s r key = Ret (s', r', err)"
  defines "c \<equiv> svc_config s"
  defines "nonce \<equiv> Header_Get (req_Header r) (cfg_NonceHeaderName c)"
  defines "ts \<equiv> Header_Get (req_Header r) (cfg_TimestampHeaderName c)"
  shows "svc_config s' = c" and "svc_nonceCache s' = svc_nonceCache s \<and> err \<noteq> None \<or>
    NonceCache_InCache tn (svc_nonceCache s) nonce = Ret (svc_nonceCache s', err \<noteq> None) \<and>
    CheckTimestamp t s ts = None \<and>
    (\<exists>body hv. readBody r = Ret (r', Inr body) \<and> extractHeaderValues r' (cfg_HeadersToSign c) = Inr hv \<and>
      checkMAC hmac key (cfg_SignVerbAndURI c) (req_Method r') (req_RequestURI r') ts nonce body hv
        (Header_Get (req_Header r) (cfg_SignatureHeaderName c)) = None)"
proof -
  let ?sig = "Header_Get (req_Header r) (cfg_SignatureHeaderName c)"
  let ?goal = "svc_config s' = c \<and> (svc_nonceCache s' = svc_nonceCache s \<and> err \<noteq> None \<or>
    NonceCache_InCache tn (svc_nonceCache s) nonce = Ret (svc_nonceCache s', err \<noteq> None) \<and>
    CheckTimestamp t s ts = None \<and>
    (\<exists>body hv. readBody r = Ret (r', Inr body) \<and> extractHeaderValues r' (cfg_HeadersToSign c) = Inr hv \<and>
      checkMAC hmac key (cfg_SignVerbAndURI c) (req_Method r') (req_RequestURI r') ts nonce body hv ?sig = None))"
  note unfold = AuthenticateRequestWithKey_def Let_def emit_metric_def
  have ?goal
  proof (cases "?sig = [] \<or> nonce = [] \<or> ts = []")
    case True
    with auth show ?thesis by (auto simp: unfold c_def nonce_def ts_def split: if_splits)
  next
    case False
    then have ne: "?sig \<noteq> []" "nonce \<noteq> []" "ts \<noteq> []" by auto
    note auth' = auth [unfolded unfold, folded c_def, folded nonce_def ts_def]
    show ?thesis
    proof (cases "readBody r")
      case (Panic p)
      with auth' ne show ?thesis by simp
    next
      case (Ret x)
      obtain r1 res where x: "readBody r = Ret (r1, res)" using Ret by (cases x) auto
      show ?thesis
      proof (cases res)
        case (Inl e)
        with auth' ne x show ?thesis by (auto simp: c_def)
      next
        case body: (Inr body)
        show ?thesis
        proof (cases "extractHeaderValues r1 (cfg_HeadersToSign c)")
          case (Inl e)
          with auth' ne x body show ?thesis by (auto simp: c_def)
        next
          case hv: (Inr hv)
          note a = auth' ne x body hv
          show ?thesis
          proof (cases "checkMAC hmac key (cfg_SignVerbAndURI c) (req_Method r1) (req_RequestURI r1) ts nonce body hv ?sig")
            case mac: None
            then show ?thesis
              using a by (cases "CheckTimestamp t s ts")
                (auto simp: c_def go_bind_Ret_iff split: if_splits dest: sym [of "Some _"])
          qed (use a in \<open>auto simp: c_def dest: sym [of "Some _"]\<close>)
        qed
      qed
    qed
  qed
  then show "svc_config s' = c" and "svc_nonceCache s' = svc_nonceCache s \<and> err \<noteq> None \<or>
    NonceCache_InCache tn (svc_nonceCache s) nonce = Ret (svc_nonceCache s', err \<noteq> None) \<and>
    CheckTimestamp t s ts = None \<and>
    (\<exists>body hv. readBody r = Ret (r', Inr body) \<and> extractHeaderValues r' (cfg_HeadersToSign c) = Inr hv \<and>
      checkMAC hmac key (cfg_SignVerbAndURI c) (req_Method r') (req_RequestURI r') ts nonce body hv ?sig = None)"
    by blast+
qed

lemma readBody_frame:
  assumes "readBody r = Ret (r', x)"
  shows "req_Method r' = req_Method r" "req_RequestURI r' = req_RequestURI r" "req_Header r' = req_Header r"
  using assms by (auto simp: readBody_def Let_def split: if_splits req_body.splits)

lemma extractHeaderValues_cong: "req_Header r = req_Header r' \<Longrightarrow> extractHeaderValues r ns = extractHeaderValues r' ns"
  by (induction ns) (auto split: option.splits sum.splits)

text \<open>
  C2: a request is accepted only if its signature is the code of its own timestamp, nonce, body
  and signed headers (and verb and URI) under the key, its timestamp lies less than 5 seconds
  ahead and less than the cache's time to live minus 5 seconds behind the clock, and its nonce is
  not live in the cache; the nonce is then cached.
\<close>

theorem Authenticate_sound:
  assumes "nc_inv (svc_nonceCache s)" and "clock_ok t"
    and "AuthenticateRequestWithKey hmac t tn s r key = Ret (s', r', None)"
  shows "let c = svc_config s;
             timestamp = Header_Get (req_Header r) (cfg_TimestampHeaderName c);
             nonce = Header_Get (req_Header r) (cfg_NonceHeaderName c)
    in (\<exists>body hv mac. readBody r = Ret (r', Inr body) \<and> extractHeaderValues r (cfg_HeadersToSign c) = Inr hv \<and>
          hex_DecodeString (Header_Get (req_Header r) (cfg_SignatureHeaderName c)) = Some mac \<and>
          mac = hmac key (mac_payload (cfg_SignVerbAndURI c) (req_Method r) (req_RequestURI r) timestamp nonce body hv)) \<and>
       (\<exists>ts. ParseInt timestamp = Some ts \<and>
          time_Unix t - (nc_cacheTTL (svc_nonceCache s) - 5) < ts \<and> ts < time_Unix t + 5) \<and>
       ttl_live (time_Unix (get1 tn)) (ttl_abs (nc_cache (svc_nonceCache s)) nonce) = None \<and>
       ttl_abs (nc_cache (svc_nonceCache s')) nonce =
         Some (IStr [], time_Unix (set1 tn) + nc_cacheTTL (svc_nonceCache s))"
proof -
  let ?c = "svc_config s"
  let ?ts = "Header_Get (req_Header r) (cfg_TimestampHeaderName ?c)"
  let ?nonce = "Header_Get (req_Header r) (cfg_NonceHeaderName ?c)"
  let ?sig = "Header_Get (req_Header r) (cfg_SignatureHeaderName ?c)"
  obtain body hv where a: "readBody r = Ret (r', Inr body)" "extractHeaderValues r' (cfg_HeadersToSign ?c) = Inr hv"
    "checkMAC hmac key (cfg_SignVerbAndURI ?c) (req_Method r') (req_RequestURI r') ?ts ?nonce body hv ?sig = None"
    "CheckTimestamp t s ?ts = None" "NonceCache_InCache tn (svc_nonceCache s) ?nonce = Ret (svc_nonceCache s', False)"
    using Authenticate_cases(2) [OF assms(3)] by auto
  note fr = readBody_frame [OF a(1)]
  have "extractHeaderValues r (cfg_HeadersToSign ?c) = Inr hv"
    using a(2) extractHeaderValues_cong [OF fr(3)] by simp
  moreover have "hex_DecodeString ?sig =
    Some (hmac key (mac_payload (cfg_SignVerbAndURI ?c) (req_Method r) (req_RequestURI r) ?ts ?nonce body hv))"
    using a(3) fr by (auto simp: checkMAC_def computeMAC_def split: option.splits if_splits)
  moreover have "\<exists>ts. ParseInt ?ts = Some ts \<and>
      time_Unix t - (nc_cacheTTL (svc_nonceCache s) - 5) < ts \<and> ts < time_Unix t + 5"
    using a(4) CheckTimestamp_window [OF assms(1,2), of ?ts] by (auto simp: algebra_simps)
  moreover have "ttl_live (time_Unix (get1 tn)) (ttl_abs (nc_cache (svc_nonceCache s)) ?nonce) = None"
    "ttl_abs (nc_cache (svc_nonceCache s')) ?nonce =
      Some (IStr [], time_Unix (set1 tn) + nc_cacheTTL (svc_nonceCache s))"
    using InCache_spec [OF assms(1), of tn ?nonce] a(5) by simp_all
  ultimately show ?thesis using a(1) unfolding Let_def by blast
qed

section \<open>Signing and authenticating agree\<close>

text \<open>
  The four headers of the signature are different from each other and from the signed headers.
  Header names are compared in their canonical form.
\<close>

definition signature_keys :: "Config \<Rightarrow> string list" where
  "signature_keys c = map CanonicalHeaderKey
     [cfg_NonceHeaderName c, cfg_TimestampHeaderName c, cfg_SignatureHeaderName c, cfg_SignatureVersionHeaderName c]"

definition headers_distinct :: "Config \<Rightarrow> bool" where
  "headers_distinct c \<longleftrightarrow>
     distinct (signature_keys c) \<and>
     list_all (\<lambda>h. h \<notin> set (signature_keys c) \<and> CanonicalHeaderKey h \<notin> set (signature_keys c)) (cfg_HeadersToSign c)"

lemma headers_distinct_signed:
  assumes "headers_distinct c" "CanonicalHeaderKey k \<in> set (signature_keys c)"
  shows "list_all (\<lambda>h. h \<noteq> CanonicalHeaderKey k \<and> CanonicalHeaderKey h \<noteq> CanonicalHeaderKey k) (cfg_HeadersToSign c)"
  using assms unfolding headers_distinct_def list_all_iff by metis

lemma extractHeaderValues_Set:
  assumes "list_all (\<lambda>h. h \<noteq> CanonicalHeaderKey key \<and> CanonicalHeaderKey h \<noteq> CanonicalHeaderKey key) names"
    and "req_Header r' = Header_Set (req_Header r) key v"
  shows "extractHeaderValues r' names = extractHeaderValues r names"
  using assms(1)
proof (induction names)
  case (Cons h names)
  then have "map_of (req_Header r') h = map_of (req_Header r) h" "Header_Get (req_Header r') h = Header_Get (req_Header r) h"
    using assms(2) by (auto simp: Header_lookup_Set Header_Get_Set)
  moreover have "extractHeaderValues r' names = extractHeaderValues r names" using Cons by simp
  ultimately show ?case by (simp only: extractHeaderValues.simps)
qed simp

lemma SignRequest_result:
  assumes sign: "SignRequestWithKey hmac t0 (Inr nonce) s r key = Ret (r1, None)" and d: "headers_distinct (svc_config s)"
  defines "c \<equiv> svc_config s"
  shows "Header_Get (req_Header r1) (cfg_NonceHeaderName c) = nonce"
    and "Header_Get (req_Header r1) (cfg_TimestampHeaderName c) = FormatInt (time_Unix t0)"
    and "\<exists>body hv. readBody r1 = Ret (r1, Inr body) \<and> extractHeaderValues r1 (cfg_HeadersToSign c) = Inr hv \<and>
      Header_Get (req_Header r1) (cfg_SignatureHeaderName c) = hex_EncodeToString (computeMAC hmac key (cfg_SignVerbAndURI c)
        (req_Method r1) (req_RequestURI r1) (FormatInt (time_Unix t0)) nonce body hv)"
proof -
  obtain r0 res where res: "readBody r = Ret (r0, res)"
    using sign by (auto simp: SignRequestWithKey_def go_bind_Ret_iff)
  then obtain body where body: "res = Inr body" using sign by (cases res) (auto simp: SignRequestWithKey_def)
  obtain hv where hv: "extractHeaderValues r0 (cfg_HeadersToSign c) = Inr hv"
    using sign res body by (cases "extractHeaderValues r0 (cfg_HeadersToSign c)") (auto simp: SignRequestWithKey_def c_def)
  note r0 = res [unfolded body] hv
  define mac where "mac = computeMAC hmac key (cfg_SignVerbAndURI c) (req_Method r0) (req_RequestURI r0)
    (FormatInt (time_Unix t0)) nonce body hv"
  define h1 where "h1 = Header_Set (req_Header r0) (cfg_NonceHeaderName c) nonce"
  define h2 where "h2 = Header_Set h1 (cfg_TimestampHeaderName c) (FormatInt (time_Unix t0))"
  define h3 where "h3 = Header_Set h2 (cfg_SignatureHeaderName c) (hex_EncodeToString mac)"
  define h4 where "h4 = Header_Set h3 (cfg_SignatureVersionHeaderName c) ''2''"
  note h = h1_def h2_def h3_def h4_def
  have r1: "r1 = r0\<lparr>req_Header := h4\<rparr>"
    using sign r0 by (simp add: SignRequestWithKey_def h mac_def c_def Let_def)
  have D: "distinct (signature_keys c)" using d by (simp only: headers_distinct_def c_def)
  note D' = D [unfolded signature_keys_def, simplified]
  have L: "list_all (\<lambda>h. h \<noteq> CanonicalHeaderKey k \<and> CanonicalHeaderKey h \<noteq> CanonicalHeaderKey k) (cfg_HeadersToSign c)"
    if "k \<in> {cfg_NonceHeaderName c, cfg_TimestampHeaderName c, cfg_SignatureHeaderName c, cfg_SignatureVersionHeaderName c}" for k
    using that d by (intro headers_distinct_signed) (auto simp: signature_keys_def c_def)
  show "Header_Get (req_Header r1) (cfg_NonceHeaderName c) = nonce"
    "Header_Get (req_Header r1) (cfg_TimestampHeaderName c) = FormatInt (time_Unix t0)"
    using D' by (auto simp: r1 h Header_Get_Set)
  have "Header_Get (req_Header r1) (cfg_SignatureHeaderName c) = hex_EncodeToString mac"
    using D' by (auto simp: r1 h Header_Get_Set)
  moreover have "extractHeaderValues r1 (cfg_HeadersToSign c) = Inr hv"
    using L r0(2) extractHeaderValues_Set [of "cfg_NonceHeaderName c" "cfg_HeadersToSign c" "r0\<lparr>req_Header := h1\<rparr>" r0]
      extractHeaderValues_Set [of "cfg_TimestampHeaderName c" "cfg_HeadersToSign c" "r0\<lparr>req_Header := h2\<rparr>" "r0\<lparr>req_Header := h1\<rparr>"]
      extractHeaderValues_Set [of "cfg_SignatureHeaderName c" "cfg_HeadersToSign c" "r0\<lparr>req_Header := h3\<rparr>" "r0\<lparr>req_Header := h2\<rparr>"]
      extractHeaderValues_Set [of "cfg_SignatureVersionHeaderName c" "cfg_HeadersToSign c" r1 "r0\<lparr>req_Header := h3\<rparr>"]
    by (simp add: r1 h)
  moreover have "readBody r1 = Ret (r1, Inr body)"
    using r0(1) by (auto simp: readBody_def r1 Let_def split: if_splits req_body.splits option.splits)
  ultimately show "\<exists>body hv. readBody r1 = Ret (r1, Inr body) \<and> extractHeaderValues r1 (cfg_HeadersToSign c) = Inr hv \<and>
      Header_Get (req_Header r1) (cfg_SignatureHeaderName c) = hex_EncodeToString (computeMAC hmac key (cfg_SignVerbAndURI c)
        (req_Method r1) (req_RequestURI r1) (FormatInt (time_Unix t0)) nonce body hv)"
    by (auto simp: mac_def r1)
qed

lemma signed_authenticates:
  assumes "SignRequestWithKey hmac t0 (Inr nonce) s r key = Ret (r1, None)"
    and "headers_distinct (svc_config s)" and "svc_config s' = svc_config s"
    and "nonce \<noteq> []" and "\<And>x. hmac key x \<noteq> []"
    and "nc_inv (svc_nonceCache s')" and "clock_ok t" and "in_i64 (time_Unix t0)"
    and "time_Unix t - nc_cacheTTL (svc_nonceCache s') + 5 < time_Unix t0" and "time_Unix t0 < time_Unix t + 5"
    and "ttl_live (time_Unix (get1 tn)) (ttl_abs (nc_cache (svc_nonceCache s')) nonce) = None"
  shows "\<exists>s2. AuthenticateRequestWithKey hmac t tn s' r1 key = Ret (s2, r1, None)"
proof -
  let ?c = "svc_config s"
  note h = SignRequest_result [OF assms(1,2)]
  obtain body hv where b: "readBody r1 = Ret (r1, Inr body)" "extractHeaderValues r1 (cfg_HeadersToSign ?c) = Inr hv"
    "Header_Get (req_Header r1) (cfg_SignatureHeaderName ?c) = hex_EncodeToString (computeMAC hmac key (cfg_SignVerbAndURI ?c)
        (req_Method r1) (req_RequestURI r1) (FormatInt (time_Unix t0)) nonce body hv)"
    using h(3) by blast
  have ts: "CheckTimestamp t s' (FormatInt (time_Unix t0)) = None"
    using CheckTimestamp_window [OF assms(6,7)] ParseInt_FormatInt [OF assms(8)] assms(9,10) by auto
  obtain nc where nc: "NonceCache_InCache tn (svc_nonceCache s') nonce = Ret (nc, False)"
    using InCache_spec [OF assms(6), of tn nonce] assms(11) by auto
  have mac: "computeMAC hmac key (cfg_SignVerbAndURI ?c) (req_Method r1) (req_RequestURI r1) (FormatInt (time_Unix t0)) nonce body hv \<noteq> []"
    using assms(5) by (simp add: computeMAC_def)
  show ?thesis
    using b h(1,2) ts nc mac assms(3,4)
    by (simp add: AuthenticateRequestWithKey_def Let_def checkMAC_def hex_Decode_Encode)
qed

text \<open>
  C4: a request signed by one service is authenticated by another with the same configuration and
  key, whatever its body, verb, URI and headers, if the clocks differ by less than the window
  allows and the nonce is new; the request itself is left as it was signed.
\<close>

theorem Sign_then_Authenticate:
  assumes "SignRequestWithKey hmac t0 (Inr nonce) s r key = Ret (r1, None)"
    and "headers_distinct (svc_config s)" and "svc_config s' = svc_config s"
    and "nonce \<noteq> []" and "\<And>x. hmac key x \<noteq> []"
    and "nc_inv (svc_nonceCache s')" and "clock_ok t" and "in_i64 (time_Unix t0)"
    and "time_Unix t - nc_cacheTTL (svc_nonceCache s') + 5 < time_Unix t0" and "time_Unix t0 < time_Unix t + 5"
    and "ttl_live (time_Unix (get1 tn)) (ttl_abs (nc_cache (svc_nonceCache s')) nonce) = None"
  shows "\<exists>s2. AuthenticateRequestWithKey hmac t tn s' r1 key = Ret (s2, r1, None)"
  using assms by (rule signed_authenticates)

text \<open>An example: a service with the default configuration that also signs a header.\<close>

definition ex_config :: Config where
  "ex_config = set_defaults
     \<lparr>cfg_KeyPath = [], cfg_KeyBytes = Some ''k'', cfg_HeadersToSign = [''Host''], cfg_SignVerbAndURI = True,
      cfg_NonceCacheCapacity = 0, cfg_NonceCacheTimeout = 0, cfg_EmitStats = False, cfg_StatsdHost = [],
      cfg_StatsdPort = 0, cfg_StatsdPrefix = [], cfg_NonceHeaderName = [], cfg_TimestampHeaderName = [],
      cfg_SignatureHeaderName = [], cfg_SignatureVersionHeaderName = []\<rparr>"

definition ex_service :: Service where
  "ex_service = \<lparr>svc_config = ex_config, svc_nonceCache = NewNonceCache 500000 100, svc_secretKey = Some ''k'',
     svc_metricsClient = None, svc_metrics = []\<rparr>"

definition ex_request :: request where
  "ex_request = \<lparr>req_Method = ''POST'', req_RequestURI = ''/x'', req_Header = [(''Host'', [''h''])],
     req_ContentLength = 2, req_Body = Body ''hi'' None\<rparr>"

lemma ex_config_distinct: "headers_distinct ex_config"
  by code_simp

lemma ex_sign: "\<exists>r1. SignRequestWithKey (\<lambda>k m. k @ m) 0 (Inr ''ab'') ex_service ex_request ''k'' = Ret (r1, None)"
  by (simp add: SignRequestWithKey_def ex_service_def ex_request_def readBody_def MinRead_def maxAlloc_def
      ex_config_def set_defaults_def Let_def)

lemma ex_service_ok: "nc_inv (svc_nonceCache ex_service)" "nc_cacheTTL (svc_nonceCache ex_service) = 100"
  "ttl_abs (nc_cache (svc_nonceCache ex_service)) = Map.empty" "ttl_capacity (nc_cache (svc_nonceCache ex_service)) = 500000"
proof -
  show "nc_inv (svc_nonceCache ex_service)" by (simp add: ex_service_def NewNonceCache_inv)
  show "nc_cacheTTL (svc_nonceCache ex_service) = 100"
    "ttl_abs (nc_cache (svc_nonceCache ex_service)) = Map.empty"
    by (simp_all add: ex_service_def NewNonceCache_def NewTTLMap_inv(2))
  show "ttl_capacity (nc_cache (svc_nonceCache ex_service)) = 500000"
    by (simp add: ex_service_def NewNonceCache_def NewTTLMap_def)
qed

lemma ex_accept:
  "\<exists>r1 s2. SignRequestWithKey (\<lambda>k m. k @ m) 0 (Inr ''ab'') ex_service ex_request ''k'' = Ret (r1, None) \<and>
     AuthenticateRequestWithKey (\<lambda>k m. k @ m) (4 * Second) tn ex_service r1 ''k'' = Ret (s2, r1, None)"
proof -
  obtain r1 where r1: "SignRequestWithKey (\<lambda>k m. k @ m) 0 (Inr ''ab'') ex_service ex_request ''k'' = Ret (r1, None)"
    using ex_sign by blast
  have "\<exists>s2. AuthenticateRequestWithKey (\<lambda>k m. k @ m) (4 * Second) tn ex_service r1 ''k'' = Ret (s2, r1, None)"
    by (rule signed_authenticates [OF r1])
      (simp_all add: ex_service_ok ttl_live_def clock_ok_def in_i64_def time_Unix_def Second_def,
       simp add: ex_service_def ex_config_distinct)
  with r1 show ?thesis by blast
qed

theorem Sign_then_Authenticate_witness:
  "\<exists>r1 s2. SignRequestWithKey (\<lambda>k m. k @ m) 0 (Inr ''ab'') ex_service ex_request ''k'' = Ret (r1, None) \<and>
     AuthenticateRequestWithKey (\<lambda>k m. k @ m) (3 * Second) \<lparr>get1 = 0, get2 = 0, set1 = 0, set2 = 0\<rparr> ex_service r1 ''k'' =
       Ret (s2, r1, None)"
proof -
  obtain r1 where r1: "SignRequestWithKey (\<lambda>k m. k @ m) 0 (Inr ''ab'') ex_service ex_request ''k'' = Ret (r1, None)"
    using ex_sign by blast
  have "\<exists>s2. AuthenticateRequestWithKey (\<lambda>k m. k @ m) (3 * Second) \<lparr>get1 = 0, get2 = 0, set1 = 0, set2 = 0\<rparr> ex_service r1 ''k'' =
    Ret (s2, r1, None)"
    by (rule Sign_then_Authenticate [OF r1])
      (simp_all add: ex_service_ok ttl_live_def clock_ok_def in_i64_def time_Unix_def Second_def,
       simp add: ex_service_def ex_config_distinct)
  with r1 show ?thesis by blast
qed

theorem Authenticate_sound_witness:
  "\<exists>r1 s2. SignRequestWithKey (\<lambda>k m. k @ m) 0 (Inr ''ab'') ex_service ex_request ''k'' = Ret (r1, None) \<and>
     AuthenticateRequestWithKey (\<lambda>k m. k @ m) (4 * Second) \<lparr>get1 = 0, get2 = 0, set1 = 0, set2 = 0\<rparr> ex_service r1 ''k'' =
       Ret (s2, r1, None) \<and>
     ttl_abs (nc_cache (svc_nonceCache s2)) (Header_Get (req_Header r1) (cfg_NonceHeaderName ex_config)) = Some (IStr [], 100)"
proof -
  let ?t = "\<lparr>get1 = 0, get2 = 0, set1 = 0, set2 = 0\<rparr>"
  obtain r1 s2 where a: "SignRequestWithKey (\<lambda>k m. k @ m) 0 (Inr ''ab'') ex_service ex_request ''k'' = Ret (r1, None)"
    "AuthenticateRequestWithKey (\<lambda>k m. k @ m) (4 * Second) ?t ex_service r1 ''k'' = Ret (s2, r1, None)"
    using ex_accept by blast
  have c: "clock_ok (4 * Second)" "svc_config ex_service = ex_config"
    by (simp_all add: clock_ok_def Second_def time_Unix_def ex_service_def)
  show ?thesis
    using a Authenticate_sound [OF ex_service_ok(1) c(1) a(2)] unfolding Let_def c(2) ex_service_ok(2)
    by (auto simp: time_Unix_def)
qed

section \<open>No replay\<close>

text \<open>
  Authentications in the order in which they reach the nonce cache, each with its readings of the
  clock; the server recovers from a panic of a handler.
\<close>

type_synonym auth_call = "time \<times> nonce_clock \<times> request \<times> string"

text \<open>The second reading of the clock in a call: the lookup of the nonce.\<close>

definition lookup_time :: "auth_call \<Rightarrow> time" where
  "lookup_time call = get1 (fst (snd call))"

definition auth_step :: "(string \<Rightarrow> string \<Rightarrow> string) \<Rightarrow> Service \<Rightarrow> auth_call \<Rightarrow> Service" where
  "auth_step hmac s call =
     (case call of (t, tn, r, key) \<Rightarrow>
        (case AuthenticateRequestWithKey hmac t tn s r key of Panic _ \<Rightarrow> s | Ret (s', _) \<Rightarrow> s'))"

definition auth_run :: "(string \<Rightarrow> string \<Rightarrow> string) \<Rightarrow> auth_call list \<Rightarrow> Service \<Rightarrow> Service" where
  "auth_run hmac calls s = foldl (auth_step hmac) s calls"

lemma auth_step_cache:
  "svc_config (auth_step hmac s (t, tn, r, key)) = svc_config s \<and>
   (svc_nonceCache (auth_step hmac s (t, tn, r, key)) = svc_nonceCache s \<or>
    (\<exists>j b. NonceCache_InCache tn (svc_nonceCache s) j = Ret (svc_nonceCache (auth_step hmac s (t, tn, r, key)), b)))"
proof (cases "AuthenticateRequestWithKey hmac t tn s r key")
  case (Ret x)
  obtain s' r' err where x: "AuthenticateRequestWithKey hmac t tn s r key = Ret (s', r', err)"
    using Ret by (cases x) auto
  then have "auth_step hmac s (t, tn, r, key) = s'" by (simp add: auth_step_def)
  then show ?thesis using Authenticate_cases [OF x] by auto
qed (simp add: auth_step_def)

lemma auth_run_keeps:
  "nc_inv (svc_nonceCache s) \<Longrightarrow>
   svc_config (auth_run hmac calls s) = svc_config s \<and> nc_inv (svc_nonceCache (auth_run hmac calls s)) \<and>
   nc_cacheTTL (svc_nonceCache (auth_run hmac calls s)) = nc_cacheTTL (svc_nonceCache s)"
proof (induction calls arbitrary: s)
  case (Cons call calls)
  obtain t tn r key where call: "call = (t, tn, r, key)" by (cases call)
  let ?s = "auth_step hmac s call"
  have "svc_config ?s = svc_config s \<and> nc_inv (svc_nonceCache ?s) \<and>
    nc_cacheTTL (svc_nonceCache ?s) = nc_cacheTTL (svc_nonceCache s)"
  proof (cases "svc_nonceCache ?s = svc_nonceCache s")
    case True
    then show ?thesis using auth_step_cache [of hmac s t tn r key] Cons.prems call by auto
  next
    case False
    then obtain j b where j: "NonceCache_InCache tn (svc_nonceCache s) j = Ret (svc_nonceCache ?s, b)"
      using auth_step_cache [of hmac s t tn r key] call by auto
    then show ?thesis
      using InCache_spec [OF Cons.prems, of tn j] auth_step_cache [of hmac s t tn r key] call by auto
  qed
  with Cons.IH [of ?s] show ?case by (simp add: auth_run_def)
qed (simp add: auth_run_def)

lemma auth_run_survives:
  assumes "nc_inv (svc_nonceCache s)" "ttl_abs (nc_cache (svc_nonceCache s)) k = Some (v, e)"
    and "list_all (\<lambda>call. time_Unix (lookup_time call) < e) calls"
    and "int (card (ttl_newer (ttl_abs (nc_cache (svc_nonceCache s))) e) + length calls) \<le> ttl_capacity (nc_cache (svc_nonceCache s))"
  shows "ttl_abs (nc_cache (svc_nonceCache (auth_run hmac calls s))) k = Some (v, e)"
  using assms
proof (induction calls arbitrary: s)
  case (Cons call calls)
  obtain t tn r key where call: "call = (t, tn, r, key)" by (cases call)
  let ?s = "auth_step hmac s call"
  have before: "time_Unix (get1 tn) < e" and rest: "list_all (\<lambda>call. time_Unix (lookup_time call) < e) calls"
    and room: "int (card (ttl_newer (ttl_abs (nc_cache (svc_nonceCache s))) e)) < ttl_capacity (nc_cache (svc_nonceCache s))"
    using Cons.prems(3,4) by (auto simp: call lookup_time_def)
  have "nc_inv (svc_nonceCache ?s) \<and> ttl_abs (nc_cache (svc_nonceCache ?s)) k = Some (v, e) \<and>
    ttl_capacity (nc_cache (svc_nonceCache ?s)) = ttl_capacity (nc_cache (svc_nonceCache s)) \<and>
    card (ttl_newer (ttl_abs (nc_cache (svc_nonceCache ?s))) e) \<le> Suc (card (ttl_newer (ttl_abs (nc_cache (svc_nonceCache s))) e))"
  proof (cases "svc_nonceCache ?s = svc_nonceCache s")
    case False
    then obtain j b where j: "NonceCache_InCache tn (svc_nonceCache s) j = Ret (svc_nonceCache ?s, b)"
      using auth_step_cache [of hmac s t tn r key] call by auto
    from InCache_spec [OF Cons.prems(1), of tn j] j
    have "nc_inv (svc_nonceCache ?s)" "ttl_capacity (nc_cache (svc_nonceCache ?s)) = ttl_capacity (nc_cache (svc_nonceCache s))"
      by auto
    with InCache_survives [OF Cons.prems(1) j Cons.prems(2) before room] show ?thesis by simp
  qed (use Cons.prems in simp)
  then show ?case
    using Cons.IH [of ?s] rest Cons.prems(4) by (simp add: auth_run_def)
qed (simp add: auth_run_def)

text \<open>
  C1: once a request is accepted, no request with its nonce and timestamp is ever accepted again,
  whatever its other contents and however many authentications happen meanwhile within the
  capacity of the nonce cache: while the nonce is cached it is refused for the nonce, after that
  for the timestamp. The clock does not go back, and a call looks its nonce up at most a second
  after it checked the timestamp.
\<close>

theorem no_replay:
  assumes "nc_inv (svc_nonceCache s)" and "clock_ok t1" and "clock_ok t2"
    and "AuthenticateRequestWithKey hmac t1 n1 s r key = Ret (s1, r1, None)"
    and "int (card (ttl_newer (ttl_abs (nc_cache (svc_nonceCache s1))) (time_Unix (set1 n1) + nc_cacheTTL (svc_nonceCache s))) +
           length calls) \<le> ttl_capacity (nc_cache (svc_nonceCache s1))"
    and "t1 \<le> set1 n1" and "list_all (\<lambda>call. lookup_time call \<le> get1 n2) calls"
    and "time_Unix (get1 n2) \<le> time_Unix t2 + 1"
    and "Header_Get (req_Header r') (cfg_NonceHeaderName (svc_config s)) = Header_Get (req_Header r) (cfg_NonceHeaderName (svc_config s))"
    and "Header_Get (req_Header r') (cfg_TimestampHeaderName (svc_config s)) = Header_Get (req_Header r) (cfg_TimestampHeaderName (svc_config s))"
  shows "AuthenticateRequestWithKey hmac t2 n2 (auth_run hmac calls s1) r' key' \<noteq> Ret (s3, r3, None)"
proof
  let ?s2 = "auth_run hmac calls s1" and ?ttl = "nc_cacheTTL (svc_nonceCache s)"
  let ?nonce = "Header_Get (req_Header r) (cfg_NonceHeaderName (svc_config s))"
  let ?ts = "Header_Get (req_Header r) (cfg_TimestampHeaderName (svc_config s))"
  let ?e = "time_Unix (set1 n1) + ?ttl"
  assume accept: "AuthenticateRequestWithKey hmac t2 n2 ?s2 r' key' = Ret (s3, r3, None)"
  have first: "NonceCache_InCache n1 (svc_nonceCache s) ?nonce = Ret (svc_nonceCache s1, False)" "CheckTimestamp t1 s ?ts = None"
    "svc_config s1 = svc_config s"
    using Authenticate_cases [OF assms(4)] by auto
  have s1: "nc_inv (svc_nonceCache s1)" "nc_cacheTTL (svc_nonceCache s1) = ?ttl"
    "ttl_abs (nc_cache (svc_nonceCache s1)) ?nonce = Some (IStr [], ?e)"
    using InCache_spec [OF assms(1), of n1 ?nonce] first(1) by simp_all
  note s2 = auth_run_keeps [OF s1(1), of hmac calls]
  have second: "NonceCache_InCache n2 (svc_nonceCache ?s2) ?nonce = Ret (svc_nonceCache s3, False)" "CheckTimestamp t2 ?s2 ?ts = None"
    using Authenticate_cases(2) [OF accept] s2 assms(9,10) first(3) by auto
  obtain ts where "ParseInt ?ts = Some ts" "ts < time_Unix t1 + 5"
    using first(2) CheckTimestamp_window [OF assms(1,2), of ?ts] by blast
  moreover obtain ts' where "ParseInt ?ts = Some ts'" "time_Unix t2 - ?ttl + 5 < ts'"
    using second(2) CheckTimestamp_window [OF conjunct1 [OF conjunct2 [OF s2]] assms(3), of ?ts] s2 s1(2) by auto
  ultimately have "time_Unix t2 \<le> time_Unix t1 + ?ttl - 2" by simp
  then have lookup: "time_Unix (get1 n2) < ?e"
    using assms(8) time_Unix_mono [OF assms(6)] by simp
  have "list_all (\<lambda>call. time_Unix (lookup_time call) < ?e) calls"
    using assms(7) by (rule list.pred_mono_strong) (use lookup in \<open>blast dest: time_Unix_mono intro: le_less_trans\<close>)
  from auth_run_survives [OF s1(1,3) this assms(5)]
  have "ttl_live (time_Unix (get1 n2)) (ttl_abs (nc_cache (svc_nonceCache ?s2)) ?nonce) \<noteq> None"
    using lookup by (simp add: ttl_live_def)
  then show False using InCache_spec [of "svc_nonceCache ?s2" n2 ?nonce] s2 second(1) by auto
qed

theorem no_replay_witness:
  "\<exists>r1 s2. AuthenticateRequestWithKey (\<lambda>k m. k @ m) (4 * Second) \<lparr>get1 = 4 * Second, get2 = 4 * Second, set1 = 4 * Second, set2 = 4 * Second\<rparr>
       ex_service r1 ''k'' = Ret (s2, r1, None) \<and>
     (\<forall>s3 r3. AuthenticateRequestWithKey (\<lambda>k m. k @ m) (5 * Second) \<lparr>get1 = 6 * Second, get2 = 0, set1 = 0, set2 = 0\<rparr>
       (auth_run (\<lambda>k m. k @ m) [] s2) r1 ''k'' \<noteq> Ret (s3, r3, None))"
proof -
  let ?hmac = "\<lambda>k m. k @ m" and ?t = "\<lparr>get1 = 4 * Second, get2 = 4 * Second, set1 = 4 * Second, set2 = 4 * Second\<rparr>"
  obtain r1 s2 where a: "AuthenticateRequestWithKey ?hmac (4 * Second) ?t ex_service r1 ''k'' = Ret (s2, r1, None)"
    using ex_accept by blast
  obtain nonce where "NonceCache_InCache ?t (svc_nonceCache ex_service) nonce = Ret (svc_nonceCache s2, False)"
    using Authenticate_cases(2) [OF a] by auto
  then have nc: "ttl_abs (nc_cache (svc_nonceCache s2)) = [nonce \<mapsto> (IStr [], 104)]"
    "ttl_capacity (nc_cache (svc_nonceCache s2)) = 500000"
    using InCache_first [OF ex_service_ok(1,3), of ?t nonce]
    by (simp_all add: ex_service_ok time_Unix_def Second_def)
  have "ttl_newer (ttl_abs (nc_cache (svc_nonceCache s2))) 104 = {nonce}"
    by (auto simp: nc ttl_newer_def)
  then have room: "int (card (ttl_newer (ttl_abs (nc_cache (svc_nonceCache s2)))
      (time_Unix (set1 ?t) + nc_cacheTTL (svc_nonceCache ex_service))) + length ([] :: auth_call list)) \<le>
      ttl_capacity (nc_cache (svc_nonceCache s2))"
    by (simp add: nc ex_service_ok time_Unix_def Second_def)
  have c: "clock_ok (4 * Second)" "clock_ok (5 * Second)" by (simp_all add: clock_ok_def Second_def time_Unix_def)
  show ?thesis
    using a no_replay [OF ex_service_ok(1) c a room, of "\<lparr>get1 = 6 * Second, get2 = 0, set1 = 0, set2 = 0\<rparr>" r1 "''k''"]
    by (auto simp: time_Unix_def Second_def)
qed

section \<open>A created service is usable\<close>

text \<open>
  A service that \<^verbatim>\<open>NewWithProviders\<close> returns has a key, names for all four headers, and an
  empty nonce cache with a capacity of at least one and a positive time to live, which satisfies
  the cache's invariant unless the configured timeout overflows a duration; creation fails only
  for a missing configuration, key or key file, host name or metrics client.
\<close>

theorem NewWithProviders_usable:
  "case NewWithProviders env (Some config) of
     (config', Inr s) \<Rightarrow>
       config' = Some (svc_config s) \<and> svc_secretKey s \<noteq> None \<and>
       list_all (\<lambda>h. h \<noteq> []) [cfg_NonceHeaderName (svc_config s), cfg_TimestampHeaderName (svc_config s),
         cfg_SignatureHeaderName (svc_config s), cfg_SignatureVersionHeaderName (svc_config s)] \<and>
       1 \<le> ttl_capacity (nc_cache (svc_nonceCache s)) \<and> 1 \<le> nc_cacheTTL (svc_nonceCache s) \<and>
       ttl_abs (nc_cache (svc_nonceCache s)) = Map.empty \<and>
       nc_inv (svc_nonceCache s) = (cfg_NonceCacheTimeout config \<le> 9223372036)
   | (_, Inl e) \<Rightarrow>
       e = NoKeyBytes \<and> cfg_KeyPath config = [] \<and> cfg_KeyBytes config = None \<or>
       (\<exists>x. e = KeyFileError x \<and> env_ReadFile env (cfg_KeyPath config) = Inl x) \<or>
       cfg_EmitStats config \<and> (\<exists>x. e = HostnameError x \<or> e = MetricsError x)"
proof -
  let ?c = "set_defaults config"
  have names: "list_all (\<lambda>h. h \<noteq> []) [cfg_NonceHeaderName ?c, cfg_TimestampHeaderName ?c,
    cfg_SignatureHeaderName ?c, cfg_SignatureVersionHeaderName ?c]"
    by (simp add: set_defaults_def XMailgunNonce_def XMailgunTimestamp_def XMailgunSignature_def XMailgunSignatureVersion_def)
  let ?n = "NewNonceCache (cfg_NonceCacheCapacity ?c) (cfg_NonceCacheTimeout ?c)"
  have cache: "1 \<le> ttl_capacity (nc_cache ?n)" "1 \<le> nc_cacheTTL ?n" "ttl_abs (nc_cache ?n) = Map.empty"
    "nc_inv ?n = (cfg_NonceCacheTimeout config \<le> 9223372036)"
    by (simp_all add: nc_inv_def NewNonceCache_def NewTTLMap_inv) (auto simp: NewTTLMap_def set_defaults_def CacheCapacity_def CacheTimeout_def)
  have client: "cfg_EmitStats config \<and> (\<exists>x. e = HostnameError x \<or> e = MetricsError x)" if "metrics_client env ?c = Inl e" for e
    using that by (auto simp: metrics_client_def set_defaults_def Let_def split: if_splits sum.splits option.splits)
  have same: "cfg_KeyPath ?c = cfg_KeyPath config" "cfg_KeyBytes ?c = cfg_KeyBytes config" by (simp_all add: set_defaults_def)
  show ?thesis
  proof (cases "metrics_client env ?c")
    case (Inl e)
    then show ?thesis using client by (simp add: NewWithProviders_def Let_def)
  next
    case (Inr m)
    then show ?thesis
      using names cache same
      by (simp add: NewWithProviders_def Let_def readKeyFromDisk_def split: sum.splits option.splits)
  qed
qed

text \<open>
  With a configured nonce timeout of 1 to 5 seconds no request can be authenticated in the
  second it was signed: its timestamp counts as too old.
\<close>

theorem short_timeout_rejects:
  assumes "1 \<le> nc_cacheTTL (svc_nonceCache s)" and "nc_cacheTTL (svc_nonceCache s) \<le> 5" and "clock_ok t"
  shows "CheckTimestamp t s (FormatInt (time_Unix t)) = Some (TimestampTooOld (time_Unix t) (time_Unix t))"
proof -
  let ?ttl = "nc_cacheTTL (svc_nonceCache s)"
  have "i64 (?ttl - 5) = ?ttl - 5" using assms(1,2) by (intro i64_small) auto
  moreover have "i64 (time_Unix t + 5) = time_Unix t + 5" "i64 (time_Unix t - (?ttl - 5)) = time_Unix t - (?ttl - 5)" "in_i64 (time_Unix t)"
    using assms by (auto simp: clock_ok_def in_i64_def intro!: i64_id)
  ultimately show ?thesis
    using assms(2) by (simp add: CheckTimestamp_def MaxSkewSec_def Let_def ParseInt_FormatInt)
qed

theorem short_timeout_rejects_witness:
  "CheckTimestamp 0 (ex_service\<lparr>svc_nonceCache := NewNonceCache 10 5\<rparr>) (FormatInt (time_Unix 0)) = Some (TimestampTooOld 0 0)"
  using short_timeout_rejects [of "ex_service\<lparr>svc_nonceCache := NewNonceCache 10 5\<rparr>" 0]
  by (simp add: NewNonceCache_def clock_ok_def time_Unix_def)

end
