(* ===== verification/V3_HTTP_Sign.thy ===== *)
theory V3_HTTP_Sign
  imports HTTP_Sign
begin

text \<open>
  \<^verbatim>\<open>v3/httpsign\<close>: the second version of the request signer (\<^verbatim>\<open>signer.go\<close>, \<^verbatim>\<open>nonce.go\<close>,
  \<^verbatim>\<open>random.go\<close>). It reads the clock of the package \<^verbatim>\<open>clock\<close>, emits no metrics and is otherwise
  meant to behave as the first. The definitions translate its own code; the theorems say that
  the two versions accept and sign the same requests. The map of expiring entries under the
  nonce cache has the same code in both versions and is the one of \<open>TTL_Map\<close>.
\<close>

section \<open>The nonce cache\<close>

definition newNonceCache :: "int \<Rightarrow> int \<Rightarrow> NonceCache" where
  "newNonceCache capacity cacheTTL = \<lparr>nc_cache = NewTTLMap capacity, nc_cacheTTL = cacheTTL\<rparr>"

definition nonceCache_inCache :: "nonce_clock \<Rightarrow> NonceCache \<Rightarrow> string \<Rightarrow> (NonceCache \<times> bool) go" where
  "nonceCache_inCache t n nonce =
     go_bind (TTLMap_Get (get1 t) (get2 t) (nc_cache n) nonce) (\<lambda>(cache, value).
       if value \<noteq> None then Ret (n\<lparr>nc_cache := cache\<rparr>, True)
       else go_bind (TTLMap_Set (set1 t) (set2 t) cache nonce (IStr []) (nc_cacheTTL n)) (\<lambda>(cache', err).
         Ret (n\<lparr>nc_cache := cache'\<rparr>, False)))"

section \<open>Random values\<close>

text \<open>\<^verbatim>\<open>io.ReadFull(rand.Reader, n)\<close> fills the slice with the bytes the system gives, or fails.\<close>

definition realRandom_bytes :: "(nat \<Rightarrow> string + string) \<Rightarrow> nat \<Rightarrow> string + string" where
  "realRandom_bytes ReadFull n = (case ReadFull n of Inl err \<Rightarrow> Inl err | Inr b \<Rightarrow> Inr b)"

definition fakeRandom_bytes :: "nat \<Rightarrow> string + string" where
  "fakeRandom_bytes n = Inr (map (\<lambda>i. char_of (i mod 256)) [0..<n])"

text \<open>The bytes drawn from \<^verbatim>\<open>math/rand\<close>, an argument: the generator's next values below 256.\<close>

definition SeededRNG_bytes :: "(nat \<Rightarrow> nat) \<Rightarrow> nat \<Rightarrow> string + string" where
  "SeededRNG_bytes Intn n = Inr (map (\<lambda>i. char_of (Intn i)) [0..<n])"

definition hexDigest :: "(nat \<Rightarrow> string + string) \<Rightarrow> nat \<Rightarrow> string + string" where
  "hexDigest provider_bytes n =
     (case provider_bytes n of Inl err \<Rightarrow> Inl err | Inr b \<Rightarrow> Inr (hex_EncodeToString b))"

section \<open>The signer\<close>

definition defaultCacheTimeout :: int where "defaultCacheTimeout = 100"

definition defaultCacheCapacity :: int where "defaultCacheCapacity = 5000 * defaultCacheTimeout"

definition maxSkewSec :: int where "maxSkewSec = 5"

record Signer =
  sg_config :: Config
  sg_nonceCache :: NonceCache
  sg_secretKey :: "string option"

definition v3_set_defaults :: "Config \<Rightarrow> Config" where
  "v3_set_defaults config =
     (let c1 = (if cfg_NonceCacheCapacity config < 1 then config\<lparr>cfg_NonceCacheCapacity := defaultCacheCapacity\<rparr> else config);
          c2 = (if cfg_NonceCacheTimeout c1 < 1 then c1\<lparr>cfg_NonceCacheTimeout := defaultCacheTimeout\<rparr> else c1);
          c3 = (if cfg_NonceHeaderName c2 = [] then c2\<lparr>cfg_NonceHeaderName := XMailgunNonce\<rparr> else c2);
          c4 = (if cfg_TimestampHeaderName c3 = [] then c3\<lparr>cfg_TimestampHeaderName := XMailgunTimestamp\<rparr> else c3);
          c5 = (if cfg_SignatureHeaderName c4 = [] then c4\<lparr>cfg_SignatureHeaderName := XMailgunSignature\<rparr> else c4)
      in if cfg_SignatureVersionHeaderName c5 = []
         then c5\<lparr>cfg_SignatureVersionHeaderName := XMailgunSignatureVersion\<rparr> else c5)"

definition v3_readKeyFromDisk :: "environment \<Rightarrow> string \<Rightarrow> sign_error + string" where
  "v3_readKeyFromDisk env keypath =
     (case env_ReadFile env keypath of
        Inl err \<Rightarrow> Inl (KeyFileError err)
      | Inr keyBytes \<Rightarrow> Inr (TrimNewline keyBytes))"

text \<open>With \<^verbatim>\<open>EmitStats\<close> the host name is read, and reading it may fail; the prefix is not used.\<close>

definition v3_New :: "environment \<Rightarrow> Config option \<Rightarrow> Config option \<times> (sign_error + Signer)" where
  "v3_New env config =
     (case config of
        None \<Rightarrow> (None, Inl ConfigRequired)
      | Some config0 \<Rightarrow>
          let config = v3_set_defaults config0;
              key = (if cfg_KeyPath config \<noteq> [] then v3_readKeyFromDisk env (cfg_KeyPath config)
                     else case cfg_KeyBytes config of None \<Rightarrow> Inl NoKeyBytes | Some keyBytes \<Rightarrow> Inr keyBytes)
          in (Some config,
              case (if cfg_EmitStats config then env_Hostname env else Inr []) of
                Inl err \<Rightarrow> Inl (HostnameError err)
              | Inr hostname \<Rightarrow>
                  (case key of
                     Inl err \<Rightarrow> Inl err
                   | Inr keyBytes \<Rightarrow>
                       Inr \<lparr>sg_config = config,
                            sg_nonceCache = newNonceCache (cfg_NonceCacheCapacity config) (cfg_NonceCacheTimeout config),
                            sg_secretKey = Some keyBytes\<rparr>)))"

definition v3_readBody :: "request \<Rightarrow> (request \<times> (sign_error + string)) go" where
  "v3_readBody r =
     (case req_Body r of
        NoBody \<Rightarrow> Ret (r, Inr [])
      | body \<Rightarrow>
          if maxAlloc < max MinRead (req_ContentLength r) then Panic (UserPanic ''makeslice: cap out of range'')
          else (case body of
              Body b None \<Rightarrow> Ret (r\<lparr>req_Body := Body b None\<rparr>, Inr b)
            | Body b (Some err) \<Rightarrow> Ret (r\<lparr>req_Body := Body b None\<rparr>, Inl (BodyError err))
            | _ \<Rightarrow> Ret (r, Inl (BodyError ''bytes.Buffer: too large''))))"

primrec extract_loop :: "header \<Rightarrow> string list \<Rightarrow> string list \<Rightarrow> sign_error + string list" where
  "extract_loop h headerValues [] = Inr headerValues"
| "extract_loop h headerValues (headerName # headerNames) =
     (if map_of h headerName = None then Inl (SignedHeaderMissing headerName)
      else extract_loop h (headerValues @ [Header_Get h headerName]) headerNames)"

definition v3_extractHeaderValues :: "request \<Rightarrow> string list \<Rightarrow> sign_error + string list" where
  "v3_extractHeaderValues r headerNames =
     (if length headerNames < 1 then Inr [] else extract_loop (req_Header r) [] headerNames)"

text \<open>The successive writes to the code.\<close>

definition v3_writes :: "bool \<Rightarrow> string \<Rightarrow> string \<Rightarrow> string \<Rightarrow> string \<Rightarrow> string \<Rightarrow> string list \<Rightarrow> string list" where
  "v3_writes signVerbAndUri httpVerb httpResourceUri timestamp nonce body headerValues =
     [nat_digits (length timestamp) @ ''|'', timestamp,
      ''|'' @ nat_digits (length nonce) @ ''|'', nonce,
      ''|'' @ nat_digits (length body) @ ''|'', body] @
     (if signVerbAndUri
      then [''|'' @ nat_digits (length httpVerb) @ ''|'', httpVerb,
            ''|'' @ nat_digits (length httpResourceUri) @ ''|'', httpResourceUri] else []) @
     concat (map (\<lambda>headerValue. [''|'' @ nat_digits (length headerValue) @ ''|'', headerValue]) headerValues)"

definition v3_computeMAC ::
  "(string \<Rightarrow> string \<Rightarrow> string) \<Rightarrow> string \<Rightarrow> bool \<Rightarrow> string \<Rightarrow> string \<Rightarrow> string \<Rightarrow> string \<Rightarrow> string \<Rightarrow> string list \<Rightarrow> string" where
  "v3_computeMAC hmac secretKey signVerbAndUri httpVerb httpResourceUri timestamp nonce body headerValues =
     hmac secretKey (concat (v3_writes signVerbAndUri httpVerb httpResourceUri timestamp nonce body headerValues))"

definition v3_checkMAC ::
  "(string \<Rightarrow> string \<Rightarrow> string) \<Rightarrow> string \<Rightarrow> bool \<Rightarrow> string \<Rightarrow> string \<Rightarrow> string \<Rightarrow> string \<Rightarrow> string \<Rightarrow> string list \<Rightarrow>
   string \<Rightarrow> bool \<times> sign_error option" where
  "v3_checkMAC hmac secretKey signVerbAndUri httpVerb httpResourceUri timestamp nonce body headerValues signature =
     (case hex_DecodeString signature of
        None \<Rightarrow> (False, Some (SignatureNotHex signature))
      | Some expectedMAC \<Rightarrow>
          if expectedMAC \<noteq> v3_computeMAC hmac secretKey signVerbAndUri httpVerb httpResourceUri timestamp nonce body headerValues
          then (False, Some (SignatureMismatch expectedMAC)) else (True, None))"

definition Signer_checkTimestamp :: "time \<Rightarrow> Signer \<Rightarrow> string \<Rightarrow> bool \<times> sign_error option" where
  "Signer_checkTimestamp t s timestampHeader =
     (case ParseInt timestampHeader of
        None \<Rightarrow> (False, Some (TimestampUnparsable timestampHeader))
      | Some timestamp \<Rightarrow>
          let now = time_Unix t
          in if i64 (now + maxSkewSec) \<le> timestamp then (False, Some (TimestampFromFuture now timestamp))
             else if timestamp \<le> i64 (now - i64 (nc_cacheTTL (sg_nonceCache s) - maxSkewSec))
               then (False, Some (TimestampTooOld now timestamp))
             else (True, None))"

definition Signer_SignRequestWithKey ::
  "(string \<Rightarrow> string \<Rightarrow> string) \<Rightarrow> time \<Rightarrow> string + string \<Rightarrow> Signer \<Rightarrow> request \<Rightarrow> string \<Rightarrow> (request \<times> sign_error option) go" where
  "Signer_SignRequestWithKey hmac t digest s r secretKey =
     (let config = sg_config s in
      go_bind (v3_readBody r) (\<lambda>(r, bodyRes).
       case bodyRes of Inl err \<Rightarrow> Ret (r, Some err) | Inr bodyBytes \<Rightarrow>
       case v3_extractHeaderValues r (cfg_HeadersToSign config) of Inl err \<Rightarrow> Ret (r, Some err) | Inr headerValues \<Rightarrow>
       case digest of Inl err \<Rightarrow> Ret (r, Some (RandomError err)) | Inr nonce \<Rightarrow>
       let timestamp = FormatInt (time_Unix t);
           signature = hex_EncodeToString (v3_computeMAC hmac secretKey (cfg_SignVerbAndURI config) (req_Method r)
             (req_RequestURI r) timestamp nonce bodyBytes headerValues);
           set = (\<lambda>(name, v) h. Header_Set h name v)
       in Ret (r\<lparr>req_Header := fold set
                   [(cfg_NonceHeaderName config, nonce), (cfg_TimestampHeaderName config, timestamp),
                    (cfg_SignatureHeaderName config, signature), (cfg_SignatureVersionHeaderName config, ''2'')]
                   (req_Header r)\<rparr>, None)))"

definition Signer_SignRequest ::
  "(string \<Rightarrow> string \<Rightarrow> string) \<Rightarrow> time \<Rightarrow> string + string \<Rightarrow> Signer \<Rightarrow> request \<Rightarrow> (request \<times> sign_error option) go" where
  "Signer_SignRequest hmac t digest s r =
     (case sg_secretKey s of
        None \<Rightarrow> Ret (r, Some NoKeyLoaded)
      | Some secretKey \<Rightarrow> Signer_SignRequestWithKey hmac t digest s r secretKey)"

definition Signer_VerifyRequestWithKey ::
  "(string \<Rightarrow> string \<Rightarrow> string) \<Rightarrow> time \<Rightarrow> nonce_clock \<Rightarrow> Signer \<Rightarrow> request \<Rightarrow> string \<Rightarrow>
   (Signer \<times> request \<times> sign_error option) go" where
  "Signer_VerifyRequestWithKey hmac t tn s r secretKey =
     (let config = sg_config s;
          signature = Header_Get (req_Header r) (cfg_SignatureHeaderName config);
          nonce = Header_Get (req_Header r) (cfg_NonceHeaderName config);
          timestamp = Header_Get (req_Header r) (cfg_TimestampHeaderName config)
      in if signature = [] then Ret (s, r, Some (HeaderNotFound (cfg_SignatureHeaderName config)))
         else if nonce = [] then Ret (s, r, Some (HeaderNotFound (cfg_NonceHeaderName config)))
         else if timestamp = [] then Ret (s, r, Some (HeaderNotFound (cfg_TimestampHeaderName config)))
         else go_bind (v3_readBody r) (\<lambda>(r, bodyRes).
           case bodyRes of Inl err \<Rightarrow> Ret (s, r, Some err) | Inr bodyBytes \<Rightarrow>
           case v3_extractHeaderValues r (cfg_HeadersToSign config) of Inl err \<Rightarrow> Ret (s, r, Some err) | Inr headerValues \<Rightarrow>
           case v3_checkMAC hmac secretKey (cfg_SignVerbAndURI config) (req_Method r) (req_RequestURI r)
             timestamp nonce bodyBytes headerValues signature of (isValid, err) \<Rightarrow>
           if \<not> isValid then Ret (s, r, err)
           else case Signer_checkTimestamp t s timestamp of (isValid, err) \<Rightarrow>
           if \<not> isValid then Ret (s, r, err)
           else go_bind (nonceCache_inCache tn (sg_nonceCache s) nonce) (\<lambda>(nonceCache, inCache).
             let s' = s\<lparr>sg_nonceCache := nonceCache\<rparr>
             in if inCache then Ret (s', r, Some (NonceAlreadyInCache nonce)) else Ret (s', r, None))))"

definition Signer_VerifyRequest ::
  "(string \<Rightarrow> string \<Rightarrow> string) \<Rightarrow> time \<Rightarrow> nonce_clock \<Rightarrow> Signer \<Rightarrow> request \<Rightarrow> (Signer \<times> request \<times> sign_error option) go" where
  "Signer_VerifyRequest hmac t tn s r =
     (case sg_secretKey s of
        None \<Rightarrow> Ret (s, r, Some NoKeyLoaded)
      | Some secretKey \<Rightarrow> Signer_VerifyRequestWithKey hmac t tn s r secretKey)"

section \<open>The two versions agree\<close>

text \<open>The signer that a service of the first version is without its metrics.\<close>

definition signer_of :: "Service \<Rightarrow> Signer" where
  "signer_of s = \<lparr>sg_config = svc_config s, sg_nonceCache = svc_nonceCache s, sg_secretKey = svc_secretKey s\<rparr>"

named_theorems v3_eq \<open>definitions of the second version in terms of the first\<close>

lemma v3_inCache_eq [v3_eq]: "nonceCache_inCache t n nonce = NonceCache_InCache t n nonce"
proof (cases "TTLMap_Get (get1 t) (get2 t) (nc_cache n) nonce")
  case (Ret x)
  obtain m r where "TTLMap_Get (get1 t) (get2 t) (nc_cache n) nonce = Ret (m, r)" using Ret by (cases x) auto
  then show ?thesis by (cases r) (simp_all add: nonceCache_inCache_def NonceCache_InCache_def)
qed (simp add: nonceCache_inCache_def NonceCache_InCache_def)

lemma v3_readBody_eq [v3_eq]: "v3_readBody r = readBody r"
  by (auto simp: v3_readBody_def readBody_def Let_def max_def split: req_body.splits option.splits)

lemma extract_loop_eq:
  "extract_loop (req_Header r) vs ns = (case extractHeaderValues r ns of Inl e \<Rightarrow> Inl e | Inr vs' \<Rightarrow> Inr (vs @ vs'))"
  by (induction ns arbitrary: vs) (auto split: option.splits sum.splits)

lemma v3_extractHeaderValues_eq [v3_eq]: "v3_extractHeaderValues r ns = extractHeaderValues r ns"
  by (cases ns) (auto simp: v3_extractHeaderValues_def extract_loop_eq simp del: extract_loop.simps split: sum.splits)

lemma v3_writes_eq: "concat (v3_writes b v u t n body hv) = mac_payload b v u t n body hv"
proof -
  have "concat (concat (map (\<lambda>h. [''|'' @ nat_digits (length h) @ ''|'', h]) hv)) =
    concat (map (\<lambda>h. ''|'' @ nat_digits (length h) @ ''|'' @ h) hv)"
    by (induction hv) simp_all
  then show ?thesis by (simp add: v3_writes_def mac_payload_def)
qed

lemma v3_computeMAC_eq [v3_eq]: "v3_computeMAC = computeMAC"
  by (simp add: fun_eq_iff v3_computeMAC_def computeMAC_def v3_writes_eq)

lemma v3_checkMAC_eq [v3_eq]:
  "v3_checkMAC hmac k b v u t n body hv sig = (checkMAC hmac k b v u t n body hv sig = None, checkMAC hmac k b v u t n body hv sig)"
  by (simp add: v3_checkMAC_def checkMAC_def v3_computeMAC_eq split: option.splits)

lemma v3_checkTimestamp_eq [v3_eq]:
  "Signer_checkTimestamp t (signer_of s) h = (CheckTimestamp t s h = None, CheckTimestamp t s h)"
  by (simp add: Signer_checkTimestamp_def CheckTimestamp_def signer_of_def maxSkewSec_def MaxSkewSec_def Let_def split: option.splits)

lemma v3_set_defaults_eq: "v3_set_defaults c = set_defaults c"
  by (simp add: v3_set_defaults_def set_defaults_def Let_def defaultCacheCapacity_def defaultCacheTimeout_def
      CacheCapacity_def CacheTimeout_def)

text \<open>
  C5: the second version signs a request exactly as the first does, and verifies one exactly as
  the first authenticates it: the same answer, the same request and the same nonce cache, on
  every input; only the metrics differ.
\<close>

theorem v3_agrees:
  "Signer_SignRequestWithKey hmac t digest (signer_of s) r key = SignRequestWithKey hmac t digest s r key \<and>
   Signer_VerifyRequestWithKey hmac t tn (signer_of s) r key =
     go_bind (AuthenticateRequestWithKey hmac t tn s r key) (\<lambda>(s', r', err). Ret (signer_of s', r', err))"
proof
  have cfg: "sg_config (signer_of s) = svc_config s" "sg_nonceCache (signer_of s) = svc_nonceCache s"
    by (simp_all add: signer_of_def)
  show "Signer_SignRequestWithKey hmac t digest (signer_of s) r key = SignRequestWithKey hmac t digest s r key"
  proof (cases "readBody r")
    case (Ret x)
    obtain r1 res where "readBody r = Ret (r1, res)" using Ret by (cases x) auto
    then show ?thesis
      by (simp add: Signer_SignRequestWithKey_def SignRequestWithKey_def cfg v3_eq Let_def split: sum.splits)
  qed (simp add: Signer_SignRequestWithKey_def SignRequestWithKey_def cfg v3_eq Let_def)
  show "Signer_VerifyRequestWithKey hmac t tn (signer_of s) r key =
     go_bind (AuthenticateRequestWithKey hmac t tn s r key) (\<lambda>(s', r', err). Ret (signer_of s', r', err))"
  proof (cases "readBody r")
    case (Panic p)
    then show ?thesis
      by (simp add: Signer_VerifyRequestWithKey_def AuthenticateRequestWithKey_def cfg v3_eq Let_def emit_metric_def signer_of_def)
  next
    case (Ret x)
    obtain r1 res where x: "readBody r = Ret (r1, res)" using Ret by (cases x) auto
    let ?inCache = "NonceCache_InCache tn (svc_nonceCache s) (Header_Get (req_Header r) (cfg_NonceHeaderName (svc_config s)))"
    have fields: "signer_of (s\<lparr>svc_metrics := m\<rparr>) = signer_of s"
      "signer_of (s\<lparr>svc_nonceCache := n, svc_metrics := m\<rparr>) = (signer_of s)\<lparr>sg_nonceCache := n\<rparr>" for m n
      by (simp_all add: signer_of_def)
    show ?thesis
    proof (cases ?inCache)
      case (Panic p)
      with x show ?thesis
        by (simp add: Signer_VerifyRequestWithKey_def AuthenticateRequestWithKey_def cfg v3_eq Let_def emit_metric_def fields
            split: sum.splits option.splits)
    next
      case (Ret y)
      obtain n b where "?inCache = Ret (n, b)" using Ret by (cases y) auto
      with x show ?thesis
        by (simp add: Signer_VerifyRequestWithKey_def AuthenticateRequestWithKey_def cfg v3_eq Let_def emit_metric_def fields
            split: sum.splits option.splits)
    qed
  qed
qed

text \<open>
  The nonce of a request signed with a provider that returns the bytes it is asked for, as the
  system's and the test's do, has 32 characters, and decodes to the 16 bytes drawn.
\<close>

theorem hexDigest_nonce:
  assumes "provider 16 = Inr b" and "length b = 16"
  shows "\<exists>d. hexDigest provider 16 = Inr d \<and> length d = 32 \<and> hex_DecodeString d = Some b"
  using assms by (simp add: hexDigest_def hex_Decode_Encode length_hex_Encode)

theorem hexDigest_nonce_witness:
  "hexDigest fakeRandom_bytes 16 = Inr ''000102030405060708090a0b0c0d0e0f'' \<and>
   (\<exists>d. hexDigest fakeRandom_bytes 16 = Inr d \<and> length d = 32)"
proof
  show "hexDigest fakeRandom_bytes 16 = Inr ''000102030405060708090a0b0c0d0e0f''" by code_simp
  have "fakeRandom_bytes 16 = Inr (map (\<lambda>i. char_of (i mod 256)) [0..<16])" by (simp only: fakeRandom_bytes_def)
  from hexDigest_nonce [of fakeRandom_bytes, OF this] show "\<exists>d. hexDigest fakeRandom_bytes 16 = Inr d \<and> length d = 32" by auto
qed

end
