(* ===== verification/LRU_Cache.thy ===== *)
theory LRU_Cache
  imports Go_Prelude
begin

text \<open>
  \<^verbatim>\<open>lru_cache.go\<close> (\<^verbatim>\<open>v3/collections/lru_cache.go\<close> differs in the clock package only): the cache
  that evicts the least recently used entry. The model keeps the doubly linked list of
  \<^verbatim>\<open>container/list\<close> as the list of its elements' addresses, front first, the records they point
  to in a store, and the Go map from keys to elements. \<open>lru_abs\<close> reads a state as the list of its
  records in the order of use; the specification \<open>spec_step\<close> works on that list alone, and
  every operation refines it. All methods hold the mutex; \<^verbatim>\<open>Each\<close> is in \<open>Fan_Out\<close>.
\<close>

section \<open>Data\<close>

record 'k cacheRecord =
  rec_key :: 'k
  rec_value :: iface
  rec_expireAt :: "time option"

record LRUCacheStats =
  stats_Size :: int
  stats_Miss :: int
  stats_Hit :: int

text \<open>\<open>lru_OnEvicted\<close> says whether a callback is set and \<open>lru_evicted\<close> lists its calls.\<close>

record 'k LRUCache =
  lru_MaxEntries :: int
  lru_OnEvicted :: bool
  lru_stats :: LRUCacheStats
  lru_ll :: "addr list"
  lru_recs :: "addr \<Rightarrow> 'k cacheRecord"
  lru_cache :: "('k, addr) gomap"
  lru_next :: addr
  lru_evicted :: "('k \<times> iface) list"

definition zero_stats :: LRUCacheStats where
  "zero_stats = \<lparr>stats_Size = 0, stats_Miss = 0, stats_Hit = 0\<rparr>"

section \<open>Operations\<close>

definition NewLRUCache :: "(addr \<Rightarrow> 'k cacheRecord) \<Rightarrow> int \<Rightarrow> 'k LRUCache" where
  "NewLRUCache store maxEntries =
     \<lparr>lru_MaxEntries = maxEntries, lru_OnEvicted = False, lru_stats = zero_stats, lru_ll = [], lru_recs = store,
      lru_cache = [], lru_next = 0, lru_evicted = []\<rparr>"

definition list_MoveToFront :: "addr \<Rightarrow> addr list \<Rightarrow> addr list" where
  "list_MoveToFront e ll = (if e \<in> set ll then e # remove1 e ll else ll)"

definition removeElement :: "'k LRUCache \<Rightarrow> addr \<Rightarrow> 'k LRUCache" where
  "removeElement c e =
     (let kv = lru_recs c e;
          c' = c\<lparr>lru_ll := remove1 e (lru_ll c), lru_cache := AList.delete (rec_key kv) (lru_cache c)\<rparr>
      in if lru_OnEvicted c then c'\<lparr>lru_evicted := lru_evicted c @ [(rec_key kv, rec_value kv)]\<rparr> else c')"

definition removeOldest :: "'k LRUCache \<Rightarrow> 'k LRUCache" where
  "removeOldest c = (if lru_ll c \<noteq> [] then removeElement c (last (lru_ll c)) else c)"

definition addRecord :: "'k LRUCache \<Rightarrow> 'k cacheRecord \<Rightarrow> 'k LRUCache \<times> bool" where
  "addRecord c record =
     (case map_of (lru_cache c) (rec_key record) of
        Some ee \<Rightarrow>
          (c\<lparr>lru_ll := list_MoveToFront ee (lru_ll c), lru_recs := (lru_recs c)(ee := record)\<rparr>, True)
      | None \<Rightarrow>
          let ele = lru_next c;
              c' = c\<lparr>lru_ll := ele # lru_ll c, lru_recs := (lru_recs c)(ele := record), lru_next := Suc ele,
                     lru_cache := AList.update (rec_key record) ele (lru_cache c)\<rparr>
          in (if lru_MaxEntries c' \<noteq> 0 \<and> lru_MaxEntries c' < int (length (lru_ll c')) then removeOldest c' else c', False))"

definition LRUCache_Add :: "'k LRUCache \<Rightarrow> 'k \<Rightarrow> iface \<Rightarrow> 'k LRUCache \<times> bool" where
  "LRUCache_Add c key value = addRecord c \<lparr>rec_key = key, rec_value = value, rec_expireAt = None\<rparr>"

definition LRUCache_AddWithTTL :: "time \<Rightarrow> 'k LRUCache \<Rightarrow> 'k \<Rightarrow> iface \<Rightarrow> duration \<Rightarrow> 'k LRUCache \<times> bool" where
  "LRUCache_AddWithTTL now c key value TTL =
     addRecord c \<lparr>rec_key = key, rec_value = value, rec_expireAt = Some (time_Add now TTL)\<rparr>"

definition record_expired :: "time \<Rightarrow> 'k cacheRecord \<Rightarrow> bool" where
  "record_expired now entry = (case rec_expireAt entry of None \<Rightarrow> False | Some e \<Rightarrow> time_Before e now)"

definition stats_miss :: "LRUCacheStats \<Rightarrow> LRUCacheStats" where
  "stats_miss s = s\<lparr>stats_Miss := i64 (stats_Miss s + 1)\<rparr>"

definition stats_hit :: "LRUCacheStats \<Rightarrow> LRUCacheStats" where
  "stats_hit s = s\<lparr>stats_Hit := i64 (stats_Hit s + 1)\<rparr>"

definition LRUCache_Get :: "time \<Rightarrow> 'k LRUCache \<Rightarrow> 'k \<Rightarrow> 'k LRUCache \<times> iface option" where
  "LRUCache_Get now c key =
     (case map_of (lru_cache c) key of
        Some ele \<Rightarrow>
          if record_expired now (lru_recs c ele) then
            (let c' = removeElement c ele in (c'\<lparr>lru_stats := stats_miss (lru_stats c')\<rparr>, None))
          else
            (c\<lparr>lru_stats := stats_hit (lru_stats c), lru_ll := list_MoveToFront ele (lru_ll c)\<rparr>,
             Some (rec_value (lru_recs c ele)))
      | None \<Rightarrow> (c\<lparr>lru_stats := stats_miss (lru_stats c)\<rparr>, None))"

definition LRUCache_Remove :: "'k LRUCache \<Rightarrow> 'k \<Rightarrow> 'k LRUCache" where
  "LRUCache_Remove c key =
     (case map_of (lru_cache c) key of Some ele \<Rightarrow> removeElement c ele | None \<Rightarrow> c)"

definition LRUCache_Size :: "'k LRUCache \<Rightarrow> nat" where
  "LRUCache_Size c = length (lru_ll c)"

definition LRUCache_Stats :: "'k LRUCache \<Rightarrow> 'k LRUCache \<times> LRUCacheStats" where
  "LRUCache_Stats c =
     (c\<lparr>lru_stats := zero_stats\<rparr>, (lru_stats c)\<lparr>stats_Size := int (length (lru_cache c))\<rparr>)"

text \<open>The keys in the order \<^verbatim>\<open>range\<close> happens to choose; only their set is specified.\<close>

definition LRUCache_Keys :: "'k LRUCache \<Rightarrow> 'k list" where
  "LRUCache_Keys c = map fst (lru_cache c)"

definition LRUCache_Peek :: "'k LRUCache \<Rightarrow> 'k \<Rightarrow> iface option" where
  "LRUCache_Peek c key =
     (case map_of (lru_cache c) key of Some ele \<Rightarrow> Some (rec_value (lru_recs c ele)) | None \<Rightarrow> None)"

section \<open>Runs\<close>

datatype 'k lru_op =
    LAdd 'k iface
  | LAddWithTTL time 'k iface duration
  | LGet time 'k
  | LRemove 'k
  | LPeek 'k
  | LSize

datatype lru_result = RBool bool | RValue "iface option" | RSize nat | RNone

primrec lru_step :: "'k lru_op \<Rightarrow> 'k LRUCache \<Rightarrow> 'k LRUCache \<times> lru_result" where
  "lru_step (LAdd k v) c = map_prod id RBool (LRUCache_Add c k v)"
| "lru_step (LAddWithTTL now k v d) c = map_prod id RBool (LRUCache_AddWithTTL now c k v d)"
| "lru_step (LGet now k) c = map_prod id RValue (LRUCache_Get now c k)"
| "lru_step (LRemove k) c = (LRUCache_Remove c k, RNone)"
| "lru_step (LPeek k) c = (c, RValue (LRUCache_Peek c k))"
| "lru_step LSize c = (c, RSize (LRUCache_Size c))"

fun lru_run :: "'k lru_op list \<Rightarrow> 'k LRUCache \<Rightarrow> 'k LRUCache \<times> lru_result list" where
  "lru_run [] c = (c, [])"
| "lru_run (op # ops) c =
     (let (c1, r) = lru_step op c; (c2, rs) = lru_run ops c1 in (c2, r # rs))"

section \<open>Specification: a list of records, the last used first\<close>

type_synonym 'k lru_list = "'k cacheRecord list"

definition lru_find :: "'k \<Rightarrow> 'k lru_list \<Rightarrow> 'k cacheRecord option" where
  "lru_find k xs = List.find (\<lambda>r. rec_key r = k) xs"

definition lru_del :: "'k \<Rightarrow> 'k lru_list \<Rightarrow> 'k lru_list" where
  "lru_del k xs = filter (\<lambda>r. rec_key r \<noteq> k) xs"

text \<open>The new list, the records evicted, and the result.\<close>

definition spec_add :: "int \<Rightarrow> 'k cacheRecord \<Rightarrow> 'k lru_list \<Rightarrow> 'k lru_list \<times> 'k lru_list \<times> lru_result" where
  "spec_add maxEntries r xs =
     (if lru_find (rec_key r) xs \<noteq> None then (r # lru_del (rec_key r) xs, [], RBool True)
      else if maxEntries \<noteq> 0 \<and> maxEntries \<le> int (length xs) then (butlast (r # xs), [last (r # xs)], RBool False)
      else (r # xs, [], RBool False))"

primrec spec_step :: "int \<Rightarrow> 'k lru_op \<Rightarrow> 'k lru_list \<Rightarrow> 'k lru_list \<times> 'k lru_list \<times> lru_result" where
  "spec_step m (LAdd k v) xs = spec_add m \<lparr>rec_key = k, rec_value = v, rec_expireAt = None\<rparr> xs"
| "spec_step m (LAddWithTTL now k v d) xs = spec_add m \<lparr>rec_key = k, rec_value = v, rec_expireAt = Some (now + d)\<rparr> xs"
| "spec_step m (LGet now k) xs =
     (case lru_find k xs of
        None \<Rightarrow> (xs, [], RValue None)
      | Some r \<Rightarrow>
          if record_expired now r then (lru_del k xs, [r], RValue None)
          else (r # lru_del k xs, [], RValue (Some (rec_value r))))"
| "spec_step m (LRemove k) xs = (lru_del k xs, case lru_find k xs of None \<Rightarrow> [] | Some r \<Rightarrow> [r], RNone)"
| "spec_step m (LPeek k) xs = (xs, [], RValue (map_option rec_value (lru_find k xs)))"
| "spec_step m LSize xs = (xs, [], RSize (length xs))"

fun spec_run :: "int \<Rightarrow> 'k lru_op list \<Rightarrow> 'k lru_list \<Rightarrow> 'k lru_list \<times> 'k lru_list \<times> lru_result list" where
  "spec_run m [] xs = (xs, [], [])"
| "spec_run m (op # ops) xs =
     (let (ys, ev, r) = spec_step m op xs; (zs, evs, rs) = spec_run m ops ys in (zs, ev @ evs, r # rs))"

section \<open>Invariant and refinement\<close>

definition lru_wf :: "'k LRUCache \<Rightarrow> bool" where
  "lru_wf c \<longleftrightarrow>
     gomap_wf (lru_cache c) \<and> distinct (lru_ll c) \<and> (\<forall>a \<in> set (lru_ll c). a < lru_next c) \<and>
     (\<forall>k a. map_of (lru_cache c) k = Some a \<longleftrightarrow> a \<in> set (lru_ll c) \<and> rec_key (lru_recs c a) = k)"

definition lru_abs :: "'k LRUCache \<Rightarrow> 'k lru_list" where
  "lru_abs c = map (lru_recs c) (lru_ll c)"

lemma lru_wfD:
  assumes "lru_wf c"
  shows "gomap_wf (lru_cache c)" "distinct (lru_ll c)" "\<And>a. a \<in> set (lru_ll c) \<Longrightarrow> a < lru_next c"
    "\<And>k a. map_of (lru_cache c) k = Some a \<longleftrightarrow> a \<in> set (lru_ll c) \<and> rec_key (lru_recs c a) = k"
  using assms by (simp_all add: lru_wf_def)

lemma lru_wf_inj: "lru_wf c \<Longrightarrow> a \<in> set (lru_ll c) \<Longrightarrow> b \<in> set (lru_ll c) \<Longrightarrow>
    rec_key (lru_recs c a) = rec_key (lru_recs c b) \<Longrightarrow> a = b"
  using lru_wfD(4) by (metis option.inject)

lemma find_map_Some:
  "distinct xs \<Longrightarrow> a \<in> set xs \<Longrightarrow> P (f a) \<Longrightarrow> (\<And>b. b \<in> set xs \<Longrightarrow> P (f b) \<Longrightarrow> b = a) \<Longrightarrow>
   List.find P (map f xs) = Some (f a)"
proof (induction xs)
  case (Cons x xs)
  show ?case
  proof (cases "P (f x)")
    case True
    then have "x = a" using Cons.prems(4) [of x] by simp
    with True show ?thesis by simp
  next
    case False
    then have "a \<in> set xs" using Cons.prems(2,3) by auto
    then have "List.find P (map f xs) = Some (f a)" using Cons.prems by (intro Cons.IH) auto
    with False show ?thesis by simp
  qed
qed simp

lemma lru_find_abs:
  assumes wf: "lru_wf c"
  shows "lru_find k (lru_abs c) = map_option (lru_recs c) (map_of (lru_cache c) k)"
proof (cases "map_of (lru_cache c) k")
  case None
  then have "rec_key (lru_recs c a) \<noteq> k" if "a \<in> set (lru_ll c)" for a
    using lru_wfD(4) [OF wf] that by (metis option.distinct(1))
  then show ?thesis using None by (auto simp: lru_find_def lru_abs_def find_None_iff)
next
  case (Some a)
  then have a: "a \<in> set (lru_ll c)" "rec_key (lru_recs c a) = k" using lru_wfD(4) [OF wf] by auto
  have "List.find (\<lambda>r. rec_key r = k) (map (lru_recs c) (lru_ll c)) = Some (lru_recs c a)"
    using a lru_wf_inj [OF wf] by (intro find_map_Some lru_wfD(2) [OF wf]) auto
  then show ?thesis using Some by (simp add: lru_find_def lru_abs_def)
qed

lemma map_remove1_filter:
  assumes "distinct xs" "a \<in> set xs" "\<And>b. b \<in> set xs \<Longrightarrow> rec_key (f b) = rec_key (f a) \<Longrightarrow> b = a"
  shows "map f (remove1 a xs) = lru_del (rec_key (f a)) (map f xs)"
proof -
  have "remove1 a xs = filter (\<lambda>b. b \<noteq> a) xs"
    using assms(1) by (auto simp: distinct_remove1_removeAll removeAll_filter_not_eq intro: filter_cong)
  also have "\<dots> = filter (\<lambda>b. rec_key (f b) \<noteq> rec_key (f a)) xs"
    using assms(3) by (intro filter_cong) auto
  finally show ?thesis by (simp add: lru_del_def filter_map o_def)
qed

lemma removeElement_refines:
  assumes wf: "lru_wf c" and a: "a \<in> set (lru_ll c)"
  shows "lru_wf (removeElement c a)"
    and "lru_abs (removeElement c a) = lru_del (rec_key (lru_recs c a)) (lru_abs c)"
    and "lru_evicted (removeElement c a) = lru_evicted c @
      (if lru_OnEvicted c then [(rec_key (lru_recs c a), rec_value (lru_recs c a))] else [])"
    and "lru_MaxEntries (removeElement c a) = lru_MaxEntries c" "lru_OnEvicted (removeElement c a) = lru_OnEvicted c"
proof -
  have fields: "lru_ll (removeElement c a) = remove1 a (lru_ll c)" "lru_recs (removeElement c a) = lru_recs c"
    "lru_cache (removeElement c a) = AList.delete (rec_key (lru_recs c a)) (lru_cache c)" "lru_next (removeElement c a) = lru_next c"
    by (simp_all add: removeElement_def Let_def)
  show "lru_abs (removeElement c a) = lru_del (rec_key (lru_recs c a)) (lru_abs c)"
    unfolding lru_abs_def fields using lru_wfD(2) [OF wf] a lru_wf_inj [OF wf] by (intro map_remove1_filter) auto
  have "map_of (AList.delete (rec_key (lru_recs c a)) (lru_cache c)) k = Some b \<longleftrightarrow>
      b \<in> set (remove1 a (lru_ll c)) \<and> rec_key (lru_recs c b) = k" for k b
    using lru_wfD(2,4) [OF wf] lru_wf_inj [OF wf _ a] by (auto simp: delete_conv' a)
  then show "lru_wf (removeElement c a)"
    unfolding lru_wf_def fields using lru_wfD(1-3) [OF wf] set_remove1_subset by (auto simp: distinct_remove1)
qed (simp_all add: removeElement_def Let_def)

lemma MoveToFront_refines:
  assumes wf: "lru_wf c" and a: "map_of (lru_cache c) (rec_key r) = Some a"
  defines "c' \<equiv> c\<lparr>lru_ll := list_MoveToFront a (lru_ll c), lru_recs := (lru_recs c)(a := r)\<rparr>"
  shows "lru_wf c'" and "lru_abs c' = r # lru_del (rec_key r) (lru_abs c)"
proof -
  have a': "a \<in> set (lru_ll c)" "rec_key (lru_recs c a) = rec_key r" using a lru_wfD(4) [OF wf] by auto
  have fields: "lru_ll c' = a # remove1 a (lru_ll c)" "lru_recs c' = (lru_recs c)(a := r)" "lru_cache c' = lru_cache c"
    "lru_next c' = lru_next c"
    using a'(1) by (simp_all add: c'_def list_MoveToFront_def)
  have notin: "a \<notin> set (remove1 a (lru_ll c))" using lru_wfD(2) [OF wf] by (simp add: set_remove1_eq)
  then have "map ((lru_recs c)(a := r)) (remove1 a (lru_ll c)) = map (lru_recs c) (remove1 a (lru_ll c))"
    by (intro map_cong) auto
  also have "\<dots> = lru_del (rec_key r) (lru_abs c)"
    unfolding lru_abs_def using lru_wfD(2) [OF wf] a' lru_wf_inj [OF wf]
    by (subst map_remove1_filter) auto
  finally show "lru_abs c' = r # lru_del (rec_key r) (lru_abs c)" by (simp add: lru_abs_def fields)
  have "set (a # remove1 a (lru_ll c)) = set (lru_ll c)" "distinct (a # remove1 a (lru_ll c))"
    using a'(1) lru_wfD(2) [OF wf] by (auto simp: set_remove1_eq distinct_remove1)
  then show "lru_wf c'"
    unfolding lru_wf_def fields using lru_wfD [OF wf] a'(2) by auto
qed

lemma lru_abs_keys: "lru_wf c \<Longrightarrow> distinct (map rec_key (lru_abs c))"
  using lru_wfD(2) [of c] lru_wf_inj [of c] by (auto simp: lru_abs_def distinct_map inj_on_def)

lemma lru_del_last:
  assumes "distinct (map rec_key xs)" "xs \<noteq> []"
  shows "lru_del (rec_key (last xs)) xs = butlast xs"
proof -
  obtain ys y where xs: "xs = ys @ [y]" using assms(2) by (cases xs rule: rev_cases) auto
  then have "rec_key y \<notin> rec_key ` set ys" using assms(1) by auto
  then have "filter (\<lambda>r. rec_key r \<noteq> rec_key y) ys = ys" by (intro filter_True) (metis imageI)
  then show ?thesis by (simp add: xs lru_del_def)
qed

text \<open>\<open>lru_refines c c' ys ev\<close>: \<open>c'\<close> holds the list \<open>ys\<close> and comes from \<open>c\<close> by evicting \<open>ev\<close>.\<close>

definition lru_refines :: "'k LRUCache \<Rightarrow> 'k LRUCache \<Rightarrow> 'k lru_list \<Rightarrow> 'k lru_list \<Rightarrow> bool" where
  "lru_refines c c' ys ev \<longleftrightarrow>
     lru_wf c' \<and> lru_abs c' = ys \<and> lru_MaxEntries c' = lru_MaxEntries c \<and> lru_OnEvicted c' = lru_OnEvicted c \<and>
     lru_evicted c' = lru_evicted c @ (if lru_OnEvicted c then map (\<lambda>r. (rec_key r, rec_value r)) ev else [])"

lemma lru_refines_refl: "lru_wf c \<Longrightarrow> lru_refines c c (lru_abs c) []"
  by (simp add: lru_refines_def)

lemma lru_refines_stats [simp]: "lru_refines c (c'\<lparr>lru_stats := s\<rparr>) ys ev = lru_refines c c' ys ev"
  by (simp add: lru_refines_def lru_wf_def lru_abs_def)

lemma removeElement_step:
  assumes "lru_wf c" "a \<in> set (lru_ll c)"
  shows "lru_refines c (removeElement c a) (lru_del (rec_key (lru_recs c a)) (lru_abs c)) [lru_recs c a]"
  using removeElement_refines [OF assms] by (simp add: lru_refines_def)

lemma removeOldest_step:
  assumes wf: "lru_wf c" and ne: "lru_ll c \<noteq> []"
  shows "lru_refines c (removeOldest c) (butlast (lru_abs c)) [last (lru_abs c)]"
proof -
  have "last (lru_abs c) = lru_recs c (last (lru_ll c))" "lru_abs c \<noteq> []"
    using ne by (simp_all add: lru_abs_def last_map)
  then show ?thesis
    using removeElement_step [OF wf last_in_set [OF ne]] lru_del_last [OF lru_abs_keys [OF wf]] ne
    by (simp add: removeOldest_def)
qed

lemma push_wf:
  assumes wf: "lru_wf c" and new: "map_of (lru_cache c) (rec_key r) = None"
  defines "c' \<equiv> c\<lparr>lru_ll := lru_next c # lru_ll c, lru_recs := (lru_recs c)(lru_next c := r), lru_next := Suc (lru_next c),
                 lru_cache := AList.update (rec_key r) (lru_next c) (lru_cache c)\<rparr>"
  shows "lru_wf c'" and "lru_abs c' = r # lru_abs c"
proof -
  have fresh: "lru_next c \<notin> set (lru_ll c)" using lru_wfD(3) [OF wf] by auto
  have other: "rec_key (lru_recs c b) \<noteq> rec_key r" if "b \<in> set (lru_ll c)" for b
    using lru_wfD(4) [OF wf, of "rec_key r" b] new that by auto
  show "lru_abs c' = r # lru_abs c" using fresh by (simp add: lru_abs_def c'_def)
  have "map_of (AList.update (rec_key r) (lru_next c) (lru_cache c)) k = Some b \<longleftrightarrow>
      b \<in> set (lru_next c # lru_ll c) \<and> rec_key (((lru_recs c)(lru_next c := r)) b) = k" for k b
    using lru_wfD(4) [OF wf] fresh other by (auto simp: update_conv')
  then show "lru_wf c'"
    unfolding lru_wf_def using lru_wfD(1-3) [OF wf] fresh by (auto simp: c'_def less_Suc_eq)
qed

lemma addRecord_refines:
  assumes wf: "lru_wf c"
  shows "case (addRecord c r, spec_add (lru_MaxEntries c) r (lru_abs c)) of
    ((c', b), (ys, ev, res)) \<Rightarrow> lru_refines c c' ys ev \<and> res = RBool b"
proof (cases "map_of (lru_cache c) (rec_key r)")
  case (Some a)
  have "lru_find (rec_key r) (lru_abs c) \<noteq> None" using lru_find_abs [OF wf] Some by simp
  then show ?thesis
    using MoveToFront_refines [OF wf Some] Some by (simp add: addRecord_def spec_add_def lru_refines_def)
next
  case None
  let ?c = "c\<lparr>lru_ll := lru_next c # lru_ll c, lru_recs := (lru_recs c)(lru_next c := r), lru_next := Suc (lru_next c),
                 lru_cache := AList.update (rec_key r) (lru_next c) (lru_cache c)\<rparr>"
  have no: "lru_find (rec_key r) (lru_abs c) = None" using lru_find_abs [OF wf] None by simp
  note p = push_wf [OF wf None]
  have old: "lru_refines ?c (removeOldest ?c) (butlast (r # lru_abs c)) [last (r # lru_abs c)]"
    using removeOldest_step [OF p(1)] by (simp only: p(2)) simp
  have len: "length (lru_ll c) = length (lru_abs c)" by (simp add: lru_abs_def)
  show ?thesis
  proof (cases "lru_MaxEntries c \<noteq> 0 \<and> lru_MaxEntries c \<le> int (length (lru_abs c))")
    case True
    then have "addRecord c r = (removeOldest ?c, False)" using None len by (simp add: addRecord_def Let_def)
    moreover have "lru_refines c (removeOldest ?c) (butlast (r # lru_abs c)) [last (r # lru_abs c)]"
      using old by (simp add: lru_refines_def)
    ultimately show ?thesis using no True by (simp add: spec_add_def)
  next
    case False
    then have "addRecord c r = (?c, False)" using None len by (auto simp: addRecord_def Let_def)
    moreover have "spec_add (lru_MaxEntries c) r (lru_abs c) = (r # lru_abs c, [], RBool False)"
      using no False by (auto simp: spec_add_def)
    ultimately show ?thesis using p by (simp add: lru_refines_def)
  qed
qed

lemma addRecord_wf: "lru_wf c \<Longrightarrow> lru_wf (fst (addRecord c r))"
  using addRecord_refines [of c r] by (auto simp: lru_refines_def split: prod.splits)

lemma lru_step_refines:
  assumes wf: "lru_wf c"
  shows "case (lru_step op c, spec_step (lru_MaxEntries c) op (lru_abs c)) of
    ((c', r), (ys, ev, r')) \<Rightarrow> lru_refines c c' ys ev \<and> r = r'"
proof (cases op)
  case (LAdd k v)
  then show ?thesis
    using addRecord_refines [OF wf, of "\<lparr>rec_key = k, rec_value = v, rec_expireAt = None\<rparr>"]
    by (auto simp: LRUCache_Add_def map_prod_def split: prod.splits)
next
  case (LAddWithTTL now k v d)
  then show ?thesis
    using addRecord_refines [OF wf, of "\<lparr>rec_key = k, rec_value = v, rec_expireAt = Some (now + d)\<rparr>"]
    by (auto simp: LRUCache_AddWithTTL_def time_Add_def map_prod_def split: prod.splits)
next
  case (LGet now k)
  show ?thesis
  proof (cases "map_of (lru_cache c) k")
    case None
    then show ?thesis
      using lru_refines_refl [OF wf] lru_find_abs [OF wf, of k] by (simp add: LGet LRUCache_Get_def)
  next
    case (Some a)
    then have a: "a \<in> set (lru_ll c)" "rec_key (lru_recs c a) = k" using lru_wfD(4) [OF wf] by auto
    have move: "lru_refines c (c\<lparr>lru_ll := list_MoveToFront a (lru_ll c)\<rparr>) (lru_recs c a # lru_del k (lru_abs c)) []"
      using MoveToFront_refines [OF wf, of "lru_recs c a" a] Some a(2) by (simp add: lru_refines_def)
    have "lru_refines c (c\<lparr>lru_stats := s, lru_ll := l\<rparr>) ys ev = lru_refines c (c\<lparr>lru_ll := l\<rparr>) ys ev" for s l ys ev
      by (simp add: lru_refines_def lru_wf_def lru_abs_def)
    then show ?thesis
      using removeElement_step [OF wf a(1)] move lru_find_abs [OF wf, of k] Some a(2)
      by (simp add: LGet LRUCache_Get_def Let_def)
  qed
next
  case (LRemove k)
  show ?thesis
  proof (cases "map_of (lru_cache c) k")
    case None
    then have "lru_find k (lru_abs c) = None" using lru_find_abs [OF wf, of k] by simp
    moreover from this have "lru_del k (lru_abs c) = lru_abs c"
      by (auto simp: lru_find_def lru_del_def find_None_iff intro!: filter_True)
    ultimately show ?thesis using lru_refines_refl [OF wf] None by (simp add: LRemove LRUCache_Remove_def)
  next
    case (Some a)
    then have a: "a \<in> set (lru_ll c)" "rec_key (lru_recs c a) = k" using lru_wfD(4) [OF wf] by auto
    then show ?thesis
      using removeElement_step [OF wf a(1)] lru_find_abs [OF wf, of k] Some by (simp add: LRemove LRUCache_Remove_def)
  qed
next
  case (LPeek k)
  then show ?thesis
    using lru_refines_refl [OF wf] lru_find_abs [OF wf, of k]
    by (simp add: LRUCache_Peek_def option.map_comp o_def split: option.splits)
next
  case LSize
  then show ?thesis using lru_refines_refl [OF wf] by (simp add: LRUCache_Size_def lru_abs_def)
qed

lemma lru_run_refines:
  "lru_wf c \<Longrightarrow> case (lru_run ops c, spec_run (lru_MaxEntries c) ops (lru_abs c)) of
    ((c', rs), (ys, ev, rs')) \<Rightarrow> lru_refines c c' ys ev \<and> rs = rs'"
proof (induction ops arbitrary: c)
  case Nil
  then show ?case by (simp add: lru_refines_refl)
next
  case (Cons op ops)
  obtain c1 r where c1: "lru_step op c = (c1, r)" by (cases "lru_step op c")
  obtain ys ev r' where s: "spec_step (lru_MaxEntries c) op (lru_abs c) = (ys, ev, r')"
    by (cases "spec_step (lru_MaxEntries c) op (lru_abs c)")
  obtain c2 rs where c2: "lru_run ops c1 = (c2, rs)" by (cases "lru_run ops c1")
  obtain zs evs rs' where s2: "spec_run (lru_MaxEntries c) ops ys = (zs, evs, rs')"
    by (cases "spec_run (lru_MaxEntries c) ops ys")
  have 1: "lru_refines c c1 ys ev" "r = r'" using lru_step_refines [OF Cons.prems, of op] c1 s by simp_all
  then have "lru_refines c1 c2 zs evs \<and> rs = rs'"
    using Cons.IH [of c1] c2 s2 by (simp add: lru_refines_def)
  with 1 show ?case by (auto simp: c1 s c2 s2 lru_refines_def)
qed

section \<open>Correctness\<close>

lemma NewLRUCache_wf: "lru_wf (NewLRUCache store m\<lparr>lru_OnEvicted := b\<rparr>)" "lru_abs (NewLRUCache store m\<lparr>lru_OnEvicted := b\<rparr>) = []"
  by (simp_all add: lru_wf_def lru_abs_def NewLRUCache_def)

text \<open>
  C9: every sequence of calls on a new cache gives the results that the list of records in the
  order of use gives, holds its records in that order, calls \<^verbatim>\<open>OnEvicted\<close> for exactly the
  records that leave the list without being replaced, in order, and keeps the list and the map
  consistent.
\<close>

theorem LRUCache_refines_list:
  "case (lru_run ops (NewLRUCache store m\<lparr>lru_OnEvicted := b\<rparr>), spec_run m ops []) of
     ((c, rs), (xs, ev, rs')) \<Rightarrow>
       rs = rs' \<and> lru_abs c = xs \<and> lru_wf c \<and>
       lru_evicted c = (if b then map (\<lambda>r. (rec_key r, rec_value r)) ev else [])"
proof -
  let ?n = "NewLRUCache store m\<lparr>lru_OnEvicted := b\<rparr>"
  have "lru_MaxEntries ?n = m" "lru_evicted ?n = []" "lru_OnEvicted ?n = b" by (simp_all add: NewLRUCache_def)
  then show ?thesis
    using lru_run_refines [OF NewLRUCache_wf(1) [of b store m], where ops = ops] unfolding NewLRUCache_wf(2)
    by (auto simp: lru_refines_def)
qed

lemma lru_find_SomeD: "lru_find k xs = Some r \<Longrightarrow> r \<in> set xs \<and> rec_key r = k"
  by (auto simp: lru_find_def find_Some_iff)

lemma lru_find_None_iff: "lru_find k xs = None \<longleftrightarrow> k \<notin> rec_key ` set xs"
  by (auto simp: lru_find_def find_None_iff)

lemma spec_run_length:
  assumes "0 < m" "int (length xs) \<le> m" "spec_run m ops xs = (ys, ev, rs)"
  shows "int (length ys) \<le> m"
  using assms(2,3)
proof (induction ops arbitrary: xs ev rs)
  case (Cons op ops)
  obtain zs e r where step: "spec_step m op xs = (zs, e, r)" by (cases "spec_step m op xs")
  have del: "length (lru_del k xs) \<le> length xs" for k by (simp add: lru_del_def)
  have del': "int (Suc (length (lru_del k xs))) \<le> m" if found: "lru_find k xs \<noteq> None" for k
  proof -
    obtain r where "r \<in> set xs" "rec_key r = k" using found by (auto dest: lru_find_SomeD)
    then have "length (lru_del k xs) < length xs" unfolding lru_del_def by (intro length_filter_less) auto
    then show ?thesis using Cons.prems(1) by simp
  qed
  have add: "int (length (fst (spec_add m rec xs))) \<le> m" for rec
    using del' [of "rec_key rec"] Cons.prems(1) assms(1) by (auto simp: spec_add_def)
  have "int (length zs) \<le> m"
  proof (cases op)
    case (LGet now k)
    then show ?thesis
      using step del [of k] del' [of k] Cons.prems(1) by (auto split: option.splits if_splits)
  next
    case (LRemove k)
    then show ?thesis using step del [of k] Cons.prems(1) by auto
  next
    case (LAdd k v)
    then show ?thesis using step add [of "\<lparr>rec_key = k, rec_value = v, rec_expireAt = None\<rparr>"] by simp
  next
    case (LAddWithTTL now k v d)
    then show ?thesis using step add [of "\<lparr>rec_key = k, rec_value = v, rec_expireAt = Some (now + d)\<rparr>"] by simp
  qed (use step Cons.prems(1) in auto)
  then show ?case using Cons.IH Cons.prems(2) step by (auto split: prod.splits)
qed simp

text \<open>C11: a cache with a positive limit never holds more entries than its limit.\<close>

theorem LRUCache_bounded:
  assumes "0 < m"
  shows "int (LRUCache_Size (fst (lru_run ops (NewLRUCache store m)))) \<le> m"
proof -
  have n: "lru_wf (NewLRUCache store m)" "lru_abs (NewLRUCache store m) = []" "lru_MaxEntries (NewLRUCache store m) = m"
    by (simp_all add: lru_wf_def lru_abs_def NewLRUCache_def)
  obtain xs ev rs where s: "spec_run m ops [] = (xs, ev, rs)" by (cases "spec_run m ops []")
  have "lru_abs (fst (lru_run ops (NewLRUCache store m))) = xs"
    using lru_run_refines [OF n(1), of ops] s by (auto simp: n lru_refines_def split: prod.splits)
  then have "LRUCache_Size (fst (lru_run ops (NewLRUCache store m))) = length xs"
    by (auto simp: LRUCache_Size_def lru_abs_def)
  then show ?thesis using spec_run_length [OF assms _ s] assms by simp
qed

theorem LRUCache_bounded_witness:
  "int (LRUCache_Size (fst (lru_run [LAdd (1::nat) INil, LAdd 2 INil, LAdd 3 INil]
     (NewLRUCache (\<lambda>_. \<lparr>rec_key = 0, rec_value = INil, rec_expireAt = None\<rparr>) 2)))) \<le> 2"
  by (rule LRUCache_bounded) simp

text \<open>
  The policy. \<open>lru_kept T k r xs\<close>: the record \<open>r\<close> of the key \<open>k\<close> is in the list and the keys used
  after it are among \<open>T\<close>.
\<close>

definition lru_kept :: "'k set \<Rightarrow> 'k \<Rightarrow> 'k cacheRecord \<Rightarrow> 'k lru_list \<Rightarrow> bool" where
  "lru_kept T k r xs \<longleftrightarrow>
     (\<exists>us vs. xs = us @ r # vs \<and> rec_key r = k \<and> rec_key ` set us \<subseteq> T \<and> distinct (map rec_key xs))"

primrec op_uses :: "'k lru_op \<Rightarrow> 'k set" where
  "op_uses (LAdd k v) = {k}"
| "op_uses (LAddWithTTL now k v d) = {k}"
| "op_uses (LGet now k) = {k}"
| "op_uses (LRemove k) = {}"
| "op_uses (LPeek k) = {}"
| "op_uses LSize = {}"

text \<open>Whether a call may replace or remove the entry of a key itself.\<close>

primrec op_spares :: "'k \<Rightarrow> 'k lru_op \<Rightarrow> bool" where
  "op_spares k (LAdd j v) = (j \<noteq> k)"
| "op_spares k (LAddWithTTL now j v d) = (j \<noteq> k)"
| "op_spares k (LGet now j) = True"
| "op_spares k (LRemove j) = (j \<noteq> k)"
| "op_spares k (LPeek j) = True"
| "op_spares k LSize = True"

lemma lru_keptI:
  "rec_key r = k \<Longrightarrow> rec_key ` set us \<subseteq> T \<Longrightarrow> distinct (map rec_key (us @ r # vs)) \<Longrightarrow> lru_kept T k r (us @ r # vs)"
  unfolding lru_kept_def by blast

lemma lru_kept_mono: "lru_kept T k r xs \<Longrightarrow> T \<subseteq> T' \<Longrightarrow> lru_kept T' k r xs"
  unfolding lru_kept_def by blast

lemma lru_kept_find:
  assumes "lru_kept T k r xs"
  shows "lru_find k xs = Some r"
proof -
  obtain us vs where xs: "xs = us @ r # vs" "rec_key r = k" "distinct (map rec_key xs)"
    using assms unfolding lru_kept_def by blast
  then have "k \<notin> rec_key ` set us" by auto
  then show ?thesis using xs(1,2) by (induction us arbitrary: xs) (auto simp: lru_find_def)
qed

lemma lru_del_kept:
  assumes "lru_kept T k r xs" "j \<noteq> k"
  shows "lru_kept T k r (lru_del j xs)"
proof -
  obtain us vs where xs: "xs = us @ r # vs" "rec_key r = k" "rec_key ` set us \<subseteq> T" "distinct (map rec_key xs)"
    using assms(1) unfolding lru_kept_def by blast
  have "lru_del j xs = lru_del j us @ r # lru_del j vs" using xs(1,2) assms(2) by (simp add: lru_del_def)
  moreover have "distinct (map rec_key (lru_del j xs))" using xs(4) by (simp add: lru_del_def distinct_map_filter)
  moreover have "rec_key ` set (lru_del j us) \<subseteq> T" using xs(3) by (auto simp: lru_del_def)
  ultimately show ?thesis using lru_keptI [OF xs(2)] by simp
qed

lemma lru_front_kept:
  assumes "lru_kept T k r xs" "rec_key n = j" "j \<noteq> k" "j \<notin> rec_key ` set xs"
  shows "lru_kept (insert j T) k r (n # xs)"
proof -
  obtain us vs where xs: "xs = us @ r # vs" "rec_key r = k" "rec_key ` set us \<subseteq> T" "distinct (map rec_key xs)"
    using assms(1) unfolding lru_kept_def by blast
  have "lru_kept (insert j T) k r ((n # us) @ r # vs)"
    using xs assms by (intro lru_keptI) auto
  then show ?thesis by (simp add: xs(1))
qed

lemma lru_evict_kept:
  assumes kept: "lru_kept T k r xs" and T: "finite T" "k \<notin> T" "int (card (insert j T)) < m"
    and new: "rec_key n = j" "j \<noteq> k" "j \<notin> rec_key ` set xs" and full: "m \<le> int (length xs)"
  shows "lru_kept (insert j T) k r (butlast (n # xs))"
proof -
  obtain us vs where xs: "xs = us @ r # vs" "rec_key r = k" "rec_key ` set us \<subseteq> T" "distinct (map rec_key xs)"
    using kept unfolding lru_kept_def by blast
  have "vs \<noteq> []"
  proof
    assume "vs = []"
    then have "card (insert j (rec_key ` set us)) = length xs"
      using xs new(3) by (auto simp: card_insert_if distinct_card [of "map rec_key us", simplified])
    moreover have "card (insert j (rec_key ` set us)) \<le> card (insert j T)"
      using xs(3) T(1) by (intro card_mono) auto
    ultimately show False using full T(3) by simp
  qed
  then have bl: "butlast (n # xs) = (n # us) @ r # butlast vs" by (simp add: xs(1) butlast_append)
  have "distinct (map rec_key (n # xs))" using xs(4) new by simp
  then have "distinct (map rec_key ((n # us) @ r # butlast vs))"
    unfolding bl [symmetric] map_butlast by (rule distinct_butlast)
  then show ?thesis unfolding bl using xs new by (intro lru_keptI) auto
qed

lemma spec_add_kept:
  assumes "lru_kept T k r xs" "finite T" "k \<notin> T" "rec_key n \<noteq> k" "int (card (insert (rec_key n) T)) < m"
  shows "lru_kept (insert (rec_key n) T) k r (fst (spec_add m n xs))"
proof (cases "lru_find (rec_key n) xs")
  case None
  then have "rec_key n \<notin> rec_key ` set xs" by (simp add: lru_find_None_iff)
  then show ?thesis
    using lru_front_kept [OF assms(1)] lru_evict_kept [OF assms(1-3,5)] None assms(4) by (simp add: spec_add_def)
next
  case (Some s)
  have "rec_key n \<notin> rec_key ` set (lru_del (rec_key n) xs)" by (auto simp: lru_del_def)
  then show ?thesis
    using lru_front_kept [OF lru_del_kept [OF assms(1,4)]] assms(4) Some by (simp add: spec_add_def)
qed

lemma spec_step_kept:
  assumes kept: "lru_kept T k r xs" and T: "finite T" "k \<notin> T" and never: "rec_expireAt r = None"
    and op: "op_spares k op" "int (card (T \<union> (op_uses op - {k}))) < m"
  shows "lru_kept (T \<union> (op_uses op - {k})) k r (fst (spec_step m op xs))"
proof (cases op)
  case (LAdd j v)
  then show ?thesis
    using spec_add_kept [OF kept T, of "\<lparr>rec_key = j, rec_value = v, rec_expireAt = None\<rparr>" m] op by simp
next
  case (LAddWithTTL now j v d)
  then show ?thesis
    using spec_add_kept [OF kept T, of "\<lparr>rec_key = j, rec_value = v, rec_expireAt = Some (now + d)\<rparr>" m] op by simp
next
  case (LGet now j)
  show ?thesis
  proof (cases "j = k")
    case True
    obtain us vs where xs: "xs = us @ r # vs" "rec_key r = k" "distinct (map rec_key xs)"
      using kept unfolding lru_kept_def by blast
    have "lru_kept T k r ([] @ r # lru_del k xs)"
      using xs by (intro lru_keptI) (auto simp: lru_del_def distinct_map_filter)
    then show ?thesis
      using True lru_kept_find [OF kept] never by (simp add: LGet record_expired_def lru_kept_def)
  next
    case False
    have del: "lru_kept T k r (lru_del j xs)" by (rule lru_del_kept [OF kept False])
    have notin: "j \<notin> rec_key ` set (lru_del j xs)" by (auto simp: lru_del_def)
    show ?thesis
    proof (cases "lru_find j xs")
      case None
      then show ?thesis using lru_kept_mono [OF kept] by (auto simp: LGet)
    next
      case (Some s)
      then have "rec_key s = j" by (auto dest: lru_find_SomeD)
      then show ?thesis
        using Some lru_kept_mono [OF del] lru_front_kept [OF del _ False notin] False by (auto simp: LGet)
    qed
  qed
next
  case (LRemove j)
  then show ?thesis using lru_del_kept [OF kept] op by simp
qed (use kept in simp_all)

lemma spec_run_kept:
  assumes "lru_kept T k r xs" "finite T" "k \<notin> T" "rec_expireAt r = None" "list_all (op_spares k) ops"
    and "int (card (T \<union> (\<Union> (op_uses ` set ops) - {k}))) < m"
  shows "lru_find k (fst (spec_run m ops xs)) = Some r"
  using assms
proof (induction ops arbitrary: T xs)
  case Nil
  then show ?case by (simp add: lru_kept_find)
next
  case (Cons op ops)
  let ?U = "T \<union> (op_uses op - {k})"
  have fin: "finite (op_uses o')" for o' :: "'a lru_op" by (cases o') simp_all
  have sub: "T \<union> (\<Union> (op_uses ` set (op # ops)) - {k}) = ?U \<union> (\<Union> (op_uses ` set ops) - {k})" by auto
  have "finite (?U \<union> (\<Union> (op_uses ` set ops) - {k}))" using Cons.prems(2) fin by auto
  then have "card ?U \<le> card (?U \<union> (\<Union> (op_uses ` set ops) - {k}))" by (intro card_mono) auto
  then have "int (card ?U) < m" using Cons.prems(6) unfolding sub by linarith
  then have "lru_kept ?U k r (fst (spec_step m op xs))"
    using Cons.prems by (intro spec_step_kept) auto
  then have "lru_find k (fst (spec_run m ops (fst (spec_step m op xs)))) = Some r"
    using Cons.prems fin unfolding sub by (intro Cons.IH [of ?U]) auto
  then show ?case by (auto split: prod.splits)
qed

lemma spec_add_front:
  assumes "0 \<le> m" "distinct (map rec_key xs)"
  shows "lru_kept {} (rec_key n) n (fst (spec_add m n xs))"
proof (cases "lru_find (rec_key n) xs")
  case None
  then have d: "distinct (map rec_key (n # xs))" using assms(2) by (simp add: lru_find_None_iff)
  show ?thesis
  proof (cases "xs = []")
    case True
    then show ?thesis using None assms(1) by (auto simp: spec_add_def lru_kept_def)
  next
    case False
    then have bl: "butlast (n # xs) = [] @ n # butlast xs" by simp
    have "distinct (map rec_key (butlast (n # xs)))" using d distinct_butlast by (metis map_butlast)
    then have "lru_kept {} (rec_key n) n (butlast (n # xs))" unfolding bl by (intro lru_keptI) auto
    moreover have "lru_kept {} (rec_key n) n ([] @ n # xs)" using d by (intro lru_keptI) auto
    ultimately show ?thesis using None by (simp add: spec_add_def)
  qed
next
  case (Some s)
  have "distinct (map rec_key ([] @ n # lru_del (rec_key n) xs))"
    using assms(2) by (auto simp: lru_del_def distinct_map_filter)
  then have "lru_kept {} (rec_key n) n ([] @ n # lru_del (rec_key n) xs)" by (intro lru_keptI) auto
  then show ?thesis using Some by (simp add: spec_add_def)
qed

text \<open>
  C10: the cache is least recently used: whatever happened before, an entry added without a time
  to live is still found with its value after any calls that do not themselves add or remove its
  key and that use fewer other keys than the cache has places.
\<close>

theorem LRUCache_keeps_recent:
  assumes "0 < m" and "list_all (op_spares k) ops" and "int (card (\<Union> (op_uses ` set ops) - {k})) < m"
    and "c0 = fst (lru_run ops0 (NewLRUCache store m))" and "c1 = fst (LRUCache_Add c0 k v)"
  shows "LRUCache_Peek (fst (lru_run ops c1)) k = Some v"
proof -
  let ?r = "\<lparr>rec_key = k, rec_value = v, rec_expireAt = None\<rparr>"
  have n: "lru_wf (NewLRUCache store m)" "lru_MaxEntries (NewLRUCache store m) = m"
    by (simp_all add: lru_wf_def NewLRUCache_def)
  have c0: "lru_wf c0" "lru_MaxEntries c0 = m"
    using lru_run_refines [OF n(1), of ops0] by (auto simp: assms(4) n lru_refines_def split: prod.splits)
  obtain b where add: "addRecord c0 ?r = (c1, b)"
    unfolding assms(5) LRUCache_Add_def by (cases "addRecord c0 ?r") simp
  have c1: "lru_wf c1" "lru_MaxEntries c1 = m" "lru_abs c1 = fst (spec_add m ?r (lru_abs c0))"
    using addRecord_refines [OF c0(1), of ?r] c0(2) add by (auto simp: lru_refines_def split: prod.splits)
  have "lru_kept {} k ?r (lru_abs c1)"
    using spec_add_front [of m "lru_abs c0" ?r] lru_abs_keys [OF c0(1)] assms(1) c1(3) by simp
  then have "lru_find k (fst (spec_run m ops (lru_abs c1))) = Some ?r"
    using assms(2,3) by (intro spec_run_kept [of "{}"]) auto
  moreover have "lru_wf (fst (lru_run ops c1)) \<and> lru_abs (fst (lru_run ops c1)) = fst (spec_run m ops (lru_abs c1))"
    using lru_run_refines [OF c1(1), of ops] c1(2) by (auto simp: lru_refines_def split: prod.splits)
  ultimately have "map_option (lru_recs (fst (lru_run ops c1))) (map_of (lru_cache (fst (lru_run ops c1))) k) = Some ?r"
    using lru_find_abs by metis
  then show ?thesis by (auto simp: LRUCache_Peek_def)
qed

theorem LRUCache_keeps_recent_witness:
  "LRUCache_Peek (fst (lru_run [LAdd 2 INil, LGet 0 1, LAdd (3::nat) INil]
     (fst (LRUCache_Add (NewLRUCache (\<lambda>_. \<lparr>rec_key = 0, rec_value = INil, rec_expireAt = None\<rparr>) 3) 1 (IInt 7))))) 1 = Some (IInt 7)"
  by (rule LRUCache_keeps_recent [where m = 3 and ?ops0.0 = "[]"]) simp_all

section \<open>Statistics\<close>

definition get_results :: "'k lru_op list \<Rightarrow> lru_result list \<Rightarrow> lru_result list" where
  "get_results ops rs = map snd (filter (\<lambda>(op, r). case op of LGet _ _ \<Rightarrow> True | _ \<Rightarrow> False) (zip ops rs))"

definition hits :: "lru_result list \<Rightarrow> nat" where
  "hits rs = length (filter (\<lambda>r. r \<noteq> RValue None) rs)"

definition misses :: "lru_result list \<Rightarrow> nat" where
  "misses rs = length (filter (\<lambda>r. r = RValue None) rs)"

lemma removeElement_stats [simp]: "lru_stats (removeElement c a) = lru_stats c"
  by (simp add: removeElement_def Let_def)

lemma addRecord_stats [simp]: "lru_stats (fst (addRecord c r)) = lru_stats c"
  by (simp add: addRecord_def removeOldest_def Let_def split: option.splits)

lemma lru_step_stats:
  "lru_stats (fst (lru_step op c)) =
     (case op of LGet _ _ \<Rightarrow> (if snd (lru_step op c) = RValue None then stats_miss else stats_hit) (lru_stats c) | _ \<Rightarrow> lru_stats c)"
  by (cases op)
    (auto simp: LRUCache_Add_def LRUCache_AddWithTTL_def LRUCache_Get_def LRUCache_Remove_def Let_def split: option.splits)

lemma lru_run_stats:
  assumes "0 \<le> stats_Hit (lru_stats c)" "0 \<le> stats_Miss (lru_stats c)"
    and "stats_Hit (lru_stats c) + stats_Miss (lru_stats c) + int (length ops) < 2 ^ 63"
  shows "lru_stats (fst (lru_run ops c)) =
    (lru_stats c)\<lparr>stats_Hit := stats_Hit (lru_stats c) + int (hits (get_results ops (snd (lru_run ops c)))),
                 stats_Miss := stats_Miss (lru_stats c) + int (misses (get_results ops (snd (lru_run ops c))))\<rparr>"
  using assms
proof (induction ops arbitrary: c)
  case Nil
  then show ?case by (simp add: get_results_def hits_def misses_def)
next
  case (Cons op ops)
  obtain c1 r where c1: "lru_step op c = (c1, r)" by (cases "lru_step op c")
  obtain c2 rs where c2: "lru_run ops c1 = (c2, rs)" by (cases "lru_run ops c1")
  have i64s: "i64 (stats_Hit (lru_stats c) + 1) = stats_Hit (lru_stats c) + 1" "i64 (stats_Miss (lru_stats c) + 1) = stats_Miss (lru_stats c) + 1"
    using Cons.prems by (auto intro!: i64_id simp: in_i64_def)
  have s1: "lru_stats c1 = (case op of LGet _ _ \<Rightarrow> (if r = RValue None then stats_miss else stats_hit) (lru_stats c) | _ \<Rightarrow> lru_stats c)"
    using lru_step_stats [of op c] c1 by simp
  have "lru_stats c2 = (lru_stats c1)\<lparr>stats_Hit := stats_Hit (lru_stats c1) + int (hits (get_results ops rs)),
                 stats_Miss := stats_Miss (lru_stats c1) + int (misses (get_results ops rs))\<rparr>"
    using Cons.IH [of c1] Cons.prems c2 s1 i64s by (cases op) (auto simp: stats_miss_def stats_hit_def split: if_splits)
  then show ?case
    using c1 c2 s1 i64s by (cases op) (auto simp: stats_miss_def stats_hit_def get_results_def hits_def misses_def)
qed

text \<open>
  \<^verbatim>\<open>Stats\<close> reports the number of entries and exactly how many \<^verbatim>\<open>Get\<close> calls since the cache was
  created hit and missed, an expired entry counting as a miss, and resets the counters.
\<close>

theorem LRUCache_Stats_exact:
  assumes "length ops < 2 ^ 63" and "lru_run ops (NewLRUCache store m) = (c, rs)"
  shows "LRUCache_Stats c = (c\<lparr>lru_stats := zero_stats\<rparr>,
    \<lparr>stats_Size = int (LRUCache_Size c), stats_Miss = int (misses (get_results ops rs)), stats_Hit = int (hits (get_results ops rs))\<rparr>)"
proof -
  have n: "lru_wf (NewLRUCache store m)" "lru_stats (NewLRUCache store m) = zero_stats"
    by (simp_all add: lru_wf_def NewLRUCache_def)
  have wf: "lru_wf c" using lru_run_refines [OF n(1), of ops] assms(2) by (auto simp: lru_refines_def split: prod.splits)
  have "dom (map_of (lru_cache c)) = (\<lambda>a. rec_key (lru_recs c a)) ` set (lru_ll c)"
    using lru_wfD(4) [OF wf] by (auto simp: dom_def)
  moreover have "inj_on (\<lambda>a. rec_key (lru_recs c a)) (set (lru_ll c))"
    using lru_wf_inj [OF wf] by (auto simp: inj_on_def)
  ultimately have "length (lru_cache c) = length (lru_ll c)"
    using gomap_card_dom [OF lru_wfD(1) [OF wf]] distinct_card [OF lru_wfD(2) [OF wf]] by (simp add: card_image)
  moreover have "int (length ops) < 2 ^ 63" using assms(1) by simp
  ultimately show ?thesis
    using lru_run_stats [of "NewLRUCache store m" ops] assms(2)
    by (simp add: n zero_stats_def LRUCache_Stats_def LRUCache_Size_def)
qed

theorem LRUCache_Stats_exact_witness:
  "snd (LRUCache_Stats (fst (lru_run [LAdd (1::nat) INil, LGet 0 1, LGet 0 2]
     (NewLRUCache (\<lambda>_. \<lparr>rec_key = 0, rec_value = INil, rec_expireAt = None\<rparr>) 2)))) =
   \<lparr>stats_Size = 1, stats_Miss = 1, stats_Hit = 1\<rparr>"
proof -
  let ?n = "NewLRUCache (\<lambda>_. \<lparr>rec_key = 0, rec_value = INil, rec_expireAt = None\<rparr>) 2"
  let ?ops = "[LAdd (1::nat) INil, LGet 0 1, LGet 0 2]"
  have run: "lru_run ?ops ?n = (fst (lru_run ?ops ?n), snd (lru_run ?ops ?n))" by simp
  have "snd (lru_run ?ops ?n) = [RBool False, RValue (Some INil), RValue None]" "LRUCache_Size (fst (lru_run ?ops ?n)) = 1"
    by (simp_all add: NewLRUCache_def LRUCache_Add_def addRecord_def LRUCache_Get_def record_expired_def LRUCache_Size_def list_MoveToFront_def)
  with LRUCache_Stats_exact [OF _ run] show ?thesis by (simp add: get_results_def hits_def misses_def)
qed

end
