(* ===== verification/Go_Sched.thy ===== *)
theory Go_Sched
  imports Go_Prelude
begin

text \<open>
  Goroutines that interleave. A system of goroutines is a function that gives, for the number of a
  goroutine (with a choice, where the language leaves one open) and the state, what its next action
  does: \<open>None\<close> when it is blocked or has ended, a panic, or the new state. A schedule is the list of
  the goroutines that act; an execution is any sequence
  of such actions. Two interfaces carry the proofs about step relations: one for invariants, one
  for systems in which every execution is finite.
\<close>

section \<open>Schedules\<close>

definition can_step :: "('i \<Rightarrow> 's \<Rightarrow> 's go option) \<Rightarrow> 's \<Rightarrow> 's \<Rightarrow> bool" where
  "can_step act s s' \<longleftrightarrow> (\<exists>i. act i s = Some (Ret s'))"

primrec run_schedule :: "('i \<Rightarrow> 's \<Rightarrow> 's go option) \<Rightarrow> 'i list \<Rightarrow> 's \<Rightarrow> 's go option" where
  "run_schedule act [] s = Some (Ret s)"
| "run_schedule act (i # is) s =
     (case act i s of None \<Rightarrow> None | Some (Panic p) \<Rightarrow> Some (Panic p) | Some (Ret s') \<Rightarrow> run_schedule act is s')"

lemma run_schedule_steps: "run_schedule act is s = Some (Ret s') \<Longrightarrow> (can_step act)\<^sup>*\<^sup>* s s'"
proof (induction "is" arbitrary: s)
  case (Cons i "is")
  then obtain s1 where "act i s = Some (Ret s1)" and rest: "run_schedule act is s1 = Some (Ret s')"
    by (auto split: option.splits go.splits)
  then have "can_step act s s1" by (auto simp: can_step_def)
  then show ?case using Cons.IH [OF rest] by (rule converse_rtranclp_into_rtranclp)
qed simp

text \<open>The schedule runs to a state with the given property.\<close>

definition schedule_yields :: "('i \<Rightarrow> 's \<Rightarrow> 's go option) \<Rightarrow> 'i list \<Rightarrow> 's \<Rightarrow> ('s \<Rightarrow> bool) \<Rightarrow> bool" where
  "schedule_yields act is s P \<longleftrightarrow> (case run_schedule act is s of Some (Ret s') \<Rightarrow> P s' | _ \<Rightarrow> False)"

lemma schedule_yields_state: "schedule_yields act is s P \<Longrightarrow> \<exists>s'. (can_step act)\<^sup>*\<^sup>* s s' \<and> P s'"
  unfolding schedule_yields_def using run_schedule_steps [of act "is" s] by (auto split: option.splits go.splits)

section \<open>Interfaces\<close>

locale invariant_system =
  fixes step :: "'s \<Rightarrow> 's \<Rightarrow> bool" and inv :: "'s \<Rightarrow> bool"
  assumes inv_step: "inv s \<Longrightarrow> step s s' \<Longrightarrow> inv s'"
begin

lemma inv_steps: "step\<^sup>*\<^sup>* s s' \<Longrightarrow> inv s \<Longrightarrow> inv s'"
  by (induction rule: rtranclp_induct) (blast intro: inv_step)+

end

locale terminating_system = invariant_system +
  fixes weight :: "'a \<Rightarrow> nat"
  assumes weight_step: "inv s \<Longrightarrow> step s s' \<Longrightarrow> weight s' < weight s"
begin

lemma no_infinite_run:
  assumes "inv s"
  shows "\<not> (\<exists>f. f 0 = s \<and> (\<forall>i. step (f i) (f (Suc i))))"
proof
  assume "\<exists>f. f 0 = s \<and> (\<forall>i. step (f i) (f (Suc i)))"
  then obtain f where f: "f 0 = s" "\<And>i. step (f i) (f (Suc i))" by blast
  have "inv (f i)" for i by (induction i) (use f assms in \<open>auto intro: inv_step\<close>)
  then have "(f (Suc i), f i) \<in> measure weight" for i using weight_step f(2) by simp
  then show False using wf_measure [of weight] by (meson wf_iff_no_infinite_down_chain)
qed

lemma reaches_end: "inv s \<Longrightarrow> \<exists>s'. step\<^sup>*\<^sup>* s s' \<and> inv s' \<and> (\<forall>s''. \<not> step s' s'')"
proof (induction "weight s" arbitrary: s rule: less_induct)
  case less
  show ?case
  proof (cases "\<exists>s1. step s s1")
    case True
    then obtain s1 where s1: "step s s1" by blast
    then show ?thesis
      using less.hyps [OF weight_step [OF less.prems s1] inv_step [OF less.prems s1]]
      by (meson converse_rtranclp_into_rtranclp)
  qed (use less.prems in blast)
qed

end

section \<open>Sums over goroutines\<close>

lemma sum_list_upd:
  fixes g :: "'t \<Rightarrow> 'm :: cancel_comm_monoid_add"
  shows "i < length ts \<Longrightarrow> sum_list (map g (ts[i := t])) + g (ts ! i) = sum_list (map g ts) + g t"
proof (induction ts arbitrary: i)
  case (Cons u us)
  show ?case
  proof (cases i)
    case (Suc j)
    then have "sum_list (map g (us[j := t])) + g (us ! j) = sum_list (map g us) + g t" using Cons by simp
    then show ?thesis using Suc by (simp add: add.assoc)
  qed (simp add: ac_simps)
qed simp

lemma sum_list_upd_int:
  "i < length ts \<Longrightarrow> sum_list (map (g :: 't \<Rightarrow> int) (ts[i := t])) = sum_list (map g ts) - g (ts ! i) + g t"
  using sum_list_upd [of i ts g t] by simp

lemma sum_list_upd_nat:
  "i < length ts \<Longrightarrow> sum_list (map (g :: 't \<Rightarrow> nat) (ts[i := t])) = sum_list (map g ts) - g (ts ! i) + g t"
  using sum_list_upd [of i ts g t] member_le_sum_list [of "g (ts ! i)" "map g ts"] by simp

lemma sum_list_upd_mset:
  "i < length ts \<Longrightarrow>
   sum_list (map (g :: 't \<Rightarrow> 'm multiset) (ts[i := t])) = sum_list (map g ts) - g (ts ! i) + g t"
proof -
  assume i: "i < length ts"
  then have "g (ts ! i) \<subseteq># sum_list (map g ts)"
  proof (induction ts arbitrary: i)
    case (Cons u us)
    then show ?case by (cases i) (auto simp: subset_mset.add_increasing)
  qed simp
  then show ?thesis using sum_list_upd [OF i, of g t] by (metis add_diff_cancel_right' subset_mset.diff_add_assoc2)
qed

end
