(* ===== verification/Fan_Out.thy ===== *)
theory Fan_Out
  imports Go_Sched
begin

text \<open>
  \<^verbatim>\<open>fanout.go\<close> (\<^verbatim>\<open>v3/syncutil/fanout.go\<close> has the same code): a pool that runs at most \<open>size\<close>
  callbacks at a time and collects their errors. The model is a step relation over the caller,
  who calls \<^verbatim>\<open>Run\<close> for each piece of data and then \<^verbatim>\<open>Wait\<close>, the goroutines it starts, the
  collector, and the two buffered channels; steps of different goroutines interleave freely.
  A callback is a function from its data to its error. Sending on or closing a closed channel
  is a step to a state that has panicked, and it is proved that no such state is reached.
\<close>

section \<open>States\<close>

text \<open>
  A goroutine started by \<^verbatim>\<open>Run\<close> executes its callback, then sends the error if there is one, then
  gives back its place. The caller has still data to run, or is in \<^verbatim>\<open>Wait\<close>: it takes all places,
  closes the channel of errors, and waits for the collector.
\<close>

datatype ('d, 'e) worker = Exec 'd | Send 'e | Release

datatype ('d, 'e) caller =
    Running "'d list"
  | Filling nat
  | Joining
  | Returned "'e list option"

record ('d, 'e) FanOut =
  fo_cap :: nat
  fo_size :: nat
  fo_errChan :: "'e list"
  fo_closed :: bool
  fo_errs :: "'e list"
  fo_collecting :: bool
  fo_workers :: "('d, 'e) worker multiset"
  fo_caller :: "('d, 'e) caller"
  fo_panic :: bool

text \<open>\<^verbatim>\<open>make\<close> panics for a negative size; size 0 means 1.\<close>

definition NewFanOut :: "int \<Rightarrow> 'd list \<Rightarrow> ('d, 'e) FanOut go" where
  "NewFanOut sz ds =
     (let sz' = (if sz = 0 then 1 else sz)
      in if sz' < 0 then Panic (UserPanic ''makechan: size out of range'')
         else Ret \<lparr>fo_cap = nat sz', fo_size = 0, fo_errChan = [], fo_closed = False, fo_errs = [],
                   fo_collecting = True, fo_workers = {#}, fo_caller = Running ds, fo_panic = False\<rparr>)"

section \<open>Steps\<close>

text \<open>The error collector of \<^verbatim>\<open>start\<close>: it appends what it receives and ends on a closed, empty channel.\<close>

inductive collector_step :: "('d, 'e) FanOut \<Rightarrow> ('d, 'e) FanOut \<Rightarrow> bool" where
  Collect: "fo_collecting s \<Longrightarrow> fo_errChan s = err # q \<Longrightarrow>
    collector_step s (s\<lparr>fo_errChan := q, fo_errs := fo_errs s @ [err]\<rparr>)"
| CollectorEnd: "fo_collecting s \<Longrightarrow> fo_errChan s = [] \<Longrightarrow> fo_closed s \<Longrightarrow>
    collector_step s (s\<lparr>fo_collecting := False\<rparr>)"

text \<open>\<^verbatim>\<open>Run\<close>: the caller takes a place and starts a goroutine, whose steps follow.\<close>

inductive run_step :: "('d \<Rightarrow> 'e option) \<Rightarrow> ('d, 'e) FanOut \<Rightarrow> ('d, 'e) FanOut \<Rightarrow> bool" for callBack where
  Spawn: "fo_caller s = Running (d # ds) \<Longrightarrow> fo_size s < fo_cap s \<Longrightarrow>
    run_step callBack s (s\<lparr>fo_size := Suc (fo_size s), fo_workers := add_mset (Exec d) (fo_workers s), fo_caller := Running ds\<rparr>)"
| Finish: "fo_workers s = add_mset (Exec d) W \<Longrightarrow>
    run_step callBack s (s\<lparr>fo_workers := add_mset (case callBack d of None \<Rightarrow> Release | Some err \<Rightarrow> Send err) W\<rparr>)"
| SendErr: "fo_workers s = add_mset (Send err) W \<Longrightarrow> \<not> fo_closed s \<Longrightarrow> length (fo_errChan s) < fo_cap s \<Longrightarrow>
    run_step callBack s (s\<lparr>fo_workers := add_mset Release W, fo_errChan := fo_errChan s @ [err]\<rparr>)"
| SendPanic: "fo_workers s = add_mset (Send err) W \<Longrightarrow> fo_closed s \<Longrightarrow> run_step callBack s (s\<lparr>fo_panic := True\<rparr>)"
| Leave: "fo_workers s = add_mset Release W \<Longrightarrow> 0 < fo_size s \<Longrightarrow>
    run_step callBack s (s\<lparr>fo_workers := W, fo_size := fo_size s - 1\<rparr>)"

inductive wait_step :: "('d, 'e) FanOut \<Rightarrow> ('d, 'e) FanOut \<Rightarrow> bool" where
  WaitCall: "fo_caller s = Running [] \<Longrightarrow> wait_step s (s\<lparr>fo_caller := Filling 0\<rparr>)"
| Fill: "fo_caller s = Filling i \<Longrightarrow> i < fo_cap s \<Longrightarrow> fo_size s < fo_cap s \<Longrightarrow>
    wait_step s (s\<lparr>fo_caller := Filling (Suc i), fo_size := Suc (fo_size s)\<rparr>)"
| Close: "fo_caller s = Filling (fo_cap s) \<Longrightarrow> \<not> fo_closed s \<Longrightarrow>
    wait_step s (s\<lparr>fo_caller := Joining, fo_closed := True\<rparr>)"
| ClosePanic: "fo_caller s = Filling (fo_cap s) \<Longrightarrow> fo_closed s \<Longrightarrow> wait_step s (s\<lparr>fo_panic := True\<rparr>)"
| Join: "fo_caller s = Joining \<Longrightarrow> \<not> fo_collecting s \<Longrightarrow>
    wait_step s (s\<lparr>fo_caller := Returned (if fo_errs s = [] then None else Some (fo_errs s))\<rparr>)"

inductive_cases collector_stepE: "collector_step s s'"
inductive_cases run_stepE: "run_step callBack s s'"
inductive_cases wait_stepE: "wait_step s s'"

definition fo_step :: "('d \<Rightarrow> 'e option) \<Rightarrow> ('d, 'e) FanOut \<Rightarrow> ('d, 'e) FanOut \<Rightarrow> bool" where
  "fo_step callBack s s' \<longleftrightarrow> \<not> fo_panic s \<and> (collector_step s s' \<or> run_step callBack s s' \<or> wait_step s s')"

text \<open>The states reached when \<open>ds\<close> are run in a pool of the given size.\<close>

inductive fo_reach :: "('d \<Rightarrow> 'e option) \<Rightarrow> int \<Rightarrow> 'd list \<Rightarrow> ('d, 'e) FanOut \<Rightarrow> bool" for callBack sz ds where
  init: "NewFanOut sz ds = Ret s \<Longrightarrow> fo_reach callBack sz ds s"
| step: "fo_reach callBack sz ds s \<Longrightarrow> fo_step callBack s s' \<Longrightarrow> fo_reach callBack sz ds s'"

section \<open>Invariant\<close>

text \<open>The errors a goroutine still has to report, and those of the data still to run.\<close>

primrec pending :: "('d \<Rightarrow> 'e option) \<Rightarrow> ('d, 'e) worker \<Rightarrow> 'e multiset" where
  "pending cb (Exec d) = (case cb d of None \<Rightarrow> {#} | Some e \<Rightarrow> {#e#})"
| "pending cb (Send e) = {#e#}"
| "pending cb Release = {#}"

definition errors_of :: "('d \<Rightarrow> 'e option) \<Rightarrow> 'd list \<Rightarrow> 'e multiset" where
  "errors_of cb ds = mset (List.map_filter cb ds)"

primrec todo :: "('d, 'e) caller \<Rightarrow> 'd list" where
  "todo (Running ds) = ds"
| "todo (Filling i) = []"
| "todo Joining = []"
| "todo (Returned r) = []"

primrec held :: "nat \<Rightarrow> ('d, 'e) caller \<Rightarrow> nat" where
  "held n (Running ds) = 0"
| "held n (Filling i) = i"
| "held n Joining = n"
| "held n (Returned r) = n"

definition fo_inv :: "('d \<Rightarrow> 'e option) \<Rightarrow> 'd list \<Rightarrow> ('d, 'e) FanOut \<Rightarrow> bool" where
  "fo_inv cb ds s \<longleftrightarrow>
     \<not> fo_panic s \<and> 0 < fo_cap s \<and>
     fo_size s = size (fo_workers s) + held (fo_cap s) (fo_caller s) \<and> fo_size s \<le> fo_cap s \<and>
     fo_closed s = (case fo_caller s of Joining \<Rightarrow> True | Returned _ \<Rightarrow> True | _ \<Rightarrow> False) \<and>
     (\<not> fo_collecting s \<longrightarrow> fo_closed s \<and> fo_errChan s = []) \<and>
     errors_of cb ds = mset (fo_errs s) + mset (fo_errChan s) + \<Sum>\<^sub># (image_mset (pending cb) (fo_workers s)) +
       errors_of cb (todo (fo_caller s)) \<and>
     (\<forall>r. fo_caller s = Returned r \<longrightarrow> \<not> fo_collecting s \<and> r = (if fo_errs s = [] then None else Some (fo_errs s)))"

lemma errors_of_simps [simp]:
  "errors_of cb [] = {#}"
  "errors_of cb (d # ds) = pending cb (Exec d) + errors_of cb ds"
  by (simp_all add: errors_of_def map_filter_simps split: option.splits)

lemma errors_of_iff: "e \<in># errors_of cb ds \<longleftrightarrow> (\<exists>d \<in> set ds. cb d = Some e)"
  by (induction ds) (auto split: option.splits)

lemma errors_of_empty_iff: "errors_of cb ds = {#} \<longleftrightarrow> (\<forall>d \<in> set ds. cb d = None)"
  by (induction ds) (auto split: option.splits)

lemma fo_inv_init: "NewFanOut sz ds = Ret s \<Longrightarrow> fo_inv cb ds s"
  by (auto simp: NewFanOut_def fo_inv_def Let_def split: if_splits)

lemma fo_inv_closed_no_workers:
  assumes "fo_inv cb ds s" "fo_closed s"
  shows "fo_workers s = {#}"
proof -
  have "held (fo_cap s) (fo_caller s) = fo_cap s" using assms by (auto simp: fo_inv_def split: caller.splits)
  then have "size (fo_workers s) = 0" using assms(1) unfolding fo_inv_def by linarith
  then show ?thesis by simp
qed

lemma fo_inv_collector: "fo_inv cb ds s \<Longrightarrow> collector_step s s' \<Longrightarrow> fo_inv cb ds s'"
  by (erule collector_stepE) (auto simp: fo_inv_def)

lemma fo_inv_run:
  assumes inv: "fo_inv cb ds s" and step: "run_step cb s s'"
  shows "fo_inv cb ds s'"
  using step fo_inv_closed_no_workers [OF inv]
  by (elim run_stepE) (use inv in \<open>auto simp: fo_inv_def ac_simps split: option.splits\<close>)

lemma fo_inv_wait:
  assumes inv: "fo_inv cb ds s" and step: "wait_step s s'"
  shows "fo_inv cb ds s'"
  using step inv by (cases rule: wait_stepE) (auto simp: fo_inv_def)

lemma fo_reach_inv: "fo_reach cb sz ds s \<Longrightarrow> fo_inv cb ds s"
  by (induction rule: fo_reach.induct) (auto simp: fo_step_def intro: fo_inv_init fo_inv_collector fo_inv_run fo_inv_wait)

section \<open>Progress and termination\<close>

lemma fo_progress:
  assumes inv: "fo_inv cb ds s" and not_done: "\<And>r. fo_caller s \<noteq> Returned r"
  shows "\<exists>s'. fo_step cb s s'"
proof -
  have np: "\<not> fo_panic s" and cap: "0 < fo_cap s"
    and collecting: "\<not> fo_closed s \<Longrightarrow> fo_collecting s"
    and sz: "fo_size s = size (fo_workers s) + held (fo_cap s) (fo_caller s)" "fo_size s \<le> fo_cap s"
    and closed: "fo_closed s = (case fo_caller s of Joining \<Rightarrow> True | Returned _ \<Rightarrow> True | _ \<Rightarrow> False)"
    using inv by (auto simp: fo_inv_def)
  have "\<exists>s'. collector_step s s' \<or> run_step cb s s' \<or> wait_step s s'"
  proof (cases "fo_workers s = {#}")
    case False
    then obtain w W where w: "fo_workers s = add_mset w W" by (meson multiset_cases)
    then have open_: "\<not> fo_closed s" using fo_inv_closed_no_workers [OF inv] by auto
    show ?thesis
    proof (cases w)
      case (Send e)
      show ?thesis
      proof (cases "length (fo_errChan s) < fo_cap s")
        case True
        then show ?thesis using w Send open_ by (blast intro: run_step.SendErr)
      next
        case full: False
        then obtain x q where "fo_errChan s = x # q" using cap by (cases "fo_errChan s") auto
        then show ?thesis using collecting [OF open_] by (blast intro: collector_step.Collect)
      qed
    next
      case Release
      have "0 < fo_size s" using sz w by simp
      then show ?thesis using w Release by (blast intro: run_step.Leave)
    qed (use w in \<open>blast intro: run_step.Finish\<close>)
  next
    case none: True
    show ?thesis
    proof (cases "fo_caller s")
      case (Running ds')
      moreover from this have "fo_size s < fo_cap s" using none sz cap by simp
      ultimately show ?thesis by (cases ds') (blast intro: run_step.Spawn wait_step.WaitCall)+
    next
      case (Filling i)
      then have *: "fo_size s = i" "i \<le> fo_cap s" "\<not> fo_closed s" using none sz closed by auto
      show ?thesis
      proof (cases "i < fo_cap s")
        case True
        then have "fo_size s < fo_cap s" using * by simp
        then show ?thesis using True Filling by (blast intro: wait_step.Fill)
      next
        case False
        then have "fo_caller s = Filling (fo_cap s)" using * Filling by simp
        then show ?thesis using * by (blast intro: wait_step.Close)
      qed
    next
      case Joining
      moreover from this have "fo_closed s" using closed by simp
      ultimately show ?thesis
        by (cases "fo_errChan s"; cases "fo_collecting s") (blast intro: collector_step.intros wait_step.Join)+
    qed (use not_done in simp)
  qed
  then show ?thesis using np by (auto simp: fo_step_def)
qed

primrec worker_weight :: "('d, 'e) worker \<Rightarrow> nat" where
  "worker_weight (Exec d) = 6"
| "worker_weight (Send e) = 5"
| "worker_weight Release = 1"

primrec caller_weight :: "nat \<Rightarrow> ('d, 'e) caller \<Rightarrow> nat" where
  "caller_weight n (Running ds) = 7 * length ds + n + 3"
| "caller_weight n (Filling i) = n - i + 2"
| "caller_weight n Joining = 1"
| "caller_weight n (Returned r) = 0"

definition fo_weight :: "('d, 'e) FanOut \<Rightarrow> nat" where
  "fo_weight s =
     \<Sum>\<^sub># (image_mset worker_weight (fo_workers s)) + 2 * length (fo_errChan s) + (if fo_collecting s then 1 else 0) +
     caller_weight (fo_cap s) (fo_caller s)"

lemma fo_step_weight:
  assumes inv: "fo_inv cb ds s" and step: "fo_step cb s s'"
  shows "fo_weight s' < fo_weight s"
proof -
  have "\<not> (fo_closed s \<and> fo_workers s \<noteq> {#})" "\<not> (fo_caller s = Filling i \<and> fo_closed s)" for i
    using fo_inv_closed_no_workers [OF inv] inv by (auto simp: fo_inv_def)
  with step show ?thesis
    unfolding fo_step_def
    by (elim conjE disjE collector_stepE run_stepE wait_stepE) (auto simp: fo_weight_def split: option.splits)
qed

interpretation fos: terminating_system "fo_step cb" "fo_inv cb ds" fo_weight for cb ds
  by unfold_locales (auto simp: fo_step_def intro: fo_inv_collector fo_inv_run fo_inv_wait fo_step_weight)

lemma fo_reach_steps: "(fo_step cb)\<^sup>*\<^sup>* s s' \<Longrightarrow> fo_reach cb sz ds s \<Longrightarrow> fo_reach cb sz ds s'"
  by (induction rule: rtranclp_induct) (blast intro: fo_reach.step)+

lemma fo_reaches_end:
  assumes "fo_reach cb sz ds s"
  shows "\<exists>s' r. fo_reach cb sz ds s' \<and> fo_caller s' = Returned r"
proof -
  obtain s' where "(fo_step cb)\<^sup>*\<^sup>* s s'" "fo_inv cb ds s'" "\<forall>s''. \<not> fo_step cb s' s''"
    using fos.reaches_end [OF fo_reach_inv [OF assms]] by blast
  then show ?thesis using fo_progress fo_reach_steps [OF _ assms] by blast
qed

section \<open>The interface clients rely on\<close>

text \<open>
  A pool of workers: run a callback on every piece of data and return the errors.
\<close>

definition errs_list :: "'e list option \<Rightarrow> 'e list" where
  "errs_list r = (case r of None \<Rightarrow> [] | Some errs \<Rightarrow> errs)"

locale worker_pool =
  fixes pool :: "('d \<Rightarrow> 'e option) \<Rightarrow> int \<Rightarrow> 'd list \<Rightarrow> 'e list option \<Rightarrow> bool"
  assumes pool_errors: "pool cb n ds r \<Longrightarrow> mset (errs_list r) = errors_of cb ds \<and> (r = None \<longleftrightarrow> errors_of cb ds = {#})"
    and pool_returns: "0 \<le> n \<Longrightarrow> \<exists>r. pool cb n ds r"
begin

lemma pool_error_iff: "pool cb n ds r \<Longrightarrow> e \<in> set (errs_list r) \<longleftrightarrow> (\<exists>d \<in> set ds. cb d = Some e)"
  using pool_errors [of cb n ds r] by (metis errors_of_iff set_mset_mset)

lemma pool_success_iff: "pool cb n ds r \<Longrightarrow> r = None \<longleftrightarrow> (\<forall>d \<in> set ds. cb d = None)"
  using pool_errors [of cb n ds r] by (metis errors_of_empty_iff)

end

definition FanOut_run :: "('d \<Rightarrow> 'e option) \<Rightarrow> int \<Rightarrow> 'd list \<Rightarrow> 'e list option \<Rightarrow> bool" where
  "FanOut_run cb n ds r \<longleftrightarrow> (\<exists>s. fo_reach cb n ds s \<and> fo_caller s = Returned r)"

lemma fo_returned_errors:
  assumes "fo_reach cb sz ds s" and "fo_caller s = Returned r"
  shows "fo_workers s = {#}" "mset (errs_list r) = errors_of cb ds" "r = None \<longleftrightarrow> errors_of cb ds = {#}"
proof -
  have inv: "fo_inv cb ds s" by (rule fo_reach_inv [OF assms(1)])
  then have closed: "fo_closed s" "fo_errChan s = []" "r = (if fo_errs s = [] then None else Some (fo_errs s))"
    using assms(2) by (auto simp: fo_inv_def)
  show none: "fo_workers s = {#}" by (rule fo_inv_closed_no_workers [OF inv closed(1)])
  then have "errors_of cb ds = mset (fo_errs s)"
    using inv closed(2) assms(2) by (simp add: fo_inv_def)
  then show "mset (errs_list r) = errors_of cb ds" "r = None \<longleftrightarrow> errors_of cb ds = {#}"
    using closed(3) by (auto simp: errs_list_def)
qed

interpretation fop: worker_pool FanOut_run
proof
  fix cb :: "'a \<Rightarrow> 'b option" and n :: int and ds r
  show "FanOut_run cb n ds r \<Longrightarrow> mset (errs_list r) = errors_of cb ds \<and> (r = None \<longleftrightarrow> errors_of cb ds = {#})"
    unfolding FanOut_run_def using fo_returned_errors by blast
  assume "0 \<le> n"
  then have "\<exists>s. NewFanOut n ds = (Ret s :: ('a, 'b) FanOut go)" by (simp add: NewFanOut_def Let_def)
  then obtain s where "NewFanOut n ds = (Ret s :: ('a, 'b) FanOut go)" by blast
  then have "fo_reach cb n ds s" by (rule fo_reach.init)
  then show "\<exists>r. FanOut_run cb n ds r" unfolding FanOut_run_def using fo_reaches_end by blast
qed

section \<open>Correctness\<close>

lemma fo_reach_cap: "fo_reach cb sz ds s \<Longrightarrow> int (fo_cap s) = (if sz = 0 then 1 else sz)"
proof (induction rule: fo_reach.induct)
  case (init s)
  then show ?case by (auto simp: NewFanOut_def Let_def split: if_splits)
next
  case (step s s')
  then show ?case
    unfolding fo_step_def by (elim conjE disjE collector_stepE run_stepE wait_stepE) auto
qed

text \<open>
  However the goroutines interleave, at most \<open>size\<close> callbacks (one for size 0) run or hold a
  place at the same time, and no goroutine ever sends on the closed channel or closes it twice.
\<close>

theorem FanOut_bounded:
  assumes "fo_reach cb sz ds s"
  shows "\<not> fo_panic s \<and> int (size (fo_workers s)) \<le> (if sz = 0 then 1 else sz)"
proof -
  have "size (fo_workers s) \<le> fo_cap s" "\<not> fo_panic s"
    using fo_reach_inv [OF assms] unfolding fo_inv_def by linarith+
  then show ?thesis using fo_reach_cap [OF assms] by simp
qed

theorem FanOut_bounded_witness:
  "\<exists>s. fo_reach (\<lambda>d. Some d) 2 [1 :: nat, 2, 3] s \<and> size (fo_workers s) = 2 \<and>
     int (size (fo_workers s)) \<le> (if (2::int) = 0 then 1 else 2)"
proof -
  let ?cb = "\<lambda>d. Some d :: nat option"
  let ?i = "\<lparr>fo_cap = 2, fo_size = 0, fo_errChan = [], fo_closed = False, fo_errs = [], fo_collecting = True,
    fo_workers = {#}, fo_caller = Running [1 :: nat, 2, 3], fo_panic = False\<rparr>"
  let ?j = "?i\<lparr>fo_size := 1, fo_workers := {#Exec 1#}, fo_caller := Running [2, 3]\<rparr>"
  let ?k = "?j\<lparr>fo_size := 2, fo_workers := {#Exec 2, Exec 1#}, fo_caller := Running [3]\<rparr>"
  have i: "fo_reach ?cb 2 [1, 2, 3] ?i" by (rule fo_reach.init) (simp add: NewFanOut_def)
  have "run_step ?cb ?i ?j" using run_step.Spawn [of ?i 1 "[2, 3]"] by simp
  then have j: "fo_reach ?cb 2 [1, 2, 3] ?j" using i by (auto simp: fo_step_def intro: fo_reach.step)
  have "run_step ?cb ?j ?k" using run_step.Spawn [of ?j 2 "[3]"] by (simp add: numeral_2_eq_2)
  then have k: "fo_reach ?cb 2 [1, 2, 3] ?k" using j by (auto simp: fo_step_def intro: fo_reach.step)
  show ?thesis using k FanOut_bounded [OF k] by (intro exI [of _ ?k]) simp
qed

text \<open>
  C14: when \<^verbatim>\<open>Wait\<close> returns, every callback has completed, and it returns exactly the errors that
  the callbacks returned, each as often as it occurred, and nil when there were none.
\<close>

theorem FanOut_Wait_collects:
  assumes "fo_reach cb sz ds s" and "fo_caller s = Returned r"
  shows "fo_workers s = {#} \<and> mset (case r of None \<Rightarrow> [] | Some errs \<Rightarrow> errs) = errors_of cb ds \<and>
    (r = None \<longleftrightarrow> errors_of cb ds = {#})"
  using fo_returned_errors [OF assms] by (auto simp: errs_list_def)

theorem FanOut_Wait_collects_witness:
  "\<exists>s r. fo_reach (\<lambda>d. if d = (2::nat) then Some ''boom'' else None) 1 [1, 2, 3] s \<and>
     fo_caller s = Returned r \<and> mset (case r of None \<Rightarrow> [] | Some errs \<Rightarrow> errs) = {#''boom''#}"
proof -
  let ?cb = "\<lambda>d. if d = (2::nat) then Some ''boom'' else None"
  have "fo_reach ?cb 1 [1, 2, 3] (ret (NewFanOut 1 [1, 2, 3]))" by (rule fo_reach.init) (simp add: NewFanOut_def)
  then obtain s r where s: "fo_reach ?cb 1 [1, 2, 3] s" "fo_caller s = Returned r"
    using fo_reaches_end by blast
  have "errors_of ?cb [1, 2, 3] = {#''boom''#}" by simp
  then show ?thesis using s FanOut_Wait_collects [OF s] by auto
qed

text \<open>
  C13: \<^verbatim>\<open>Run\<close> and \<^verbatim>\<open>Wait\<close> never deadlock and always return: from every reachable state every
  execution is finite, and it can stop only after \<^verbatim>\<open>Wait\<close> has returned.
\<close>

theorem FanOut_terminates:
  assumes "fo_reach cb sz ds s"
  shows "((\<forall>s'. \<not> fo_step cb s s') \<longrightarrow> (\<exists>r. fo_caller s = Returned r)) \<and>
    \<not> (\<exists>f. f 0 = s \<and> (\<forall>i. fo_step cb (f i) (f (Suc i))))"
  using fo_progress [OF fo_reach_inv [OF assms]] fos.no_infinite_run [OF fo_reach_inv [OF assms]] by blast

theorem FanOut_terminates_witness:
  "\<not> (\<exists>f. f 0 = ret (NewFanOut 0 [1 :: nat, 2]) \<and> (\<forall>i. fo_step (\<lambda>d. Some d) (f i) (f (Suc i))))"
proof -
  have "fo_reach (\<lambda>d. Some d) 0 [1 :: nat, 2] (ret (NewFanOut 0 [1, 2]))"
    by (rule fo_reach.init) (simp add: NewFanOut_def)
  from FanOut_terminates [OF this] show ?thesis by blast
qed

end
