(* ===== verification/Expire_Cache.thy ===== *)
theory Expire_Cache
  imports Fan_Out LRU_Cache
begin

text \<open>
  \<^verbatim>\<open>expire_cache.go\<close> (\<^verbatim>\<open>v3/collections/expire_cache.go\<close> differs in the clock package only): the
  unbounded cache whose entries leave only through \<^verbatim>\<open>Each\<close>, once they are processed and expired.
  The map holds pointers to the records, and the goroutines of \<^verbatim>\<open>Each\<close> keep such a pointer while
  the callback runs without the lock, so the records live in a store. \<^verbatim>\<open>Each\<close> is modelled twice:
  as the function of one goroutine that nobody disturbs, and as steps that interleave with the
  calls of other goroutines. \<^verbatim>\<open>Each\<close> of the LRU cache is here too.
\<close>

section \<open>Data and operations\<close>

record expireRecord =
  er_Value :: iface
  er_ExpireAt :: time

record ExpireCacheStats =
  es_Size :: int
  es_Miss :: int
  es_Hit :: int

record 'k ExpireCache =
  ec_cache :: "('k, addr) gomap"
  ec_recs :: "addr \<Rightarrow> expireRecord"
  ec_next :: addr
  ec_ttl :: duration
  ec_stats :: ExpireCacheStats

definition zero_es :: ExpireCacheStats where
  "zero_es = \<lparr>es_Size = 0, es_Miss = 0, es_Hit = 0\<rparr>"

definition NewExpireCache :: "duration \<Rightarrow> 'k ExpireCache" where
  "NewExpireCache ttl =
     \<lparr>ec_cache = [], ec_recs = (\<lambda>_. \<lparr>er_Value = INil, er_ExpireAt = 0\<rparr>), ec_next = 0, ec_ttl = ttl, ec_stats = zero_es\<rparr>"

definition ExpireCache_Get :: "time \<Rightarrow> 'k ExpireCache \<Rightarrow> 'k \<Rightarrow> 'k ExpireCache \<times> iface option" where
  "ExpireCache_Get now c key =
     (case map_of (ec_cache c) key of
        None \<Rightarrow> (c\<lparr>ec_stats := (ec_stats c)\<lparr>es_Miss := i64 (es_Miss (ec_stats c) + 1)\<rparr>\<rparr>, None)
      | Some record \<Rightarrow>
          (c\<lparr>ec_recs := (ec_recs c)(record := (ec_recs c record)\<lparr>er_ExpireAt := time_Add now (ec_ttl c)\<rparr>),
             ec_stats := (ec_stats c)\<lparr>es_Hit := i64 (es_Hit (ec_stats c) + 1)\<rparr>\<rparr>,
           Some (er_Value (ec_recs c record))))"

definition ExpireCache_Add :: "time \<Rightarrow> 'k ExpireCache \<Rightarrow> 'k \<Rightarrow> iface \<Rightarrow> 'k ExpireCache" where
  "ExpireCache_Add now c key value =
     c\<lparr>ec_recs := (ec_recs c)(ec_next c := \<lparr>er_Value = value, er_ExpireAt = time_Add now (ec_ttl c)\<rparr>),
       ec_next := Suc (ec_next c), ec_cache := AList.update key (ec_next c) (ec_cache c)\<rparr>"

text \<open>\<open>False\<close> is the error that no record was found.\<close>

definition ExpireCache_Update :: "'k ExpireCache \<Rightarrow> 'k \<Rightarrow> iface \<Rightarrow> 'k ExpireCache \<times> bool" where
  "ExpireCache_Update c key value =
     (case map_of (ec_cache c) key of
        None \<Rightarrow> (c, False)
      | Some record \<Rightarrow> (c\<lparr>ec_recs := (ec_recs c)(record := (ec_recs c record)\<lparr>er_Value := value\<rparr>)\<rparr>, True))"

definition ExpireCache_Keys :: "'k ExpireCache \<Rightarrow> 'k list" where
  "ExpireCache_Keys c = map fst (ec_cache c)"

definition ExpireCache_Peek :: "'k ExpireCache \<Rightarrow> 'k \<Rightarrow> iface option" where
  "ExpireCache_Peek c key = map_option (\<lambda>record. er_Value (ec_recs c record)) (map_of (ec_cache c) key)"

definition ExpireCache_GetStats :: "'k ExpireCache \<Rightarrow> 'k ExpireCache \<times> ExpireCacheStats" where
  "ExpireCache_GetStats c =
     (c\<lparr>ec_stats := zero_es\<rparr>, (ec_stats c)\<lparr>es_Size := int (length (ec_cache c))\<rparr>)"

definition ExpireCache_Size :: "'k ExpireCache \<Rightarrow> int" where
  "ExpireCache_Size c = int (length (ec_cache c))"

section \<open>Each, undisturbed\<close>

datatype ('k, 'e) each_error = Disappeared 'k | CallbackError 'e

text \<open>The callback of one key, with the reading of the clock that follows it.\<close>

definition each_task ::
  "('k \<Rightarrow> iface \<Rightarrow> 'e option) \<Rightarrow> time \<Rightarrow> 'k ExpireCache \<Rightarrow> 'k \<Rightarrow> 'k ExpireCache \<times> ('k, 'e) each_error option" where
  "each_task callBack now c key =
     (case map_of (ec_cache c) key of
        None \<Rightarrow> (c, Some (Disappeared key))
      | Some record \<Rightarrow>
          (case callBack key (er_Value (ec_recs c record)) of
             Some err \<Rightarrow> (c, Some (CallbackError err))
           | None \<Rightarrow>
               ((if time_Before (er_ExpireAt (ec_recs c record)) now
                 then c\<lparr>ec_cache := AList.delete key (ec_cache c)\<rparr> else c), None)))"

text \<open>The keys one after the other, in the order in which \<^verbatim>\<open>Keys\<close> returned them.\<close>

fun each_tasks ::
  "('k \<Rightarrow> iface \<Rightarrow> 'e option) \<Rightarrow> time \<Rightarrow> 'k list \<Rightarrow> 'k ExpireCache \<Rightarrow> 'k ExpireCache \<times> ('k, 'e) each_error list" where
  "each_tasks callBack now [] c = (c, [])"
| "each_tasks callBack now (key # keys) c =
     (let (c1, err) = each_task callBack now c key; (c2, errs) = each_tasks callBack now keys c1
      in (c2, case err of None \<Rightarrow> errs | Some e \<Rightarrow> e # errs))"

definition ExpireCache_Each ::
  "('k \<Rightarrow> iface \<Rightarrow> 'e option) \<Rightarrow> time \<Rightarrow> 'k ExpireCache \<Rightarrow> 'k ExpireCache \<times> ('k, 'e) each_error list" where
  "ExpireCache_Each callBack now c = each_tasks callBack now (ExpireCache_Keys c) c"

section \<open>Each, among other goroutines\<close>

text \<open>A goroutine of \<^verbatim>\<open>Each\<close>: not started, holding the record it found, done with its callback, ended.\<close>

datatype 'e task_phase = Pending | Found addr | Processed addr | Ended

datatype 'k client_op =
    CGet time 'k
  | CAdd time 'k iface
  | CUpdate 'k iface

primrec client_step :: "'k client_op \<Rightarrow> 'k ExpireCache \<Rightarrow> 'k ExpireCache" where
  "client_step (CGet now k) c = fst (ExpireCache_Get now c k)"
| "client_step (CAdd now k v) c = ExpireCache_Add now c k v"
| "client_step (CUpdate k v) c = fst (ExpireCache_Update c k v)"

text \<open>\<open>ex_done\<close> lists the records whose callback returned nil.\<close>

record ('k, 'e) each_state =
  ex_cache :: "'k ExpireCache"
  ex_task :: "'k \<Rightarrow> 'e task_phase"
  ex_done :: "addr list"

definition each_start :: "'k ExpireCache \<Rightarrow> ('k, 'e) each_state" where
  "each_start c =
     \<lparr>ex_cache = c, ex_task = (\<lambda>k. if k \<in> set (ExpireCache_Keys c) then Pending else Ended), ex_done = []\<rparr>"

text \<open>The steps; \<open>ok\<close> says which calls the other goroutines make.\<close>

inductive each_step ::
  "('k client_op \<Rightarrow> 'k ExpireCache \<Rightarrow> bool) \<Rightarrow> ('k \<Rightarrow> iface \<Rightarrow> 'e option) \<Rightarrow> time \<Rightarrow>
   ('k, 'e) each_state \<Rightarrow> ('k, 'e) each_state \<Rightarrow> bool" for ok callBack now where
  Client: "ok op (ex_cache s) \<Longrightarrow> each_step ok callBack now s (s\<lparr>ex_cache := client_step op (ex_cache s)\<rparr>)"
| Lost: "ex_task s key = Pending \<Longrightarrow> map_of (ec_cache (ex_cache s)) key = None \<Longrightarrow>
    each_step ok callBack now s (s\<lparr>ex_task := (ex_task s)(key := Ended)\<rparr>)"
| Find: "ex_task s key = Pending \<Longrightarrow> map_of (ec_cache (ex_cache s)) key = Some record \<Longrightarrow>
    each_step ok callBack now s (s\<lparr>ex_task := (ex_task s)(key := Found record)\<rparr>)"
| Fail: "ex_task s key = Found record \<Longrightarrow> callBack key (er_Value (ec_recs (ex_cache s) record)) = Some err \<Longrightarrow>
    each_step ok callBack now s (s\<lparr>ex_task := (ex_task s)(key := Ended)\<rparr>)"
| Process: "ex_task s key = Found record \<Longrightarrow> callBack key (er_Value (ec_recs (ex_cache s) record)) = None \<Longrightarrow>
    each_step ok callBack now s (s\<lparr>ex_task := (ex_task s)(key := Processed record), ex_done := record # ex_done s\<rparr>)"
| Expire: "ex_task s key = Processed record \<Longrightarrow> time_Before (er_ExpireAt (ec_recs (ex_cache s) record)) now \<Longrightarrow>
    each_step ok callBack now s
      (s\<lparr>ex_task := (ex_task s)(key := Ended), ex_cache := (ex_cache s)\<lparr>ec_cache := AList.delete key (ec_cache (ex_cache s))\<rparr>\<rparr>)"
| Keep: "ex_task s key = Processed record \<Longrightarrow> \<not> time_Before (er_ExpireAt (ec_recs (ex_cache s) record)) now \<Longrightarrow>
    each_step ok callBack now s (s\<lparr>ex_task := (ex_task s)(key := Ended)\<rparr>)"

inductive_cases each_stepE: "each_step ok callBack now s s'"

inductive each_reach ::
  "('k client_op \<Rightarrow> 'k ExpireCache \<Rightarrow> bool) \<Rightarrow> ('k \<Rightarrow> iface \<Rightarrow> 'e option) \<Rightarrow> 'k ExpireCache \<Rightarrow>
   ('k, 'e) each_state \<Rightarrow> bool" for ok callBack c where
  start: "each_reach ok callBack c (each_start c)"
| step: "each_reach ok callBack c s \<Longrightarrow> each_step ok callBack now s s' \<Longrightarrow> each_reach ok callBack c s'"

text \<open>No call that replaces the record of a key the cache holds.\<close>

definition no_replacing_add :: "'k client_op \<Rightarrow> 'k ExpireCache \<Rightarrow> bool" where
  "no_replacing_add op c = (case op of CAdd now k v \<Rightarrow> map_of (ec_cache c) k = None | _ \<Rightarrow> True)"

section \<open>What Each does\<close>

text \<open>Whether an entry leaves: its callback succeeds and its record is expired.\<close>

definition each_removes :: "('k \<Rightarrow> iface \<Rightarrow> 'e option) \<Rightarrow> time \<Rightarrow> 'k ExpireCache \<Rightarrow> 'k \<Rightarrow> addr \<Rightarrow> bool" where
  "each_removes cb now c k a \<longleftrightarrow> cb k (er_Value (ec_recs c a)) = None \<and> er_ExpireAt (ec_recs c a) < now"

lemma each_task_effect:
  assumes "each_task cb now c key = (c', err)"
  shows "ec_recs c' = ec_recs c"
    and "map_of (ec_cache c') j =
      (case map_of (ec_cache c) j of Some a \<Rightarrow> if j = key \<and> each_removes cb now c j a then None else Some a | None \<Rightarrow> None)"
  using assms by (auto simp: each_task_def each_removes_def time_Before_def delete_conv' split: option.splits if_splits)

lemma each_tasks_effect:
  assumes "each_tasks cb now keys c = (c', errs)" "distinct keys" "set keys \<subseteq> dom (map_of (ec_cache c))"
  shows "ec_recs c' = ec_recs c"
    and "map_of (ec_cache c') j =
      (case map_of (ec_cache c) j of Some a \<Rightarrow> if j \<in> set keys \<and> each_removes cb now c j a then None else Some a | None \<Rightarrow> None)"
    and "errs = List.map_filter (\<lambda>k. map_option CallbackError (cb k (the (ExpireCache_Peek c k)))) keys"
proof -
  have "ec_recs c' = ec_recs c \<and> (\<forall>j. map_of (ec_cache c') j =
      (case map_of (ec_cache c) j of Some a \<Rightarrow> if j \<in> set keys \<and> each_removes cb now c j a then None else Some a | None \<Rightarrow> None)) \<and>
      errs = List.map_filter (\<lambda>k. map_option CallbackError (cb k (the (ExpireCache_Peek c k)))) keys"
    using assms
  proof (induction keys arbitrary: c errs)
    case Nil
    then show ?case by (auto simp: map_filter_simps split: option.splits)
  next
    case (Cons key keys)
    obtain c1 err where c1: "each_task cb now c key = (c1, err)" by (cases "each_task cb now c key")
    obtain errs' where rest: "each_tasks cb now keys c1 = (c', errs')" "errs = (case err of None \<Rightarrow> errs' | Some e \<Rightarrow> e # errs')"
      using Cons.prems(1) c1 by (auto split: prod.splits)
    note e = each_task_effect [OF c1]
    have same: "map_of (ec_cache c1) k = map_of (ec_cache c) k" if "k \<in> set keys" for k
      using e(2) [of k] Cons.prems(2) that by (auto split: option.splits)
    then have sub: "set keys \<subseteq> dom (map_of (ec_cache c1))" using Cons.prems(3) by (auto simp: dom_def)
    have peek: "ExpireCache_Peek c1 k = ExpireCache_Peek c k" if "k \<in> set keys" for k
      using same [OF that] e(1) by (simp add: ExpireCache_Peek_def)
    have IH: "ec_recs c' = ec_recs c1" "\<And>j. map_of (ec_cache c') j =
      (case map_of (ec_cache c1) j of Some a \<Rightarrow> if j \<in> set keys \<and> each_removes cb now c1 j a then None else Some a | None \<Rightarrow> None)"
      "errs' = List.map_filter (\<lambda>k. map_option CallbackError (cb k (the (ExpireCache_Peek c1 k)))) keys"
      using Cons.IH [OF rest(1) _ sub] Cons.prems(2) by auto
    have removes: "each_removes cb now c1 = each_removes cb now c" by (simp add: fun_eq_iff each_removes_def e(1))
    have "errs' = List.map_filter (\<lambda>k. map_option CallbackError (cb k (the (ExpireCache_Peek c k)))) keys"
      unfolding IH(3) map_filter_def using peek by (auto intro!: map_cong filter_cong)
    moreover have "err = map_option CallbackError (cb key (the (ExpireCache_Peek c key)))"
      using c1 Cons.prems(3) by (auto simp: each_task_def ExpireCache_Peek_def split: option.splits if_splits)
    ultimately have "errs = List.map_filter (\<lambda>k. map_option CallbackError (cb k (the (ExpireCache_Peek c k)))) (key # keys)"
      using rest(2) by (auto simp: map_filter_simps split: option.splits)
    moreover have "map_of (ec_cache c') j = (case map_of (ec_cache c) j of
        Some a \<Rightarrow> if j \<in> set (key # keys) \<and> each_removes cb now c j a then None else Some a | None \<Rightarrow> None)" for j
      using IH(2) [of j] e(2) [of j] by (auto simp: removes split: option.splits if_splits)
    ultimately show ?case using IH(1) e(1) by simp
  qed
  then show "ec_recs c' = ec_recs c"
    and "map_of (ec_cache c') j =
      (case map_of (ec_cache c) j of Some a \<Rightarrow> if j \<in> set keys \<and> each_removes cb now c j a then None else Some a | None \<Rightarrow> None)"
    and "errs = List.map_filter (\<lambda>k. map_option CallbackError (cb k (the (ExpireCache_Peek c k)))) keys"
    by auto
qed

text \<open>
  \<^verbatim>\<open>Each\<close> on a cache that nobody else uses meanwhile calls the callback on every entry, removes
  exactly the entries that are expired and whose callback succeeded, leaves all others with
  their values, and returns exactly the errors of the callback.
\<close>

theorem ExpireCache_Each_exact:
  assumes "gomap_wf (ec_cache c)" and "ExpireCache_Each cb now c = (c', errs)"
  shows "(\<forall>k. map_of (ec_cache c') k =
      (case map_of (ec_cache c) k of
         Some a \<Rightarrow> if cb k (er_Value (ec_recs c a)) = None \<and> er_ExpireAt (ec_recs c a) < now then None else Some a
       | None \<Rightarrow> None)) \<and> ec_recs c' = ec_recs c \<and>
    errs = List.map_filter (\<lambda>k. map_option CallbackError (cb k (the (ExpireCache_Peek c k)))) (ExpireCache_Keys c)"
proof -
  have d: "distinct (ExpireCache_Keys c)" "set (ExpireCache_Keys c) = dom (map_of (ec_cache c))"
    using assms(1) by (simp_all add: gomap_wf_def ExpireCache_Keys_def dom_map_of_conv_image_fst)
  have "k \<in> set (ExpireCache_Keys c)" if "map_of (ec_cache c) k = Some a" for k a using that d(2) by auto
  then show ?thesis
    using each_tasks_effect [OF assms(2) [unfolded ExpireCache_Each_def] d(1)] d(2)
    by (auto simp: each_removes_def split: option.splits)
qed

theorem ExpireCache_Each_exact_witness:
  "\<exists>c' errs. ExpireCache_Each (\<lambda>k v. if k = ''b'' then Some () else None) 10
      (ExpireCache_Add 0 (ExpireCache_Add 0 (NewExpireCache 5) ''a'' INil) ''b'' INil) = (c', errs) \<and>
    map_of (ec_cache c') ''a'' = None \<and> map_of (ec_cache c') ''b'' = Some 1"
proof -
  let ?c = "ExpireCache_Add 0 (ExpireCache_Add 0 (NewExpireCache 5) ''a'' INil) ''b'' INil"
  let ?cb = "\<lambda>k v. if k = ''b'' then Some () else None"
  obtain c' errs where e: "ExpireCache_Each ?cb 10 ?c = (c', errs)" by (cases "ExpireCache_Each ?cb 10 ?c")
  have "gomap_wf (ec_cache ?c)" "map_of (ec_cache ?c) ''a'' = Some 0" "map_of (ec_cache ?c) ''b'' = Some 1"
    "er_ExpireAt (ec_recs ?c 0) = 5"
    by (simp_all add: ExpireCache_Add_def NewExpireCache_def gomap_wf_def time_Add_def)
  with ExpireCache_Each_exact [OF _ e] e show ?thesis by auto
qed

lemma each_reach_inv:
  assumes "each_reach no_replacing_add cb c s"
  shows "(\<forall>k a. ex_task s k = Found a \<or> ex_task s k = Processed a \<longrightarrow> map_of (ec_cache (ex_cache s)) k = Some a) \<and>
    (\<forall>k a. ex_task s k = Processed a \<longrightarrow> a \<in> set (ex_done s))"
  using assms
proof (induction rule: each_reach.induct)
  case start
  then show ?case by (auto simp: each_start_def)
next
  case (step s now s')
  have client: "map_of (ec_cache (client_step op c)) k = Some a"
    if "no_replacing_add op c" "map_of (ec_cache c) k = Some a" for op and c :: "'a ExpireCache" and k a
    using that
    by (cases op) (auto simp: no_replacing_add_def ExpireCache_Get_def ExpireCache_Update_def ExpireCache_Add_def
        update_conv' split: option.splits)
  from step.hyps(2) step.IH show ?case
    by (elim each_stepE) (auto simp: client delete_conv' split: if_splits)
qed

text \<open>
  C36: as long as no goroutine adds a key that the cache already holds, an entry leaves the cache
  only through a goroutine of \<^verbatim>\<open>Each\<close>, only after the callback has processed its record
  successfully, and only if that record is expired at that moment, however \<^verbatim>\<open>Get\<close>, \<^verbatim>\<open>Update\<close> and
  \<^verbatim>\<open>Add\<close> interleave.
\<close>

theorem ExpireCache_Each_safe:
  assumes "each_reach no_replacing_add cb c s" and "each_step no_replacing_add cb now s s'"
    and "map_of (ec_cache (ex_cache s)) k = Some a" and "map_of (ec_cache (ex_cache s')) k \<noteq> Some a"
  shows "map_of (ec_cache (ex_cache s')) k = None \<and> a \<in> set (ex_done s) \<and> er_ExpireAt (ec_recs (ex_cache s) a) < now"
  using assms(2) each_reach_inv [OF assms(1)] assms(3,4)
  by (elim each_stepE)
    (auto simp: delete_conv' time_Before_def no_replacing_add_def ExpireCache_Get_def ExpireCache_Update_def
       ExpireCache_Add_def update_conv' split: option.splits client_op.splits if_splits)

text \<open>An example: one entry, found and processed by its goroutine, expired.\<close>

definition ex_cache1 :: "string ExpireCache" where
  "ex_cache1 = ExpireCache_Add 0 (NewExpireCache 5) ''a'' INil"

definition ex_processed :: "(string, unit) each_state" where
  "ex_processed = \<lparr>ex_cache = ex_cache1, ex_task = (\<lambda>_. Ended)(''a'' := Processed 0), ex_done = [0]\<rparr>"

lemma ex_processed_reach:
  fixes ok :: "string client_op \<Rightarrow> string ExpireCache \<Rightarrow> bool"
  shows "each_reach ok (\<lambda>_ _. None :: unit option) ex_cache1 ex_processed"
proof -
  let ?cb = "\<lambda>(_ :: string) (_ :: iface). None :: unit option"
  let ?s0 = "each_start ex_cache1 :: (string, unit) each_state"
  let ?s1 = "?s0\<lparr>ex_task := (ex_task ?s0)(''a'' := Found 0)\<rparr>"
  have cache: "ec_cache ex_cache1 = [(''a'', 0)]" by (simp add: ex_cache1_def ExpireCache_Add_def NewExpireCache_def)
  have s0: "ex_task ?s0 = (\<lambda>_. Ended)(''a'' := Pending)" "ex_cache ?s0 = ex_cache1" "ex_done ?s0 = []"
    by (auto simp: each_start_def ExpireCache_Keys_def cache fun_eq_iff)
  have "each_step ok ?cb 0 ?s0 ?s1" by (rule each_step.Find) (simp_all add: s0 cache)
  then have r1: "each_reach ok ?cb ex_cache1 ?s1" by (rule each_reach.step [OF each_reach.start])
  have "each_step ok ?cb 0 ?s1 (?s1\<lparr>ex_task := (ex_task ?s1)(''a'' := Processed 0), ex_done := 0 # ex_done ?s1\<rparr>)"
    by (rule each_step.Process) simp_all
  moreover have "?s1\<lparr>ex_task := (ex_task ?s1)(''a'' := Processed 0), ex_done := 0 # ex_done ?s1\<rparr> = ex_processed"
    by (simp add: s0 ex_processed_def)
  ultimately show ?thesis using each_reach.step [OF r1] by simp
qed

theorem ExpireCache_Each_safe_witness:
  "\<exists>s'. each_step no_replacing_add (\<lambda>_ _. None) 10 ex_processed s' \<and>
     map_of (ec_cache (ex_cache ex_processed)) ''a'' = Some 0 \<and> map_of (ec_cache (ex_cache s')) ''a'' = None \<and>
     er_ExpireAt (ec_recs (ex_cache ex_processed) 0) < 10"
proof -
  let ?s' = "ex_processed\<lparr>ex_task := (ex_task ex_processed)(''a'' := Ended),
    ex_cache := (ex_cache ex_processed)\<lparr>ec_cache := AList.delete ''a'' (ec_cache (ex_cache ex_processed))\<rparr>\<rparr>"
  have c: "map_of (ec_cache (ex_cache ex_processed)) ''a'' = Some 0" "ex_task ex_processed ''a'' = Processed 0"
    "er_ExpireAt (ec_recs (ex_cache ex_processed) 0) = 5"
    by (simp_all add: ex_processed_def ex_cache1_def ExpireCache_Add_def NewExpireCache_def time_Add_def)
  have step: "each_step no_replacing_add (\<lambda>_ _. None) 10 ex_processed ?s'"
    by (rule each_step.Expire [OF c(2)]) (simp add: c(3) time_Before_def)
  have gone: "map_of (ec_cache (ex_cache ?s')) ''a'' \<noteq> Some 0" by (simp add: delete_conv')
  show ?thesis using step c(1) ExpireCache_Each_safe [OF ex_processed_reach step c(1) gone] by blast
qed

text \<open>
  Without that restriction the promise of \<^verbatim>\<open>ExpireCache\<close> fails: when a key is added again while
  its callback runs, the goroutine of \<^verbatim>\<open>Each\<close> decides by the old record and deletes the new
  one, which has neither expired nor been processed.
\<close>

theorem ExpireCache_Each_drops_fresh:
  "\<exists>s s' k a. each_reach (\<lambda>_ _. True) (\<lambda>_ _. None :: unit option) ex_cache1 s \<and>
     each_step (\<lambda>_ _. True) (\<lambda>_ _. None) 10 s s' \<and>
     map_of (ec_cache (ex_cache s)) k = Some a \<and> a \<notin> set (ex_done s) \<and> 10 < er_ExpireAt (ec_recs (ex_cache s) a) \<and>
     map_of (ec_cache (ex_cache s')) k = None"
proof -
  let ?cb = "\<lambda>(_ :: string) (_ :: iface). None :: unit option"
  let ?s = "ex_processed\<lparr>ex_cache := client_step (CAdd 10 ''a'' (IInt 1)) (ex_cache ex_processed)\<rparr>"
  let ?s' = "?s\<lparr>ex_task := (ex_task ?s)(''a'' := Ended), ex_cache := (ex_cache ?s)\<lparr>ec_cache := AList.delete ''a'' (ec_cache (ex_cache ?s))\<rparr>\<rparr>"
  have "each_step (\<lambda>_ _. True) ?cb 10 ex_processed ?s" by (rule each_step.Client) simp
  then have reach: "each_reach (\<lambda>_ _. True) ?cb ex_cache1 ?s" by (rule each_reach.step [OF ex_processed_reach])
  have c: "map_of (ec_cache (ex_cache ?s)) ''a'' = Some 1" "ex_task ?s ''a'' = Processed 0" "ex_done ?s = [0]"
    "er_ExpireAt (ec_recs (ex_cache ?s) 0) = 5" "er_ExpireAt (ec_recs (ex_cache ?s) 1) = 15"
    by (simp_all add: ex_processed_def ex_cache1_def ExpireCache_Add_def NewExpireCache_def time_Add_def)
  have "time_Before (er_ExpireAt (ec_recs (ex_cache ?s) 0)) 10" unfolding time_Before_def c(4) by simp
  then have step: "each_step (\<lambda>_ _. True) ?cb 10 ?s ?s'" by (rule each_step.Expire [OF c(2)])
  have "map_of (ec_cache (ex_cache ?s')) ''a'' = None" by (simp add: delete_conv')
  moreover have "1 \<notin> set (ex_done ?s)" "10 < er_ExpireAt (ec_recs (ex_cache ?s) 1)" using c(3,5) by simp_all
  ultimately show ?thesis using reach step c(1) by blast
qed

section \<open>Each of the LRU cache\<close>

text \<open>
  The callback of one key reads its value with \<^verbatim>\<open>Peek\<close> and skips a key that is gone; the pool runs
  it for all keys. The method has a value receiver: it works on a copy of the cache's struct,
  with a mutex of its own, that shares the list and the map. The model is for a cache that nobody
  else uses meanwhile.
\<close>

definition lru_each_task :: "'k LRUCache \<Rightarrow> ('k \<Rightarrow> iface \<Rightarrow> 'e option) \<Rightarrow> 'k \<Rightarrow> 'e option" where
  "lru_each_task c callBack key =
     (case LRUCache_Peek c key of None \<Rightarrow> None | Some value \<Rightarrow> callBack key value)"

definition LRUCache_Each :: "int \<Rightarrow> ('k \<Rightarrow> iface \<Rightarrow> 'e option) \<Rightarrow> 'k LRUCache \<Rightarrow> 'e list option \<Rightarrow> bool" where
  "LRUCache_Each concurrent callBack c errs \<longleftrightarrow>
     FanOut_run (lru_each_task c callBack) concurrent (LRUCache_Keys c) errs"

text \<open>
  \<^verbatim>\<open>Each\<close> of the LRU cache returns, and returns exactly the errors of the callback on the entries
  of the cache, whatever the interleaving of its goroutines; it returns nil when the callback
  succeeds on every entry.
\<close>

theorem LRUCache_Each_exact:
  assumes "lru_wf c" and "0 \<le> concurrent"
  shows "(\<exists>errs. LRUCache_Each concurrent cb c errs) \<and>
    (\<forall>errs. LRUCache_Each concurrent cb c errs \<longrightarrow>
       (\<forall>e. e \<in> set (errs_list errs) \<longleftrightarrow> (\<exists>r \<in> set (lru_abs c). cb (rec_key r) (rec_value r) = Some e)) \<and>
       (errs = None \<longleftrightarrow> (\<forall>r \<in> set (lru_abs c). cb (rec_key r) (rec_value r) = None)))"
proof -
  have task: "lru_each_task c cb (rec_key (lru_recs c a)) = cb (rec_key (lru_recs c a)) (rec_value (lru_recs c a))"
    if "a \<in> set (lru_ll c)" for a
  proof -
    have "map_of (lru_cache c) (rec_key (lru_recs c a)) = Some a" using lru_wfD(4) [OF assms(1)] that by blast
    then show ?thesis by (simp add: lru_each_task_def LRUCache_Peek_def)
  qed
  have "set (LRUCache_Keys c) = dom (map_of (lru_cache c))" by (simp add: LRUCache_Keys_def dom_map_of_conv_image_fst)
  also have "\<dots> = (\<lambda>a. rec_key (lru_recs c a)) ` set (lru_ll c)"
    using lru_wfD(4) [OF assms(1)] by (auto simp: dom_def)
  finally have keys: "set (LRUCache_Keys c) = (\<lambda>a. rec_key (lru_recs c a)) ` set (lru_ll c)" .
  have "(\<exists>d \<in> set (LRUCache_Keys c). lru_each_task c cb d = Some e) \<longleftrightarrow>
      (\<exists>r \<in> set (lru_abs c). cb (rec_key r) (rec_value r) = Some e)" for e
    by (auto simp: keys lru_abs_def task)
  moreover have "(\<forall>d \<in> set (LRUCache_Keys c). lru_each_task c cb d = None) \<longleftrightarrow>
      (\<forall>r \<in> set (lru_abs c). cb (rec_key r) (rec_value r) = None)"
    by (auto simp: keys lru_abs_def task)
  ultimately show ?thesis
    using fop.pool_returns [OF assms(2), of "lru_each_task c cb" "LRUCache_Keys c"]
      fop.pool_error_iff [of "lru_each_task c cb" concurrent "LRUCache_Keys c"]
      fop.pool_success_iff [of "lru_each_task c cb" concurrent "LRUCache_Keys c"]
    unfolding LRUCache_Each_def by simp
qed

theorem LRUCache_Each_exact_witness:
  "let c = fst (LRUCache_Add (NewLRUCache (\<lambda>_. \<lparr>rec_key = [], rec_value = INil, rec_expireAt = None\<rparr>) 2) ''a'' (IInt 7))
   in \<exists>errs. LRUCache_Each 0 (\<lambda>k v. if v = IInt 7 then Some ''seven'' else None) c errs \<and> ''seven'' \<in> set (errs_list errs)"
proof -
  let ?n = "NewLRUCache (\<lambda>_. \<lparr>rec_key = [], rec_value = INil, rec_expireAt = None\<rparr>) 2"
  let ?c = "fst (LRUCache_Add ?n ''a'' (IInt 7))"
  have "lru_wf ?n" by (simp add: lru_wf_def NewLRUCache_def)
  then have wf: "lru_wf ?c" unfolding LRUCache_Add_def by (rule addRecord_wf)
  have "lru_abs ?c = [\<lparr>rec_key = ''a'', rec_value = IInt 7, rec_expireAt = None\<rparr>]"
    by (simp add: LRUCache_Add_def addRecord_def NewLRUCache_def lru_abs_def)
  then show ?thesis
    unfolding Let_def using LRUCache_Each_exact [OF wf, of 0 "\<lambda>k v. if v = IInt 7 then Some ''seven'' else None"] by auto
qed

end
