(* ===== verification/Frozen_Clock.thy ===== *)
theory Frozen_Clock
  imports Go_Prelude
begin

text \<open>
  \<^verbatim>\<open>clock/frozen.go\<close> (\<^verbatim>\<open>v3/clock/frozen.go\<close> has the same code): the deterministic clock for tests.
  The timers live in a store, \<open>ft_timers\<close> lists the scheduled ones by the time they expire. A
  channel of capacity 1 is the list of what it holds. The functions of \<^verbatim>\<open>AfterFunc\<close> are named
  by numbers and given by an environment; \<open>ft_fired\<close> records which timer fired for which time,
  for the specification. The loop of \<^verbatim>\<open>advance\<close> may run forever when such a function keeps
  scheduling, so it is a partial function; it is proved to end when they do not.
\<close>

section \<open>Data\<close>

record frozenTimer =
  tm_when :: time
  tm_interval :: duration
  tm_stopped :: bool
  tm_c :: "time list option"
  tm_f :: "nat option"

text \<open>The waiter of \<^verbatim>\<open>Wait4Scheduled\<close>: the count it waits for and whether its channel is closed.\<close>

record waiter =
  w_count :: int
  w_closed :: bool

record frozenTime =
  ft_now :: time
  ft_timers :: "addr list"
  ft_waiter :: "waiter option"
  ft_tm :: "addr \<Rightarrow> frozenTimer"
  ft_next :: addr
  ft_fired :: "(time \<times> addr) list"

definition Freeze :: "time \<Rightarrow> frozenTime" where
  "Freeze now =
     \<lparr>ft_now = now, ft_timers = [], ft_waiter = None,
      ft_tm = (\<lambda>_. \<lparr>tm_when = 0, tm_interval = 0, tm_stopped = False, tm_c = None, tm_f = None\<rparr>),
      ft_next = 0, ft_fired = []\<rparr>"

abbreviation when_of :: "frozenTime \<Rightarrow> addr \<Rightarrow> time" where
  "when_of ft a \<equiv> tm_when (ft_tm ft a)"

abbreviation interval_of :: "frozenTime \<Rightarrow> addr \<Rightarrow> duration" where
  "interval_of ft a \<equiv> tm_interval (ft_tm ft a)"

section \<open>Operations\<close>

definition unlockedStartTimer :: "frozenTime \<Rightarrow> addr \<Rightarrow> frozenTime" where
  "unlockedStartTimer ft t =
     (let before = (\<lambda>curr. \<not> time_Before (when_of ft t) (when_of ft curr))
      in ft\<lparr>ft_timers := takeWhile before (ft_timers ft) @ t # dropWhile before (ft_timers ft)\<rparr>)"

definition startTimer :: "frozenTime \<Rightarrow> addr \<Rightarrow> frozenTime go" where
  "startTimer ft t =
     (let ft' = unlockedStartTimer ft t
      in case ft_waiter ft' of
           None \<Rightarrow> Ret ft'
         | Some w \<Rightarrow>
             if w_count w \<le> int (length (ft_timers ft')) then
               (if w_closed w then Panic CloseOfClosedChannel
                else Ret (ft'\<lparr>ft_waiter := Some (w\<lparr>w_closed := True\<rparr>)\<rparr>))
             else Ret ft')"

definition alloc_timer :: "frozenTime \<Rightarrow> frozenTimer \<Rightarrow> frozenTime" where
  "alloc_timer ft t = ft\<lparr>ft_tm := (ft_tm ft)(ft_next ft := t), ft_next := Suc (ft_next ft)\<rparr>"

definition AfterFunc :: "frozenTime \<Rightarrow> duration \<Rightarrow> nat option \<Rightarrow> (frozenTime \<times> addr) go" where
  "AfterFunc ft d f =
     (let t = \<lparr>tm_when = time_Add (ft_now ft) d, tm_interval = 0, tm_stopped = False,
               tm_c = (if f = None then Some [] else None), tm_f = f\<rparr>
      in go_bind (startTimer (alloc_timer ft t) (ft_next ft)) (\<lambda>ft'. Ret (ft', ft_next ft)))"

definition NewTimer :: "frozenTime \<Rightarrow> duration \<Rightarrow> (frozenTime \<times> addr) go" where
  "NewTimer ft d = AfterFunc ft d None"

definition NewTicker :: "frozenTime \<Rightarrow> duration \<Rightarrow> (frozenTime \<times> addr) go" where
  "NewTicker ft d =
     (if d \<le> 0 then Panic (UserPanic ''non-positive interval for NewTicker'')
      else
        let t = \<lparr>tm_when = time_Add (ft_now ft) d, tm_interval = d, tm_stopped = False, tm_c = Some [], tm_f = None\<rparr>
        in go_bind (startTimer (alloc_timer ft t) (ft_next ft)) (\<lambda>ft'. Ret (ft', ft_next ft)))"

text \<open>\<^verbatim>\<open>Tick\<close> returns the nil channel for a non-positive interval.\<close>

definition Tick :: "frozenTime \<Rightarrow> duration \<Rightarrow> (frozenTime \<times> addr option) go" where
  "Tick ft d =
     (if d \<le> 0 then Ret (ft, None)
      else go_bind (NewTicker ft d) (\<lambda>(ft', t). Ret (ft', Some t)))"

definition stopTimer :: "frozenTime \<Rightarrow> addr \<Rightarrow> frozenTime \<times> bool" where
  "stopTimer ft t =
     (if tm_stopped (ft_tm ft t) then (ft, False)
      else if t \<in> set (ft_timers ft) then
        (ft\<lparr>ft_tm := (ft_tm ft)(t := (ft_tm ft t)\<lparr>tm_stopped := True\<rparr>), ft_timers := remove1 t (ft_timers ft)\<rparr>, True)
      else (ft, False))"

definition Timer_Stop :: "frozenTime \<Rightarrow> addr \<Rightarrow> frozenTime \<times> bool" where
  "Timer_Stop ft t = stopTimer ft t"

definition Timer_Reset :: "frozenTime \<Rightarrow> addr \<Rightarrow> duration \<Rightarrow> (frozenTime \<times> bool) go" where
  "Timer_Reset ft t d =
     (let (ft1, active) = stopTimer ft t;
          ft2 = ft1\<lparr>ft_tm := (ft_tm ft1)(t := (ft_tm ft1 t)\<lparr>tm_when := time_Add (ft_now ft1) d\<rparr>)\<rparr>
      in go_bind (startTimer ft2 t) (\<lambda>ft3. Ret (ft3, active)))"

definition nextExpired :: "frozenTime \<Rightarrow> (frozenTime \<times> addr) option" where
  "nextExpired ft =
     (case ft_timers ft of
        [] \<Rightarrow> None
      | t # ts \<Rightarrow>
          if time_Before (ft_now ft) (when_of ft t) then None
          else Some (ft\<lparr>ft_timers := ts, ft_tm := (ft_tm ft)(t := (ft_tm ft t)\<lparr>tm_stopped := True\<rparr>)\<rparr>, t))"

text \<open>What one pass of the loop does before it calls the function: the send that does not block, and the next tick.\<close>

definition fire :: "frozenTime \<Rightarrow> addr \<Rightarrow> frozenTime" where
  "fire ft t =
     (let tm = ft_tm ft t;
          tm1 = tm\<lparr>tm_c := (case tm_c tm of Some [] \<Rightarrow> Some [tm_when tm] | c \<Rightarrow> c)\<rparr>;
          ft1 = ft\<lparr>ft_fired := ft_fired ft @ [(tm_when tm, t)]\<rparr>
      in if tm_interval tm \<noteq> 0 then
           unlockedStartTimer
             (ft1\<lparr>ft_tm := (ft_tm ft1)(t := tm1\<lparr>tm_when := time_Add (tm_when tm) (tm_interval tm), tm_stopped := False\<rparr>)\<rparr>) t
         else ft1\<lparr>ft_tm := (ft_tm ft1)(t := tm1)\<rparr>)"

partial_function (option) advance_loop :: "(nat \<Rightarrow> frozenTime \<Rightarrow> frozenTime go) \<Rightarrow> frozenTime \<Rightarrow> frozenTime go option" where
  "advance_loop fs ft =
     (case nextExpired ft of
        None \<Rightarrow> Some (Ret ft)
      | Some (ft1, t) \<Rightarrow>
          (case tm_f (ft_tm ft1 t) of
             None \<Rightarrow> advance_loop fs (fire ft1 t)
           | Some f \<Rightarrow>
               (case fs f (fire ft1 t) of
                  Panic p \<Rightarrow> Some (Panic p)
                | Ret ft2 \<Rightarrow> advance_loop fs ft2)))"

definition advance :: "(nat \<Rightarrow> frozenTime \<Rightarrow> frozenTime go) \<Rightarrow> frozenTime \<Rightarrow> duration \<Rightarrow> frozenTime go option" where
  "advance fs ft d = advance_loop fs (ft\<lparr>ft_now := time_Add (ft_now ft) d\<rparr>)"

text \<open>
  The two critical sections of \<^verbatim>\<open>Wait4Scheduled\<close>: \<open>Inl\<close> is an answer at once, \<open>Inr\<close> the state in
  which it waits for its channel or the timeout.
\<close>

definition Wait4Scheduled_begin :: "frozenTime \<Rightarrow> int \<Rightarrow> (bool + frozenTime) go" where
  "Wait4Scheduled_begin ft n =
     (if n \<le> int (length (ft_timers ft)) then Ret (Inl True)
      else if ft_waiter ft \<noteq> None then Panic (UserPanic ''Concurrent call'')
      else Ret (Inr (ft\<lparr>ft_waiter := Some \<lparr>w_count = n, w_closed = False\<rparr>\<rparr>)))"

definition Wait4Scheduled_end :: "frozenTime \<Rightarrow> frozenTime" where
  "Wait4Scheduled_end ft = ft\<lparr>ft_waiter := None\<rparr>"

section \<open>Invariant\<close>

definition ft_wf :: "frozenTime \<Rightarrow> bool" where
  "ft_wf ft \<longleftrightarrow>
     distinct (ft_timers ft) \<and> sorted (map (when_of ft) (ft_timers ft)) \<and>
     (\<forall>a \<in> set (ft_timers ft). a < ft_next ft \<and> 0 \<le> interval_of ft a)"

lemma sorted_insert_after:
  fixes w :: int
  assumes "sorted (map f xs)"
  defines "P \<equiv> \<lambda>c. \<not> w < f c"
  shows "sorted (map f (takeWhile P xs) @ w # map f (dropWhile P xs))"
proof -
  have split: "map f xs = map f (takeWhile P xs) @ map f (dropWhile P xs)" by (metis map_append takeWhile_dropWhile_id)
  have s: "sorted (map f (takeWhile P xs))" "sorted (map f (dropWhile P xs))"
    "\<forall>x \<in> set (map f (takeWhile P xs)). \<forall>y \<in> set (map f (dropWhile P xs)). x \<le> y"
    using assms(1) unfolding split sorted_append by auto
  have le: "\<forall>x \<in> set (map f (takeWhile P xs)). x \<le> w" by (auto simp: P_def dest: set_takeWhileD)
  have ge: "\<forall>y \<in> set (map f (dropWhile P xs)). w \<le> y"
  proof (cases "dropWhile P xs")
    case (Cons z zs)
    then have "\<not> P z" using hd_dropWhile [of P xs] by simp
    then have "w \<le> f z" by (simp add: P_def)
    moreover have "\<forall>y \<in> set zs. f z \<le> f y" using s(2) Cons by auto
    ultimately show ?thesis using Cons by auto
  next
    case Nil
    then show ?thesis by (simp only: list.map set_simps ball_simps)
  qed
  show ?thesis using s le ge by (auto simp: sorted_append)
qed

lemma unlockedStartTimer_simps [simp]:
  "ft_now (unlockedStartTimer ft t) = ft_now ft" "ft_tm (unlockedStartTimer ft t) = ft_tm ft"
  "ft_next (unlockedStartTimer ft t) = ft_next ft" "ft_fired (unlockedStartTimer ft t) = ft_fired ft"
  "ft_waiter (unlockedStartTimer ft t) = ft_waiter ft" "set (ft_timers (unlockedStartTimer ft t)) = insert t (set (ft_timers ft))"
  "mset (ft_timers (unlockedStartTimer ft t)) = add_mset t (mset (ft_timers ft))"
proof -
  show 1: "mset (ft_timers (unlockedStartTimer ft t)) = add_mset t (mset (ft_timers ft))"
    by (simp add: unlockedStartTimer_def Let_def) (metis mset_append takeWhile_dropWhile_id)
  show "set (ft_timers (unlockedStartTimer ft t)) = insert t (set (ft_timers ft))"
    by (metis 1 set_mset_add_mset_insert set_mset_mset)
qed (simp_all add: unlockedStartTimer_def Let_def)

lemma unlockedStartTimer_wf:
  assumes "ft_wf ft" "t \<notin> set (ft_timers ft)" "t < ft_next ft" "0 \<le> interval_of ft t"
  shows "ft_wf (unlockedStartTimer ft t)"
proof -
  have "distinct (ft_timers (unlockedStartTimer ft t))"
    using assms(1,2) by (metis ft_wf_def mset_eq_imp_distinct_iff unlockedStartTimer_simps(7) distinct.simps(2) mset.simps(2))
  moreover have "sorted (map (when_of ft) (ft_timers (unlockedStartTimer ft t)))"
    using sorted_insert_after [of "when_of ft" "ft_timers ft" "when_of ft t"] assms(1)
    by (simp add: unlockedStartTimer_def Let_def time_Before_def ft_wf_def)
  ultimately show ?thesis using assms by (auto simp: ft_wf_def)
qed

section \<open>What is due\<close>

text \<open>How often a timer fires until \<open>now\<close>, and for which times.\<close>

definition due :: "time \<Rightarrow> time \<Rightarrow> duration \<Rightarrow> nat" where
  "due now w i = (if now < w then 0 else if i = 0 then 1 else Suc (nat ((now - w) div i)))"

definition firings :: "frozenTime \<Rightarrow> addr \<Rightarrow> (time \<times> addr) list" where
  "firings ft a =
     map (\<lambda>k. (when_of ft a + int k * interval_of ft a, a)) [0..<due (ft_now ft) (when_of ft a) (interval_of ft a)]"

definition expected :: "frozenTime \<Rightarrow> (time \<times> addr) multiset" where
  "expected ft = \<Sum>\<^sub># (image_mset (\<lambda>a. mset (firings ft a)) (mset (ft_timers ft)))"

lemma due_tick: "0 < i \<Longrightarrow> w \<le> now \<Longrightarrow> due now w i = Suc (due now (w + i) i)"
proof (cases "now < w + i")
  case True
  moreover assume "0 < i" "w \<le> now"
  ultimately have "(now - w) div i = 0" by (intro div_pos_pos_trivial) auto
  with True \<open>w \<le> now\<close> \<open>0 < i\<close> show ?thesis by (simp add: due_def)
next
  case False
  assume i: "0 < i" "w \<le> now"
  have "now - w = (now - (w + i)) + i" by simp
  then have "(now - w) div i = (now - (w + i)) div i + 1" using i(1) by (metis div_add_self2 less_irrefl)
  moreover have "0 \<le> (now - (w + i)) div i" using False i(1) by (simp add: pos_imp_zdiv_nonneg_iff)
  ultimately show ?thesis using False i by (simp add: due_def nat_add_distrib)
qed

lemma firings_cong:
  "ft_now ft' = ft_now ft \<Longrightarrow> when_of ft' a = when_of ft a \<Longrightarrow> interval_of ft' a = interval_of ft a \<Longrightarrow>
   firings ft' a = firings ft a"
  by (simp add: firings_def)

lemma firings_when:
  "p \<in> set (firings ft a) \<Longrightarrow> 0 \<le> interval_of ft a \<Longrightarrow> when_of ft a \<le> fst p \<and> snd p = a"
  by (auto simp: firings_def)

lemma firings_pass:
  assumes "\<not> ft_now ft < when_of ft t" "0 \<le> interval_of ft t"
    and "ft_now ft' = ft_now ft" "interval_of ft' t = interval_of ft t" "when_of ft' t = when_of ft t + interval_of ft t"
  shows "firings ft t = (when_of ft t, t) # (if interval_of ft t = 0 then [] else firings ft' t)"
proof (cases "interval_of ft t = 0")
  case True
  then show ?thesis using assms(1) by (simp add: firings_def due_def)
next
  case False
  let ?w = "when_of ft t" and ?i = "interval_of ft t"
  have "due (ft_now ft) ?w ?i = Suc (due (ft_now ft) (?w + ?i) ?i)" using False assms(1,2) by (intro due_tick) auto
  then show ?thesis
    using False assms(3-5)
    by (simp add: firings_def upt_conv_Cons map_Suc_upt [symmetric] o_def algebra_simps del: upt_Suc)
qed

lemma pass:
  assumes wf: "ft_wf ft" and next_: "nextExpired ft = Some (ft1, t)"
  defines "ft2 \<equiv> fire ft1 t"
  shows "ft_wf ft2" and "ft_now ft2 = ft_now ft" and "ft_fired ft2 = ft_fired ft @ [(when_of ft t, t)]"
    and "expected ft = add_mset (when_of ft t, t) (expected ft2)"
    and "\<And>b. b \<in> set (ft_timers ft2) \<Longrightarrow> when_of ft t \<le> when_of ft2 b"
    and "set (ft_timers ft2) \<subseteq> set (ft_timers ft)" and "when_of ft t \<le> ft_now ft" and "t \<in> set (ft_timers ft)"
proof -
  obtain ts where ts: "ft_timers ft = t # ts" "\<not> ft_now ft < when_of ft t"
    "ft1 = ft\<lparr>ft_timers := ts, ft_tm := (ft_tm ft)(t := (ft_tm ft t)\<lparr>tm_stopped := True\<rparr>)\<rparr>"
    using next_ by (auto simp: nextExpired_def time_Before_def split: list.splits if_splits)
  let ?i = "interval_of ft t" and ?w = "when_of ft t"
  have wf': "distinct ts" "t \<notin> set ts" "sorted (map (when_of ft) ts)" "\<forall>b \<in> set ts. ?w \<le> when_of ft b" "0 \<le> ?i" "t < ft_next ft"
    "\<forall>a \<in> set ts. a < ft_next ft \<and> 0 \<le> interval_of ft a"
    using wf by (auto simp: ft_wf_def ts(1))
  define ft3 where "ft3 = ft\<lparr>ft_timers := ts, ft_fired := ft_fired ft @ [(?w, t)],
    ft_tm := (ft_tm ft)(t :=
      (let c' = (case tm_c (ft_tm ft t) of Some [] \<Rightarrow> Some [?w] | c \<Rightarrow> c)
       in if ?i = 0 then (ft_tm ft t)\<lparr>tm_stopped := True, tm_c := c'\<rparr>
          else (ft_tm ft t)\<lparr>tm_c := c', tm_when := ?w + ?i, tm_stopped := False\<rparr>))\<rparr>"
  have ft2: "ft2 = (if ?i = 0 then ft3 else unlockedStartTimer ft3 t)"
    by (cases "tm_c (ft_tm ft t)")
      (auto simp: ft2_def fire_def ts(3) Let_def time_Add_def ft3_def split: list.splits)
  have same: "ft_tm ft3 b = ft_tm ft b" if "b \<in> set ts" for b using that wf'(2) by (auto simp: ft3_def)
  have t3: "when_of ft3 t = ?w + ?i" "interval_of ft3 t = ?i" "ft_now ft3 = ft_now ft" "ft_timers ft3 = ts"
    "ft_next ft3 = ft_next ft" "tm_stopped (ft_tm ft3 t) = (?i = 0)" "ft_fired ft3 = ft_fired ft @ [(?w, t)]"
    by (simp_all add: ft3_def Let_def)
  have "map (when_of ft3) ts = map (when_of ft) ts" using same by simp
  then have "sorted (map (when_of ft3) ts)" using wf'(3) by (simp only:)
  then have wf3: "ft_wf ft3" using wf' same by (auto simp: ft_wf_def t3)
  show "ft_wf ft2"
    using wf3 unlockedStartTimer_wf [OF wf3, of t] wf' by (auto simp: ft2 t3)
  show "ft_now ft2 = ft_now ft" "ft_fired ft2 = ft_fired ft @ [(when_of ft t, t)]" by (simp_all add: ft2 t3)
  show "when_of ft t \<le> when_of ft2 b" if "b \<in> set (ft_timers ft2)" for b
    using that wf' same by (auto simp: ft2 t3 split: if_splits)
  show "set (ft_timers ft2) \<subseteq> set (ft_timers ft)" using ts(1) by (auto simp: ft2 t3)
  have f2: "firings ft2 b = firings ft b" if "b \<in> set ts" for b
    using that same by (intro firings_cong) (auto simp: ft2 t3)
  have tms: "mset (ft_timers ft2) = (if ?i = 0 then mset ts else add_mset t (mset ts))"
    by (simp add: ft2 t3)
  have "firings ft t = (?w, t) # (if ?i = 0 then [] else firings ft2 t)"
    using ts(2) wf'(5) by (intro firings_pass) (auto simp: ft2 t3)
  moreover have "image_mset (\<lambda>a. mset (firings ft2 a)) (mset ts) = image_mset (\<lambda>a. mset (firings ft a)) (mset ts)"
    using f2 by (intro image_mset_cong) auto
  ultimately show "expected ft = add_mset (when_of ft t, t) (expected ft2)"
    by (simp add: expected_def ts(1) tms)
qed (use next_ in \<open>auto simp: nextExpired_def time_Before_def split: list.splits if_splits\<close>)

text \<open>Functions that leave the clock alone.\<close>

definition inert :: "(nat \<Rightarrow> frozenTime \<Rightarrow> frozenTime go) \<Rightarrow> bool" where
  "inert fs \<longleftrightarrow> (\<forall>f ft. fs f ft = Ret ft)"

lemma advance_loop_end: "nextExpired ft = None \<Longrightarrow> advance_loop fs ft = Some (Ret ft)"
  by (subst advance_loop.simps) simp

lemma advance_loop_pass:
  "inert fs \<Longrightarrow> nextExpired ft = Some (ft1, t) \<Longrightarrow> advance_loop fs ft = advance_loop fs (fire ft1 t)"
  by (subst advance_loop.simps) (simp add: inert_def split: option.splits)

lemma advance_loop_spec:
  assumes "inert fs" "ft_wf ft"
  shows "\<exists>ft' log. advance_loop fs ft = Some (Ret ft') \<and> ft_wf ft' \<and> ft_now ft' = ft_now ft \<and>
    (\<forall>a \<in> set (ft_timers ft'). ft_now ft < when_of ft' a) \<and> set (ft_timers ft') \<subseteq> set (ft_timers ft) \<and>
    ft_fired ft' = ft_fired ft @ log \<and> mset log = expected ft \<and> sorted (map fst log)"
  using assms(2)
proof (induction "size (expected ft)" arbitrary: ft rule: less_induct)
  case less
  show ?case
  proof (cases "nextExpired ft")
    case None
    have late: "\<forall>a \<in> set (ft_timers ft). ft_now ft < when_of ft a"
      using None less.prems by (auto simp: nextExpired_def time_Before_def ft_wf_def split: list.splits if_splits)
    then have "expected ft = {#}" by (auto simp: expected_def firings_def due_def)
    with late None less.prems show ?thesis
      by (intro exI [of _ ft] exI [of _ "[]"]) (simp add: advance_loop_end)
  next
    case (Some p)
    obtain ft1 t where p: "nextExpired ft = Some (ft1, t)" using Some by (cases p) auto
    let ?ft2 = "fire ft1 t"
    note ps = pass [OF less.prems p]
    have "size (expected ?ft2) < size (expected ft)" using ps(4) by simp
    then obtain ft' log where r: "advance_loop fs ?ft2 = Some (Ret ft')" "ft_wf ft'" "ft_now ft' = ft_now ?ft2"
      "\<forall>a \<in> set (ft_timers ft'). ft_now ?ft2 < when_of ft' a" "set (ft_timers ft') \<subseteq> set (ft_timers ?ft2)"
      "ft_fired ft' = ft_fired ?ft2 @ log" "mset log = expected ?ft2" "sorted (map fst log)"
      using less.hyps [OF _ ps(1)] by blast
    have "when_of ft t \<le> fst q" if "q \<in> set log" for q
    proof -
      have "q \<in># expected ?ft2" using that r(7) by (metis set_mset_mset)
      then obtain b where b: "b \<in> set (ft_timers ?ft2)" "q \<in> set (firings ?ft2 b)" by (auto simp: expected_def)
      have "0 \<le> interval_of ?ft2 b" using ps(1) b(1) by (auto simp: ft_wf_def)
      then show ?thesis using firings_when [OF b(2)] ps(5) [OF b(1)] by simp
    qed
    then have "sorted (map fst ((when_of ft t, t) # log))" using r(8) by auto
    moreover have "mset ((when_of ft t, t) # log) = expected ft" using ps(4) r(7) by simp
    moreover have "ft_fired ft' = ft_fired ft @ ((when_of ft t, t) # log)" using r(6) ps(3) by simp
    moreover have "advance_loop fs ft = Some (Ret ft')" using advance_loop_pass [OF assms(1) p] r(1) by simp
    ultimately show ?thesis
      using r(2-5) ps(2,6) by (intro exI [of _ ft'] exI [of _ "(when_of ft t, t) # log"]) auto
  qed
qed

section \<open>Reachable clocks\<close>

lemma startTimer_fields:
  assumes "startTimer ft t = Ret ft'"
  shows "ft_timers ft' = ft_timers (unlockedStartTimer ft t)" "ft_tm ft' = ft_tm ft" "ft_now ft' = ft_now ft"
    "ft_next ft' = ft_next ft" "ft_fired ft' = ft_fired ft"
  using assms by (auto simp: startTimer_def Let_def split: option.splits if_splits)

lemma startTimer_wf:
  assumes "startTimer ft t = Ret ft'" "ft_wf ft" "t \<notin> set (ft_timers ft)" "t < ft_next ft" "0 \<le> interval_of ft t"
  shows "ft_wf ft'"
  using unlockedStartTimer_wf [OF assms(2-5)] startTimer_fields [OF assms(1)] by (simp add: ft_wf_def)

lemma alloc_timer_wf:
  assumes wf: "ft_wf ft" and t: "0 \<le> tm_interval tm"
    and start: "startTimer (alloc_timer ft tm) (ft_next ft) = Ret ft'"
  shows "ft_wf ft'"
proof -
  have fresh: "ft_next ft \<notin> set (ft_timers ft)" using wf by (auto simp: ft_wf_def)
  have "map (when_of (alloc_timer ft tm)) (ft_timers ft) = map (when_of ft) (ft_timers ft)"
    using fresh by (auto simp: alloc_timer_def)
  then have "sorted (map (when_of (alloc_timer ft tm)) (ft_timers ft))" using wf by (simp only: ft_wf_def)
  then have "ft_wf (alloc_timer ft tm)"
    using wf fresh by (auto simp: ft_wf_def alloc_timer_def less_Suc_eq)
  then show ?thesis using start fresh t by (intro startTimer_wf [OF start]) (auto simp: alloc_timer_def)
qed

lemma stopTimer_wf:
  assumes wf: "ft_wf ft"
  shows "ft_wf (fst (stopTimer ft a))"
    and "\<not> (tm_stopped (ft_tm ft a) \<and> a \<in> set (ft_timers ft)) \<Longrightarrow> a \<notin> set (ft_timers (fst (stopTimer ft a)))"
proof -
  let ?ft = "fst (stopTimer ft a)"
  have "ft_wf ?ft \<and> (\<not> (tm_stopped (ft_tm ft a) \<and> a \<in> set (ft_timers ft)) \<longrightarrow> a \<notin> set (ft_timers ?ft))"
  proof (cases "\<not> tm_stopped (ft_tm ft a) \<and> a \<in> set (ft_timers ft)")
    case True
    have ft: "ft_timers ?ft = remove1 a (ft_timers ft)" "ft_next ?ft = ft_next ft"
      "ft_tm ?ft = (ft_tm ft)(a := (ft_tm ft a)\<lparr>tm_stopped := True\<rparr>)"
      using True by (simp_all add: stopTimer_def)
    have sub: "set (remove1 a (ft_timers ft)) = set (ft_timers ft) - {a}" using wf by (simp add: ft_wf_def set_remove1_eq)
    have same: "when_of ?ft = when_of ft" "interval_of ?ft = interval_of ft" by (auto simp: ft fun_eq_iff)
    have "sorted (map (when_of ft) (remove1 a (ft_timers ft)))" using wf by (simp add: ft_wf_def sorted_map_remove1 del: sorted_map)
    then have "sorted (map (when_of ?ft) (ft_timers ?ft))" by (simp only: same ft(1))
    moreover have "0 \<le> interval_of ?ft b" if "b \<in> set (ft_timers ft)" for b
      using wf that fun_cong [OF same(2), of b] by (simp add: ft_wf_def)
    ultimately show ?thesis using wf sub by (auto simp: ft_wf_def ft(1,2))
  qed (use wf in \<open>auto simp: stopTimer_def\<close>)
  then show "ft_wf ?ft" "\<not> (tm_stopped (ft_tm ft a) \<and> a \<in> set (ft_timers ft)) \<Longrightarrow> a \<notin> set (ft_timers ?ft)"
    by blast+
qed

lemma set_when_wf:
  assumes "ft_wf ft" "a \<notin> set (ft_timers ft)"
  shows "ft_wf (ft\<lparr>ft_tm := (ft_tm ft)(a := (ft_tm ft a)\<lparr>tm_when := w\<rparr>)\<rparr>)"
proof -
  let ?ft = "ft\<lparr>ft_tm := (ft_tm ft)(a := (ft_tm ft a)\<lparr>tm_when := w\<rparr>)\<rparr>"
  have map_eq: "map (when_of ?ft) (ft_timers ?ft) = map (when_of ft) (ft_timers ft)" using assms(2) by auto
  have "sorted (map (when_of ?ft) (ft_timers ?ft))" unfolding map_eq using assms(1) by (simp only: ft_wf_def)
  then show ?thesis using assms by (auto simp: ft_wf_def)
qed

lemma Timer_Reset_wf:
  assumes wf: "ft_wf ft" and a: "a < ft_next ft" "0 \<le> interval_of ft a" "\<not> (tm_stopped (ft_tm ft a) \<and> a \<in> set (ft_timers ft))"
    and reset: "Timer_Reset ft a d = Ret (ft', b)"
  shows "ft_wf ft'"
proof -
  let ?ft1 = "fst (stopTimer ft a)"
  let ?ft2 = "?ft1\<lparr>ft_tm := (ft_tm ?ft1)(a := (ft_tm ?ft1 a)\<lparr>tm_when := time_Add (ft_now ?ft1) d\<rparr>)\<rparr>"
  note s = stopTimer_wf(1) [OF wf, of a] stopTimer_wf(2) [OF wf a(3)]
  have f: "ft_next ?ft1 = ft_next ft" "interval_of ?ft1 a = interval_of ft a" by (simp_all add: stopTimer_def)
  have start: "startTimer ?ft2 a = Ret ft'"
    using reset by (auto simp: Timer_Reset_def Let_def go_bind_Ret_iff split: prod.splits)
  show ?thesis
    by (rule startTimer_wf [OF start set_when_wf [OF s]]) (use s a f in auto)
qed

text \<open>
  The clocks that calls lead to from a frozen one; a timer may be reset unless it was reset
  already and is scheduled.
\<close>

inductive frozen_reach :: "frozenTime \<Rightarrow> bool" where
  Freeze: "frozen_reach (Freeze now)"
| AfterFunc: "frozen_reach ft \<Longrightarrow> AfterFunc ft d f = Ret (ft', t) \<Longrightarrow> frozen_reach ft'"
| NewTicker: "frozen_reach ft \<Longrightarrow> NewTicker ft d = Ret (ft', t) \<Longrightarrow> frozen_reach ft'"
| Stop: "frozen_reach ft \<Longrightarrow> frozen_reach (fst (Timer_Stop ft t))"
| Reset: "frozen_reach ft \<Longrightarrow> t < ft_next ft \<Longrightarrow> 0 \<le> interval_of ft t \<Longrightarrow>
    \<not> (tm_stopped (ft_tm ft t) \<and> t \<in> set (ft_timers ft)) \<Longrightarrow> Timer_Reset ft t d = Ret (ft', b) \<Longrightarrow> frozen_reach ft'"
| Wait: "frozen_reach ft \<Longrightarrow> Wait4Scheduled_begin ft n = Ret (Inr ft') \<Longrightarrow> frozen_reach ft'"
| Waited: "frozen_reach ft \<Longrightarrow> frozen_reach (Wait4Scheduled_end ft)"
| Advance: "frozen_reach ft \<Longrightarrow> inert fs \<Longrightarrow> advance fs ft d = Some (Ret ft') \<Longrightarrow> frozen_reach ft'"

lemma frozen_reach_wf: "frozen_reach ft \<Longrightarrow> ft_wf ft"
proof (induction rule: frozen_reach.induct)
  case (AfterFunc ft d f ft' t)
  then obtain tm where "startTimer (alloc_timer ft tm) (ft_next ft) = Ret ft'" "0 \<le> tm_interval tm"
    by (auto simp: AfterFunc_def Let_def go_bind_Ret_iff)
  then show ?case by (intro alloc_timer_wf [OF AfterFunc.IH])
next
  case (NewTicker ft d ft' t)
  then obtain tm where "startTimer (alloc_timer ft tm) (ft_next ft) = Ret ft'" "0 \<le> tm_interval tm"
    by (auto simp: NewTicker_def Let_def go_bind_Ret_iff split: if_splits)
  then show ?case by (intro alloc_timer_wf [OF NewTicker.IH])
next
  case (Advance ft fs d ft')
  have "ft_wf (ft\<lparr>ft_now := time_Add (ft_now ft) d\<rparr>)" using Advance.IH by (simp add: ft_wf_def)
  from advance_loop_spec [OF Advance.hyps(2) this] show ?case using Advance.hyps(3) by (auto simp: advance_def)
next
  case (Reset ft t d ft' b)
  show ?case by (rule Timer_Reset_wf [OF Reset.IH Reset.hyps(2-5)])
next
  case (Stop ft t)
  then show ?case by (simp add: Timer_Stop_def stopTimer_wf)
qed (auto simp: ft_wf_def Freeze_def Wait4Scheduled_begin_def Wait4Scheduled_end_def split: if_splits)

section \<open>Correctness\<close>

lemma advance_spec:
  assumes "ft_wf ft" and "inert fs"
  shows "\<exists>ft' log. advance fs ft d = Some (Ret ft') \<and> ft_wf ft' \<and> ft_now ft' = ft_now ft + d \<and>
    (\<forall>a \<in> set (ft_timers ft'). ft_now ft' < when_of ft' a) \<and>
    ft_fired ft' = ft_fired ft @ log \<and> sorted (map fst log) \<and> mset log = expected (ft\<lparr>ft_now := ft_now ft + d\<rparr>)"
proof -
  have "ft_wf (ft\<lparr>ft_now := ft_now ft + d\<rparr>)" using assms(1) by (simp add: ft_wf_def)
  from advance_loop_spec [OF assms(2) this] show ?thesis by (auto simp: advance_def time_Add_def)
qed


lemma inert_skip: "inert (\<lambda>_ ft. Ret ft)"
  by (simp add: inert_def)


text \<open>
  After \<^verbatim>\<open>Reset\<close> of an active timer, \<^verbatim>\<open>Stop\<close> has no effect: it returns false, the timer stays
  scheduled, and it fires when the clock reaches its time. \<^verbatim>\<open>Reset\<close> stops the timer first and
  does not clear the mark that \<^verbatim>\<open>Stop\<close> checks.
\<close>

theorem Stop_after_Reset_ineffective:
  assumes "frozen_reach ft" and "t \<in> set (ft_timers ft)" and "\<not> tm_stopped (ft_tm ft t)"
    and "Timer_Reset ft t d = Ret (ft1, active)"
  shows "active \<and> Timer_Stop ft1 t = (ft1, False) \<and>
    (\<exists>ft2. advance (\<lambda>_ ft. Ret ft) ft1 d = Some (Ret ft2) \<and> (ft_now ft + d, t) \<in> set (ft_fired ft2))"
proof -
  have wf: "ft_wf ft" by (rule frozen_reach_wf [OF assms(1)])
  then have t: "t < ft_next ft" "0 \<le> interval_of ft t" using assms(2) by (auto simp: ft_wf_def)
  have wf1: "ft_wf ft1" by (rule Timer_Reset_wf [OF wf t _ assms(4)]) (use assms(3) in simp)
  obtain ft0 where "startTimer ft0 t = Ret ft1" "ft_now ft0 = ft_now ft" "when_of ft0 t = ft_now ft + d" "tm_stopped (ft_tm ft0 t)"
    and active: active
    using assms(2-4) by (auto simp: Timer_Reset_def stopTimer_def go_bind_Ret_iff time_Add_def)
  note ft1 = startTimer_fields [OF this(1)] this(2-4)
  have "due (ft_now ft1 + d) (when_of ft1 t) (interval_of ft1 t) \<noteq> 0" by (simp add: ft1 due_def)
  then have "(when_of ft1 t, t) \<in> set (firings (ft1\<lparr>ft_now := ft_now ft1 + d\<rparr>) t)"
    by (auto simp: firings_def image_iff intro!: bexI [of _ 0])
  then have "(ft_now ft + d, t) \<in># expected (ft1\<lparr>ft_now := ft_now ft1 + d\<rparr>)"
    by (auto simp: expected_def ft1)
  moreover obtain ft2 log where "advance (\<lambda>_ ft. Ret ft) ft1 d = Some (Ret ft2)" "ft_fired ft2 = ft_fired ft1 @ log"
    "mset log = expected (ft1\<lparr>ft_now := ft_now ft1 + d\<rparr>)"
    using advance_spec [OF wf1 inert_skip, of d] by blast
  ultimately have "\<exists>ft2. advance (\<lambda>_ ft. Ret ft) ft1 d = Some (Ret ft2) \<and> (ft_now ft + d, t) \<in> set (ft_fired ft2)"
    by (metis Un_iff set_append set_mset_mset)
  then show ?thesis using active by (simp add: Timer_Stop_def stopTimer_def ft1)
qed

theorem Stop_after_Reset_ineffective_witness:
  "\<exists>ft t ft1. NewTimer (Freeze 0) 10 = Ret (ft, t) \<and> Timer_Reset ft t 7 = Ret (ft1, True) \<and> Timer_Stop ft1 t = (ft1, False) \<and>
     (\<exists>ft2. advance (\<lambda>_ ft. Ret ft) ft1 7 = Some (Ret ft2) \<and> (7, t) \<in> set (ft_fired ft2))"
proof -
  obtain ft t where ft: "AfterFunc (Freeze 0) 10 None = Ret (ft, t)" "ft_timers ft = [t]" "\<not> tm_stopped (ft_tm ft t)"
    "ft_now ft = 0" "ft_waiter ft = None"
    by (simp add: AfterFunc_def Freeze_def alloc_timer_def startTimer_def unlockedStartTimer_def Let_def time_Add_def)
  have reach: "frozen_reach ft" by (rule frozen_reach.AfterFunc [OF frozen_reach.Freeze ft(1)])
  obtain ft1 b where r: "Timer_Reset ft t 7 = Ret (ft1, b)"
    using ft by (auto simp: Timer_Reset_def stopTimer_def startTimer_def Let_def)
  show ?thesis using Stop_after_Reset_ineffective [OF reach _ ft(3) r] ft r by (auto simp: NewTimer_def)
qed


end
