(* ===== verification/Clock_Package.thy ===== *)
theory Clock_Package
  imports Frozen_Clock
begin

text \<open>
  \<^verbatim>\<open>clock/clock.go\<close> (\<^verbatim>\<open>v3/clock/clock.go\<close> has the same code): the package variables that select the clock, and
  the functions that forward to it. The real clock is the reading of the system's, an argument.
\<close>

datatype provider = Realtime | Frozen frozenTime

record clock_package =
  ck_frozenAt :: time
  ck_provider :: provider

definition clock_init :: clock_package where
  "clock_init = \<lparr>ck_frozenAt = 0, ck_provider = Realtime\<rparr>"

definition clock_Freeze :: "clock_package \<Rightarrow> time \<Rightarrow> clock_package" where
  "clock_Freeze ck now = ck\<lparr>ck_frozenAt := now, ck_provider := Frozen (Freeze now)\<rparr>"

definition clock_Unfreeze :: "clock_package \<Rightarrow> clock_package" where
  "clock_Unfreeze ck = ck\<lparr>ck_provider := Realtime\<rparr>"

definition clock_Now :: "time \<Rightarrow> clock_package \<Rightarrow> time" where
  "clock_Now system ck = (case ck_provider ck of Realtime \<Rightarrow> system | Frozen ft \<Rightarrow> ft_now ft)"

text \<open>\<^verbatim>\<open>t.Sub(u)\<close> saturates at the largest and smallest duration.\<close>

definition time_Sub :: "time \<Rightarrow> time \<Rightarrow> duration" where
  "time_Sub t u = max (- (2 ^ 63)) (min (2 ^ 63 - 1) (t - u))"

definition clock_Advance ::
  "(nat \<Rightarrow> frozenTime \<Rightarrow> frozenTime go) \<Rightarrow> clock_package \<Rightarrow> duration \<Rightarrow> (clock_package \<times> duration) go option" where
  "clock_Advance fs ck d =
     (case ck_provider ck of
        Realtime \<Rightarrow> Some (Panic (UserPanic ''Freeze time first!''))
      | Frozen ft \<Rightarrow>
          map_option (\<lambda>r. go_bind r (\<lambda>ft'. Ret (ck\<lparr>ck_provider := Frozen ft'\<rparr>, time_Sub (ft_now ft') (ck_frozenAt ck))))
            (advance fs ft d))"

definition clock_Wait4Scheduled :: "clock_package \<Rightarrow> int \<Rightarrow> (bool + frozenTime) go" where
  "clock_Wait4Scheduled ck n =
     (case ck_provider ck of Realtime \<Rightarrow> Panic (UserPanic ''Not supported'') | Frozen ft \<Rightarrow> Wait4Scheduled_begin ft n)"

text \<open>A timer for 42 hours that is stopped at once; on the frozen clock.\<close>

definition NewStoppedTimer :: "frozenTime \<Rightarrow> (frozenTime \<times> addr) go" where
  "NewStoppedTimer ft = go_bind (NewTimer ft (42 * 3600 * Second)) (\<lambda>(ft', t). Ret (fst (Timer_Stop ft' t), t))"

section \<open>Elapsed time\<close>

text \<open>Several calls of \<^verbatim>\<open>Advance\<close> and the durations they return.\<close>

fun clock_advances ::
  "(nat \<Rightarrow> frozenTime \<Rightarrow> frozenTime go) \<Rightarrow> duration list \<Rightarrow> clock_package \<Rightarrow> (clock_package \<times> duration list) go option" where
  "clock_advances fs [] ck = Some (Ret (ck, []))"
| "clock_advances fs (d # ds) ck =
     (case clock_Advance fs ck d of
        None \<Rightarrow> None
      | Some (Panic p) \<Rightarrow> Some (Panic p)
      | Some (Ret (ck', r)) \<Rightarrow> map_option (\<lambda>x. go_bind x (\<lambda>(ck'', rs). Ret (ck'', r # rs))) (clock_advances fs ds ck'))"

fun running_sums :: "duration \<Rightarrow> duration list \<Rightarrow> duration list" where
  "running_sums acc [] = []"
| "running_sums acc (d # ds) = (acc + d) # running_sums (acc + d) ds"

lemma advance_now:
  assumes "inert fs" "ft_wf ft"
  shows "\<exists>ft'. advance fs ft d = Some (Ret ft') \<and> ft_wf ft' \<and> ft_now ft' = ft_now ft + d"
proof -
  have "ft_wf (ft\<lparr>ft_now := time_Add (ft_now ft) d\<rparr>)" using assms(2) by (simp add: ft_wf_def)
  from advance_loop_spec [OF assms(1) this] show ?thesis by (auto simp: advance_def time_Add_def)
qed

lemma clock_advances_spec:
  assumes "inert fs" "ft_wf ft" "ck_provider ck = Frozen ft" "\<forall>x \<in> set (running_sums (ft_now ft - ck_frozenAt ck) ds). in_i64 x"
  shows "\<exists>ck'. clock_advances fs ds ck = Some (Ret (ck', running_sums (ft_now ft - ck_frozenAt ck) ds)) \<and>
    (\<exists>ft'. ck_provider ck' = Frozen ft' \<and> ft_wf ft' \<and> ft_now ft' = ft_now ft + sum_list ds)"
  using assms(2-)
proof (induction ds arbitrary: ck ft)
  case (Cons d ds)
  obtain ft1 where ft1: "advance fs ft d = Some (Ret ft1)" "ft_wf ft1" "ft_now ft1 = ft_now ft + d"
    using advance_now [OF assms(1) Cons.prems(1)] by blast
  let ?ck = "ck\<lparr>ck_provider := Frozen ft1\<rparr>"
  have "time_Sub (ft_now ft1) (ck_frozenAt ck) = ft_now ft - ck_frozenAt ck + d"
    using Cons.prems(3) ft1(3) by (auto simp: time_Sub_def in_i64_def)
  moreover have "ft_now ft1 - ck_frozenAt ?ck = ft_now ft - ck_frozenAt ck + d" using ft1(3) by simp
  ultimately have adv: "clock_Advance fs ck d = Some (Ret (?ck, ft_now ft - ck_frozenAt ck + d))"
    and sums: "ft_now ft1 - ck_frozenAt ?ck = ft_now ft - ck_frozenAt ck + d"
    using Cons.prems(2) ft1(1) by (simp_all add: clock_Advance_def)
  obtain ck' ft' where "clock_advances fs ds ?ck = Some (Ret (ck', running_sums (ft_now ft - ck_frozenAt ck + d) ds))"
    "ck_provider ck' = Frozen ft'" "ft_wf ft'" "ft_now ft' = ft_now ft1 + sum_list ds"
    using Cons.IH [OF ft1(2), of ?ck] Cons.prems(3) unfolding sums by auto
  then show ?case using adv ft1(3) by simp
qed simp

text \<open>
  After \<^verbatim>\<open>Freeze\<close>, every call of \<^verbatim>\<open>Advance\<close> returns the time that has passed since the clock was frozen, the
  sum of the durations so far, as long as it fits a duration and the timers' functions leave the clock
  alone, and \<^verbatim>\<open>Now\<close> is the time of freezing plus that sum; without \<^verbatim>\<open>Freeze\<close>, or after \<^verbatim>\<open>Unfreeze\<close>, it panics.
\<close>

theorem clock_Advance_elapsed:
  assumes "inert fs" and "\<forall>x \<in> set (running_sums 0 ds). in_i64 x"
  shows "(\<exists>ck'. clock_advances fs ds (clock_Freeze ck now) = Some (Ret (ck', running_sums 0 ds)) \<and>
      clock_Now system ck' = now + sum_list ds) \<and>
    clock_Advance fs (clock_Unfreeze ck) d = Some (Panic (UserPanic ''Freeze time first!''))"
proof -
  have wf: "ft_wf (Freeze now)" by (simp add: ft_wf_def Freeze_def)
  have ck: "ck_provider (clock_Freeze ck now) = Frozen (Freeze now)" "ck_frozenAt (clock_Freeze ck now) = now"
    "ft_now (Freeze now) = now" by (simp_all add: clock_Freeze_def Freeze_def)
  show ?thesis using clock_advances_spec [OF assms(1) wf ck(1), of ds] assms(2) ck(2,3)
    by (auto simp: clock_Now_def clock_Unfreeze_def clock_Advance_def)
qed

theorem clock_Advance_elapsed_witness:
  "\<exists>ck'. clock_advances (\<lambda>_ ft. Ret ft) [5, 7] (clock_Freeze clock_init 1000) = Some (Ret (ck', [5, 12])) \<and>
     clock_Now 0 ck' = 1012"
  using clock_Advance_elapsed [of "\<lambda>_ ft. Ret ft" "[5, 7]" clock_init 1000 0 0] by (simp add: inert_skip in_i64_def)

text \<open>The timer of \<^verbatim>\<open>NewStoppedTimer\<close> is not scheduled.\<close>

lemma remove1_inserted: "t \<notin> set xs \<Longrightarrow> remove1 t (takeWhile P xs @ t # dropWhile P xs) = xs"
  by (simp add: remove1_append) (auto dest: set_takeWhileD)

lemma NewStoppedTimer_idle:
  assumes "ft_wf ft" "ft_waiter ft = None"
  shows "\<exists>ft' t. NewStoppedTimer ft = Ret (ft', t) \<and> ft_timers ft' = ft_timers ft"
proof -
  let ?t = "ft_next ft"
  have fresh: "?t \<notin> set (ft_timers ft)" using assms(1) by (auto simp: ft_wf_def)
  let ?tm = "\<lparr>tm_when = time_Add (ft_now ft) (42 * 3600 * Second), tm_interval = 0, tm_stopped = False, tm_c = Some [], tm_f = None\<rparr>"
  let ?ft = "unlockedStartTimer (alloc_timer ft ?tm) ?t"
  have new: "NewTimer ft (42 * 3600 * Second) = Ret (?ft, ?t)"
    using assms(2) by (simp add: NewTimer_def AfterFunc_def startTimer_def alloc_timer_def unlockedStartTimer_def Let_def)
  have "remove1 ?t (ft_timers ?ft) = ft_timers ft"
    using fresh by (simp add: unlockedStartTimer_def alloc_timer_def Let_def remove1_inserted)
  moreover have "?t \<in> set (ft_timers ?ft)" "\<not> tm_stopped (ft_tm ?ft ?t)" by (simp_all add: unlockedStartTimer_def alloc_timer_def Let_def)
  ultimately show ?thesis using new by (simp add: NewStoppedTimer_def Timer_Stop_def stopTimer_def)
qed

end
