(* ===== verification/Sleep_Clock.thy ===== *)
theory Sleep_Clock
  imports Go_Prelude
begin

text \<open>
  \<^verbatim>\<open>clock.go\<close>: the clocks that other packages take as an argument. \<^verbatim>\<open>FrozenClock\<close> moves when somebody sleeps on
  it; \<^verbatim>\<open>SleepClock\<close> keeps the channels of everybody who waits, by the time they wait for, and \<^verbatim>\<open>Advance\<close> sends
  the new time to those that are due. A channel is an address in a store of buffered values; its
  buffer holds one. A blocked send is \<open>None\<close>. \<^verbatim>\<open>SystemClock\<close> only forwards to package \<^verbatim>\<open>time\<close>.
\<close>

section \<open>FrozenClock\<close>

record FrozenClock =
  fz_CurrentTime :: time

definition FrozenClock_Now :: "FrozenClock \<Rightarrow> time" where
  "FrozenClock_Now t = fz_CurrentTime t"

definition FrozenClock_Sleep :: "FrozenClock \<Rightarrow> duration \<Rightarrow> FrozenClock" where
  "FrozenClock_Sleep t d = t\<lparr>fz_CurrentTime := time_Add (fz_CurrentTime t) d\<rparr>"

text \<open>The channel holds one value already.\<close>

definition FrozenClock_After :: "FrozenClock \<Rightarrow> duration \<Rightarrow> FrozenClock \<times> time list" where
  "FrozenClock_After t d = (let t' = FrozenClock_Sleep t d in (t', [fz_CurrentTime t']))"

section \<open>SleepClock\<close>

record SleepClock =
  sc_currentTime :: time
  sc_waiters :: "(time, addr list) gomap"
  sc_chan :: "addr \<Rightarrow> time list"
  sc_next :: addr

definition NewSleepClock :: "time \<Rightarrow> SleepClock" where
  "NewSleepClock currentTime = \<lparr>sc_currentTime = currentTime, sc_waiters = [], sc_chan = (\<lambda>_. []), sc_next = 0\<rparr>"

definition SleepClock_Now :: "SleepClock \<Rightarrow> time" where
  "SleepClock_Now t = sc_currentTime t"

definition SleepClock_After :: "SleepClock \<Rightarrow> duration \<Rightarrow> SleepClock \<times> addr" where
  "SleepClock_After t d =
     (let c = sc_next t;
          until = time_Add (sc_currentTime t) d;
          old = (case map_of (sc_waiters t) until of None \<Rightarrow> [] | Some cs \<Rightarrow> cs)
      in (t\<lparr>sc_waiters := AList.update until (old @ [c]) (sc_waiters t), sc_chan := (sc_chan t)(c := []), sc_next := Suc c\<rparr>, c))"

text \<open>\<^verbatim>\<open>c <- v\<close> on a channel with room for one value.\<close>

definition chan_send :: "time \<Rightarrow> (addr \<Rightarrow> time list) \<Rightarrow> addr \<Rightarrow> (addr \<Rightarrow> time list) option" where
  "chan_send v ch c = (if length (ch c) < 1 then Some (ch(c := ch c @ [v])) else None)"

fun send_all :: "time \<Rightarrow> addr list \<Rightarrow> (addr \<Rightarrow> time list) \<Rightarrow> (addr \<Rightarrow> time list) option" where
  "send_all v [] ch = Some ch"
| "send_all v (c # cs) ch = (case chan_send v ch c of None \<Rightarrow> None | Some ch' \<Rightarrow> send_all v cs ch')"

text \<open>The loop over the waiters, in the order \<open>ks\<close> that \<^verbatim>\<open>range\<close> happens to take.\<close>

fun advance_waiters :: "(time \<times> addr list) list \<Rightarrow> SleepClock \<Rightarrow> SleepClock option" where
  "advance_waiters [] t = Some t"
| "advance_waiters ((k, v) # ks) t =
     (if time_Before k (sc_currentTime t)
      then (case send_all (sc_currentTime t) v (sc_chan t) of
              None \<Rightarrow> None
            | Some ch \<Rightarrow> advance_waiters ks (t\<lparr>sc_chan := ch, sc_waiters := AList.delete k (sc_waiters t)\<rparr>))
      else advance_waiters ks t)"

definition SleepClock_Advance :: "(time \<times> addr list) list \<Rightarrow> SleepClock \<Rightarrow> duration \<Rightarrow> SleepClock option" where
  "SleepClock_Advance ks t d = advance_waiters ks (t\<lparr>sc_currentTime := time_Add (sc_currentTime t) d\<rparr>)"

text \<open>\<^verbatim>\<open>Sleep\<close> waits on a new channel: it returns when the channel has a value.\<close>

definition SleepClock_Sleep :: "SleepClock \<Rightarrow> duration \<Rightarrow> SleepClock \<times> addr" where
  "SleepClock_Sleep t d = SleepClock_After t d"

definition sleep_returns :: "SleepClock \<Rightarrow> addr \<Rightarrow> bool" where
  "sleep_returns t c \<longleftrightarrow> sc_chan t c \<noteq> []"

text \<open>The interface \<^verbatim>\<open>Clock\<close>, and its helper with a type assertion.\<close>

datatype Clock = SystemClock | OfFrozenClock FrozenClock | OfSleepClock SleepClock

definition AdvanceSleepClock :: "(time \<times> addr list) list \<Rightarrow> Clock \<Rightarrow> duration \<Rightarrow> Clock go option" where
  "AdvanceSleepClock ks clk d =
     (case clk of
        OfSleepClock t \<Rightarrow> map_option (\<lambda>t'. Ret (OfSleepClock t')) (SleepClock_Advance ks t d)
      | _ \<Rightarrow> Some (Panic (UserPanic ''interface conversion'')))"

section \<open>Invariant\<close>

text \<open>Every channel that waits, with its deadline.\<close>

definition pending :: "SleepClock \<Rightarrow> (time \<times> addr) list" where
  "pending t = concat (map (\<lambda>(k, cs). map (Pair k) cs) (sc_waiters t))"

definition sc_inv :: "SleepClock \<Rightarrow> bool" where
  "sc_inv t \<longleftrightarrow> gomap_wf (sc_waiters t) \<and> distinct (map snd (pending t)) \<and>
     (\<forall>c \<in> set (map snd (pending t)). c < sc_next t \<and> sc_chan t c = [])"

inductive sc_reach :: "SleepClock \<Rightarrow> bool" where
  New: "sc_reach (NewSleepClock now)"
| After: "sc_reach t \<Longrightarrow> sc_reach (fst (SleepClock_After t d))"
| Advance: "sc_reach t \<Longrightarrow> mset ks = mset (sc_waiters t) \<Longrightarrow> SleepClock_Advance ks t d = Some t' \<Longrightarrow> sc_reach t'"
| Receive: "sc_reach t \<Longrightarrow> sc_chan t c = v # vs \<Longrightarrow> sc_reach (t\<lparr>sc_chan := (sc_chan t)(c := vs)\<rparr>)"

lemma set_pending: "gomap_wf (sc_waiters t) \<Longrightarrow> (k, c) \<in> set (pending t) \<longleftrightarrow> (\<exists>cs. map_of (sc_waiters t) k = Some cs \<and> c \<in> set cs)"
  by (force simp: pending_def gomap_wf_def)

lemma send_all_spec:
  "distinct cs \<Longrightarrow> (\<forall>c \<in> set cs. ch c = []) \<Longrightarrow> send_all v cs ch = Some (override_on ch (\<lambda>_. [v]) (set cs))"
proof (induction cs arbitrary: ch)
  case (Cons c cs)
  then have "\<forall>c' \<in> set cs. (ch(c := [v])) c' = []" by auto
  then have "send_all v cs (ch(c := [v])) = Some (override_on (ch(c := [v])) (\<lambda>_. [v]) (set cs))"
    using Cons.prems by (intro Cons.IH) simp_all
  then show ?case using Cons.prems by (auto simp: chan_send_def override_on_def fun_eq_iff)
qed simp

text \<open>The channel waits for a time before now.\<close>

definition due_in :: "(time \<times> addr list) list \<Rightarrow> time \<Rightarrow> addr \<Rightarrow> bool" where
  "due_in ks now c \<longleftrightarrow> list_ex (\<lambda>(k, cs). k < now \<and> c \<in> set cs) ks"

lemma due_in_simps [simp]:
  "due_in [] now c = False" "due_in ((k, cs) # ks) now c = (k < now \<and> c \<in> set cs \<or> due_in ks now c)"
  by (simp_all add: due_in_def)

lemma due_in_mem: "due_in ks now c \<Longrightarrow> c \<in> set (concat (map snd ks))"
  by (induction ks) auto

lemma delete_all: "foldl (\<lambda>m k. AList.delete k m) m ks = filter (\<lambda>(k, v). k \<notin> set ks) m"
proof (induction ks arbitrary: m)
  case (Cons a ks)
  have "foldl (\<lambda>m k. AList.delete k m) m (a # ks) = filter (\<lambda>(k, v). k \<notin> set ks) (AList.delete a m)" using Cons.IH by simp
  also have "\<dots> = filter (\<lambda>(k, v). k \<notin> set (a # ks)) m"
    by (auto simp: AList.delete_eq intro!: filter_cong)
  finally show ?case .
qed simp

text \<open>The whole loop at once, for any order of the waiters.\<close>

lemma advance_waiters_spec:
  assumes "distinct (concat (map snd ks))" and "\<forall>c \<in> set (concat (map snd ks)). sc_chan t c = []"
  shows "advance_waiters ks t = Some (t\<lparr>
    sc_chan := override_on (sc_chan t) (\<lambda>_. [sc_currentTime t]) {c. due_in ks (sc_currentTime t) c},
    sc_waiters := foldl (\<lambda>m k. AList.delete k m) (sc_waiters t) (map fst (filter (\<lambda>(k, cs). k < sc_currentTime t) ks))\<rparr>)"
  using assms
proof (induction ks arbitrary: t)
  case (Cons p ks)
  obtain k cs where p: "p = (k, cs)" by (cases p)
  show ?case
  proof (cases "k < sc_currentTime t")
    case True
    define ch where "ch = override_on (sc_chan t) (\<lambda>_. [sc_currentTime t]) (set cs)"
    have "send_all (sc_currentTime t) cs (sc_chan t) = Some ch"
      unfolding ch_def using Cons.prems by (intro send_all_spec) (auto simp: p)
    then have "advance_waiters (p # ks) t = advance_waiters ks (t\<lparr>sc_chan := ch, sc_waiters := AList.delete k (sc_waiters t)\<rparr>)"
      using True by (simp add: p time_Before_def)
    moreover have "\<forall>c \<in> set (concat (map snd ks)). ch c = []" using Cons.prems by (auto simp: p ch_def override_on_def)
    moreover have "distinct (concat (map snd ks))" using Cons.prems by (simp add: p)
    moreover have "override_on ch (\<lambda>_. [sc_currentTime t]) {c. due_in ks (sc_currentTime t) c} =
        override_on (sc_chan t) (\<lambda>_. [sc_currentTime t]) {c. c \<in> set cs \<or> due_in ks (sc_currentTime t) c}"
      by (auto simp: ch_def override_on_def)
    ultimately show ?thesis
      using True Cons.IH [of "t\<lparr>sc_chan := ch, sc_waiters := AList.delete k (sc_waiters t)\<rparr>"] by (simp add: p)
  next
    case False
    then have "advance_waiters (p # ks) t = advance_waiters ks t" by (simp add: p time_Before_def)
    then show ?thesis using False Cons.IH [of t] Cons.prems by (simp add: p)
  qed
qed (simp add: due_in_def [abs_def])

lemma map_snd_pending: "map snd (pending t) = concat (map snd (sc_waiters t))"
  by (simp add: pending_def map_concat comp_def case_prod_unfold)

lemma advance_order:
  assumes inv: "sc_inv t" and ks: "mset ks = mset (sc_waiters t)"
  shows "SleepClock_Advance ks t d = Some (t\<lparr>sc_currentTime := sc_currentTime t + d,
    sc_chan := override_on (sc_chan t) (\<lambda>_. [sc_currentTime t + d]) {c. \<exists>k. k < sc_currentTime t + d \<and> (k, c) \<in> set (pending t)},
    sc_waiters := filter (\<lambda>(k, v). \<not> k < sc_currentTime t + d) (sc_waiters t)\<rparr>)"
proof -
  have set: "set ks = set (sc_waiters t)" using ks by (rule mset_eq_setD)
  have "mset (concat (map snd ks)) = mset (concat (map snd (sc_waiters t)))"
    using ks by (metis mset_concat mset_map sum_mset_sum_list)
  then have "distinct (concat (map snd ks))" "set (concat (map snd ks)) = set (map snd (pending t))"
    using inv unfolding sc_inv_def map_snd_pending by (metis mset_eq_imp_distinct_iff, metis mset_eq_setD)
  moreover have "due_in ks now c \<longleftrightarrow> (\<exists>k. k < now \<and> (k, c) \<in> set (pending t))" for now c
    by (force simp: due_in_def list_ex_iff set pending_def)
  moreover have "foldl (\<lambda>m k. AList.delete k m) (sc_waiters t) (map fst (filter (\<lambda>(k, cs). k < now) ks)) =
      filter (\<lambda>(k, v). \<not> k < now) (sc_waiters t)" for now
    unfolding delete_all by (force simp: set intro!: filter_cong)
  ultimately show ?thesis
    using advance_waiters_spec [of ks "t\<lparr>sc_currentTime := sc_currentTime t + d\<rparr>"] inv
    by (simp add: SleepClock_Advance_def time_Add_def sc_inv_def)
qed

lemma pending_filter:
  "pending (t\<lparr>sc_waiters := filter (\<lambda>(k, v). P k) (sc_waiters t)\<rparr>) = filter (\<lambda>(k, c). P k) (pending t)"
proof -
  have "concat (map (\<lambda>(k, cs). map (Pair k) cs) (filter (\<lambda>(k, v). P k) ws)) =
      filter (\<lambda>(k, c). P k) (concat (map (\<lambda>(k, cs). map (Pair k) cs) ws))" for ws :: "(time \<times> addr list) list"
    by (induction ws) (auto simp: filter_map comp_def)
  then show ?thesis by (simp add: pending_def)
qed

lemma pending_fields [simp]:
  "pending (t\<lparr>sc_currentTime := x\<rparr>) = pending t" "pending (t\<lparr>sc_chan := y\<rparr>) = pending t"
  by (simp_all add: pending_def)

lemma mset_pending_After:
  assumes "gomap_wf (sc_waiters t)" and "SleepClock_After t d = (t', c)"
  shows "mset (pending t') = add_mset (sc_currentTime t + d, c) (mset (pending t))"
proof -
  let ?u = "sc_currentTime t + d"
  have "mset (concat (map (\<lambda>(k, cs). map (Pair k) cs) (AList.update ?u ((case map_of ws ?u of None \<Rightarrow> [] | Some cs \<Rightarrow> cs) @ [c]) ws))) =
      add_mset (?u, c) (mset (concat (map (\<lambda>(k, cs). map (Pair k) cs) ws)))" if "gomap_wf ws" for ws
    using that
  proof (induction ws)
    case (Cons w ws)
    then show ?case by (cases w) (auto simp: gomap_wf_def)
  qed simp
  from this [OF assms(1)] show ?thesis using assms(2)
    by (auto simp: SleepClock_After_def Let_def pending_def time_Add_def)
qed

lemma sc_inv_After:
  assumes inv: "sc_inv t" and "SleepClock_After t d = (t', c)"
  shows "sc_inv t'"
proof -
  have ms: "mset (pending t') = add_mset (sc_currentTime t + d, c) (mset (pending t))"
    using mset_pending_After [OF _ assms(2)] inv by (simp add: sc_inv_def)
  then have "mset (map snd (pending t')) = mset (map snd ((sc_currentTime t + d, c) # pending t))" by simp
  then have *: "distinct (map snd (pending t')) \<longleftrightarrow> distinct (c # map snd (pending t))"
    "set (map snd (pending t')) = insert c (set (map snd (pending t)))"
    by (metis list.simps(9) mset_eq_imp_distinct_iff snd_conv, metis list.simps(9,15) mset_eq_setD snd_conv)
  have t': "c = sc_next t" "sc_next t' = Suc c" "sc_chan t' = (sc_chan t)(c := [])" "gomap_wf (sc_waiters t')"
    using assms by (auto simp: SleepClock_After_def Let_def sc_inv_def)
  show ?thesis using inv t' unfolding sc_inv_def * by (auto dest: less_imp_neq)
qed

lemma sc_inv_Advance:
  assumes inv: "sc_inv t" and ks: "mset ks = mset (sc_waiters t)" and adv: "SleepClock_Advance ks t d = Some t'"
  shows "sc_inv t'"
proof -
  let ?now = "sc_currentTime t + d"
  have t': "t' = t\<lparr>sc_currentTime := ?now,
      sc_chan := override_on (sc_chan t) (\<lambda>_. [?now]) {c. \<exists>k. k < ?now \<and> (k, c) \<in> set (pending t)},
      sc_waiters := filter (\<lambda>(k, v). \<not> k < ?now) (sc_waiters t)\<rparr>"
    using advance_order [OF inv ks, of d] adv by simp
  have pend: "pending t' = filter (\<lambda>(k, c). \<not> k < ?now) (pending t)"
    using pending_filter [of "\<lambda>k. \<not> k < ?now" t] by (simp add: t' pending_def)
  have inj: "k = k'" if "(k, c) \<in> set (pending t)" "(k', c) \<in> set (pending t)" for k k' c
    using inv that unfolding sc_inv_def distinct_map inj_on_def by (metis prod.inject snd_conv)
  have "gomap_wf (sc_waiters t')" using inv by (auto simp: t' sc_inv_def gomap_wf_def intro: distinct_map_filter)
  moreover have "distinct (map snd (pending t'))" using inv by (auto simp: pend sc_inv_def intro: distinct_map_filter)
  moreover have "c < sc_next t' \<and> sc_chan t' c = []" if "c \<in> set (map snd (pending t'))" for c
  proof -
    from that obtain k where k: "(k, c) \<in> set (pending t)" "\<not> k < ?now" by (auto simp: pend)
    then have "\<not> (\<exists>k'. k' < ?now \<and> (k', c) \<in> set (pending t))" using inj by blast
    then show ?thesis using inv k by (force simp: t' sc_inv_def override_on_def)
  qed
  ultimately show ?thesis by (simp add: sc_inv_def)
qed

lemma sc_reach_inv: "sc_reach t \<Longrightarrow> sc_inv t"
proof (induction rule: sc_reach.induct)
  case (New now)
  then show ?case by (simp add: NewSleepClock_def sc_inv_def pending_def)
next
  case (After t d)
  then show ?case using sc_inv_After [OF After.IH] by (cases "SleepClock_After t d") auto
next
  case (Advance t ks d t')
  then show ?case by (blast intro: sc_inv_Advance)
next
  case (Receive t c v vs)
  then have "c \<notin> set (map snd (pending t))" by (auto simp: sc_inv_def)
  then show ?case using Receive by (auto simp: sc_inv_def)
qed

text \<open>
  \<^verbatim>\<open>Advance\<close> of the sleep clock never blocks, whatever the order of its map. Everybody who waits for a
  time before the new one receives the new time, once, and waits no longer; everybody else, those who
  wait for exactly the new time too, has received nothing and still waits; other channels are left alone.
\<close>

theorem SleepClock_Advance_exact:
  assumes "sc_reach t" and "mset ks = mset (sc_waiters t)"
  shows "\<exists>t'. SleepClock_Advance ks t d = Some t' \<and> SleepClock_Now t' = SleepClock_Now t + d \<and>
    pending t' = filter (\<lambda>(k, c). \<not> k < SleepClock_Now t') (pending t) \<and>
    (\<forall>k c. (k, c) \<in> set (pending t) \<longrightarrow> sc_chan t' c = (if k < SleepClock_Now t' then [SleepClock_Now t'] else [])) \<and>
    (\<forall>c. c \<notin> set (map snd (pending t)) \<longrightarrow> sc_chan t' c = sc_chan t c)"
proof -
  let ?now = "sc_currentTime t + d"
  have inv: "sc_inv t" by (rule sc_reach_inv [OF assms(1)])
  let ?t' = "t\<lparr>sc_currentTime := ?now,
      sc_chan := override_on (sc_chan t) (\<lambda>_. [?now]) {c. \<exists>k. k < ?now \<and> (k, c) \<in> set (pending t)},
      sc_waiters := filter (\<lambda>(k, v). \<not> k < ?now) (sc_waiters t)\<rparr>"
  have adv: "SleepClock_Advance ks t d = Some ?t'" by (rule advance_order [OF inv assms(2)])
  have pend: "pending ?t' = filter (\<lambda>(k, c). \<not> k < ?now) (pending t)"
    using pending_filter [of "\<lambda>k. \<not> k < ?now" t] by (simp add: pending_def)
  have inj: "k = k'" if "(k, c) \<in> set (pending t)" "(k', c) \<in> set (pending t)" for k k' c
    using inv that unfolding sc_inv_def distinct_map inj_on_def by (metis prod.inject snd_conv)
  have "sc_chan ?t' c = (if k < ?now then [?now] else [])" if kc: "(k, c) \<in> set (pending t)" for k c
  proof -
    have "sc_chan t c = []" using kc inv by (force simp: sc_inv_def)
    moreover have "(\<exists>k'. k' < ?now \<and> (k', c) \<in> set (pending t)) \<longleftrightarrow> k < ?now" using kc inj by blast
    ultimately show ?thesis by (simp add: override_on_def)
  qed
  moreover have "sc_chan ?t' c = sc_chan t c" if "c \<notin> set (map snd (pending t))" for c
    using that by (force simp: override_on_def)
  ultimately show ?thesis using adv pend by (intro exI [of _ ?t']) (simp add: SleepClock_Now_def)
qed

theorem SleepClock_Advance_exact_witness:
  "\<exists>t t'. SleepClock_After (NewSleepClock 100) 5 = (t, 0) \<and> SleepClock_Advance (sc_waiters t) t 5 = Some t' \<and>
     sc_chan t' 0 = [] \<and> pending t' = [(105, 0)]"
proof -
  obtain t where t: "SleepClock_After (NewSleepClock 100) 5 = (t, 0)" by (simp add: SleepClock_After_def NewSleepClock_def)
  then have "sc_reach t" using sc_reach.After [OF sc_reach.New [of 100], of 5] by simp
  from SleepClock_Advance_exact [OF this refl, of 5] obtain t' where t':
    "SleepClock_Advance (sc_waiters t) t 5 = Some t'" "SleepClock_Now t' = SleepClock_Now t + 5"
    "pending t' = filter (\<lambda>(k, c). \<not> k < SleepClock_Now t') (pending t)"
    "\<forall>k c. (k, c) \<in> set (pending t) \<longrightarrow> sc_chan t' c = (if k < SleepClock_Now t' then [SleepClock_Now t'] else [])" by blast
  moreover have "pending t = [(105, 0)]" "SleepClock_Now t = 100"
    using t by (auto simp: SleepClock_After_def NewSleepClock_def pending_def time_Add_def SleepClock_Now_def)
  ultimately show ?thesis using t by auto
qed

end
