(* ===== verification/Errors.thy ===== *)
theory Errors
  imports Go_Strings
begin

text \<open>
  \<^verbatim>\<open>errors/errors.go\<close>, \<^verbatim>\<open>errors/with_context.go\<close>, \<^verbatim>\<open>errors/context_map.go\<close> and the stack traces of
  \<^verbatim>\<open>stack/stack.go\<close> (the copies under \<^verbatim>\<open>v3\<close> have the same code): errors that wrap errors. Every
  concrete error type is a constructor; a type assertion to an interface is a case distinction,
  \<open>None\<close> when the type lacks the method. A nil error is \<open>None\<close> of type \<open>goerror option\<close>. The
  formatter of \<^verbatim>\<open>fmt\<close>, the printing of a frame and of a value, and what the runtime knows of a
  program counter are parameters.
\<close>

section \<open>Data\<close>

text \<open>A stack: program counters, the innermost first.\<close>

type_synonym stack = "nat list"

type_synonym context_map = "(string, iface) gomap"

text \<open>
  \<open>Foreign\<close> is an error of another package: its type, its message, and what its methods
  \<^verbatim>\<open>StackTrace\<close>, \<^verbatim>\<open>Context\<close> and \<^verbatim>\<open>Cause\<close> return, if it has them.
\<close>

datatype goerror =
    Fundamental string stack
  | WithStack goerror stack
  | WithMessage goerror string
  | WithContext context_map string goerror stack
  | CauseError "goerror option" stack
  | Foreign string string "stack option" "context_map option" "goerror option"

section \<open>Construction\<close>

definition errors_New :: "stack \<Rightarrow> string \<Rightarrow> goerror" where
  "errors_New stk message = Fundamental message stk"

definition Errorf :: "(string \<Rightarrow> iface list \<Rightarrow> string) \<Rightarrow> stack \<Rightarrow> string \<Rightarrow> iface list \<Rightarrow> goerror" where
  "Errorf Sprintf stk fmt args = Fundamental (Sprintf fmt args) stk"

definition errors_WithStack :: "stack \<Rightarrow> goerror option \<Rightarrow> goerror option" where
  "errors_WithStack stk err = (case err of None \<Rightarrow> None | Some e \<Rightarrow> Some (WithStack e stk))"

definition Wrap :: "stack \<Rightarrow> goerror option \<Rightarrow> string \<Rightarrow> goerror option" where
  "Wrap stk err message = (case err of None \<Rightarrow> None | Some e \<Rightarrow> Some (WithStack (WithMessage e message) stk))"

definition Wrapf :: "(string \<Rightarrow> iface list \<Rightarrow> string) \<Rightarrow> stack \<Rightarrow> goerror option \<Rightarrow> string \<Rightarrow> iface list \<Rightarrow> goerror option" where
  "Wrapf Sprintf stk err fmt args =
     (case err of None \<Rightarrow> None | Some e \<Rightarrow> Some (WithStack (WithMessage e (Sprintf fmt args)) stk))"

definition errors_WithMessage :: "goerror option \<Rightarrow> string \<Rightarrow> goerror option" where
  "errors_WithMessage err message = (case err of None \<Rightarrow> None | Some e \<Rightarrow> Some (WithMessage e message))"

definition WithContext_Wrap :: "stack \<Rightarrow> context_map \<Rightarrow> goerror option \<Rightarrow> string \<Rightarrow> goerror option" where
  "WithContext_Wrap stk c err msg = (case err of None \<Rightarrow> None | Some e \<Rightarrow> Some (WithContext c msg e stk))"

definition WithContext_Wrapf ::
  "(string \<Rightarrow> iface list \<Rightarrow> string) \<Rightarrow> stack \<Rightarrow> context_map \<Rightarrow> goerror option \<Rightarrow> string \<Rightarrow> iface list \<Rightarrow> goerror option" where
  "WithContext_Wrapf Sprintf stk c err fmt args =
     (case err of None \<Rightarrow> None | Some e \<Rightarrow> Some (WithContext c (Sprintf fmt args) e stk))"

text \<open>The message is used as a format.\<close>

definition WithContext_Error :: "(string \<Rightarrow> iface list \<Rightarrow> string) \<Rightarrow> stack \<Rightarrow> context_map \<Rightarrow> string \<Rightarrow> goerror" where
  "WithContext_Error Sprintf stk c msg =
     WithContext c [] (Foreign ''*errors.errorString'' (Sprintf msg []) None None None) stk"

definition WithContext_Errorf :: "(string \<Rightarrow> iface list \<Rightarrow> string) \<Rightarrow> stack \<Rightarrow> context_map \<Rightarrow> string \<Rightarrow> iface list \<Rightarrow> goerror" where
  "WithContext_Errorf Sprintf stk c fmt args =
     WithContext c [] (Foreign ''*errors.errorString'' (Sprintf fmt args) None None None) stk"

text \<open>\<open>callers\<close> gives the stack for a number of frames to skip.\<close>

definition NewCauseError :: "(nat \<Rightarrow> stack) \<Rightarrow> goerror option \<Rightarrow> nat list \<Rightarrow> goerror" where
  "NewCauseError callers err depth = CauseError err (if depth \<noteq> [] then callers (1 + hd depth) else callers 1)"

section \<open>Methods\<close>

text \<open>\<^verbatim>\<open>Error()\<close>; it panics for a \<^verbatim>\<open>CauseError\<close> of a nil error.\<close>

primrec error_Error :: "goerror \<Rightarrow> string go" where
  "error_Error (Fundamental msg stk) = Ret msg"
| "error_Error (WithStack e stk) = error_Error e"
| "error_Error (WithMessage e msg) = go_bind (error_Error e) (\<lambda>s. Ret (msg @ '': '' @ s))"
| "error_Error (WithContext c msg e stk) =
     (if length msg = 0 then error_Error e else go_bind (error_Error e) (\<lambda>s. Ret (msg @ '': '' @ s)))"
| "error_Error (CauseError err stk) =
     (case map_option error_Error err of None \<Rightarrow> Panic NilDereference | Some r \<Rightarrow> r)"
| "error_Error (Foreign tn msg stk ctx cause) = Ret msg"

text \<open>The method \<^verbatim>\<open>Cause\<close> of the types that have it.\<close>

primrec causer :: "goerror \<Rightarrow> goerror option" where
  "causer (Fundamental msg stk) = None"
| "causer (WithStack e stk) = Some e"
| "causer (WithMessage e msg) = Some e"
| "causer (WithContext c msg e stk) = Some e"
| "causer (CauseError err stk) = None"
| "causer (Foreign tn msg stk ctx cause) = cause"

lemma causer_size: "causer e = Some e' \<Longrightarrow> size e' < size e"
  by (cases e) auto

function Cause_loop :: "goerror \<Rightarrow> goerror" where
  "Cause_loop e = (case causer e of None \<Rightarrow> e | Some e' \<Rightarrow> Cause_loop e')"
  by pat_completeness auto
termination
  by (relation "measure size") (auto simp: causer_size)

declare Cause_loop.simps [simp del]

definition Cause :: "goerror option \<Rightarrow> goerror option" where
  "Cause err = map_option Cause_loop err"

text \<open>
  \<^verbatim>\<open>Context()\<close>: \<open>None\<close> when the type does not implement \<^verbatim>\<open>HasContext\<close>, \<open>Some None\<close> for the nil map.
  The inner error's values replace the outer one's.
\<close>

primrec HasContext :: "goerror \<Rightarrow> context_map option option" where
  "HasContext (Fundamental msg stk) = None"
| "HasContext (WithStack e stk) = Some (case HasContext e of Some c \<Rightarrow> c | None \<Rightarrow> None)"
| "HasContext (WithMessage e msg) = None"
| "HasContext (WithContext c msg e stk) =
     Some (Some (case HasContext e of
                   Some (Some downstream) \<Rightarrow> foldl (\<lambda>r (k, v). AList.update k v r) c downstream
                 | _ \<Rightarrow> c))"
| "HasContext (CauseError err stk) =
     Some (case map_option HasContext err of Some (Some c) \<Rightarrow> c | _ \<Rightarrow> None)"
| "HasContext (Foreign tn msg stk ctx cause) = map_option Some ctx"

text \<open>\<^verbatim>\<open>StackTrace()\<close>, promoted from the embedded stack in \<^verbatim>\<open>fundamental\<close> and \<^verbatim>\<open>withStack\<close>.\<close>

primrec HasStackTrace :: "goerror \<Rightarrow> stack option" where
  "HasStackTrace (Fundamental msg stk) = Some stk"
| "HasStackTrace (WithStack e stk) = Some stk"
| "HasStackTrace (WithMessage e msg) = None"
| "HasStackTrace (WithContext c msg e stk) =
     Some (case HasStackTrace e of Some trace \<Rightarrow> trace | None \<Rightarrow> stk)"
| "HasStackTrace (CauseError err stk) =
     Some (case map_option HasStackTrace err of Some (Some trace) \<Rightarrow> trace | _ \<Rightarrow> stk)"
| "HasStackTrace (Foreign tn msg stk ctx cause) = stk"

definition ToMap :: "goerror option \<Rightarrow> context_map option" where
  "ToMap err = (case err of None \<Rightarrow> None | Some e \<Rightarrow> (case HasContext e of None \<Rightarrow> None | Some c \<Rightarrow> c))"

section \<open>Formatting\<close>

datatype verb = V | PlusV | S | Q

text \<open>What \<^verbatim>\<open>fmt\<close> and \<^verbatim>\<open>pkg/errors\<close> print: a frame in detail, a quoted string, a value.\<close>

record printers =
  pr_frame :: "nat \<Rightarrow> string"
  pr_quote :: "string \<Rightarrow> string"
  pr_value :: "iface \<Rightarrow> string"

definition Stack_Format :: "printers \<Rightarrow> stack \<Rightarrow> string" where
  "Stack_Format pr stk = concat (map (\<lambda>pc. [CHR 10] @ pr_frame pr pc) stk)"

fun FormatFields_loop :: "printers \<Rightarrow> nat \<Rightarrow> context_map \<Rightarrow> string" where
  "FormatFields_loop pr cnt [] = []"
| "FormatFields_loop pr cnt ((key, value) # rest) =
     (if 0 < cnt then '', '' else []) @ key @ ''='' @ pr_value pr value @ FormatFields_loop pr (Suc cnt) rest"

definition FormatFields :: "printers \<Rightarrow> context_map \<Rightarrow> string" where
  "FormatFields pr c = FormatFields_loop pr 0 c"

definition go_append :: "string \<Rightarrow> string go \<Rightarrow> string \<Rightarrow> string go" where
  "go_append a r b = go_bind r (\<lambda>s. Ret (a @ s @ b))"

text \<open>The \<^verbatim>\<open>Format\<close> methods; errors without one are printed through \<^verbatim>\<open>Error()\<close>.\<close>

primrec error_Format :: "printers \<Rightarrow> goerror \<Rightarrow> verb \<Rightarrow> string go" where
  "error_Format pr (Fundamental msg stk) =
     (\<lambda>verb. case verb of PlusV \<Rightarrow> Ret (msg @ Stack_Format pr stk) | Q \<Rightarrow> Ret (pr_quote pr msg) | _ \<Rightarrow> Ret msg)"
| "error_Format pr (WithStack e stk) =
     (\<lambda>verb. case verb of
        PlusV \<Rightarrow> go_append [] (error_Format pr e PlusV) (Stack_Format pr stk)
      | Q \<Rightarrow> go_bind (error_Error e) (\<lambda>s. Ret (pr_quote pr s))
      | _ \<Rightarrow> error_Error e)"
| "error_Format pr (WithMessage e msg) =
     (\<lambda>verb. case verb of
        PlusV \<Rightarrow> go_append [] (error_Format pr e PlusV) ([CHR 10] @ msg)
      | _ \<Rightarrow> error_Error (WithMessage e msg))"
| "error_Format pr (WithContext c msg e stk) =
     (\<lambda>verb. if verb = V \<or> verb = PlusV
       then go_append (msg @ '': '') (error_Format pr e PlusV) ('' ('' @ FormatFields pr c @ '')'')
       else error_Error (WithContext c msg e stk))"
| "error_Format pr (CauseError err stk) =
     (\<lambda>verb. if verb = Q then go_bind (error_Error (CauseError err stk)) (\<lambda>s. Ret (pr_quote pr s))
             else error_Error (CauseError err stk))"
| "error_Format pr (Foreign tn msg stk ctx cause) = (\<lambda>verb. Ret (if verb = Q then pr_quote pr msg else msg))"

section \<open>Stack traces and log fields\<close>

record FrameInfo =
  fi_CallStack :: string
  fi_Func :: string
  fi_File :: string
  fi_LineNo :: int

text \<open>What the runtime knows of a program counter: the function's path, the file and the line.\<close>

type_synonym func_info = "nat \<Rightarrow> (string \<times> string \<times> int) option"

definition strings_Join :: "string list \<Rightarrow> string" where
  "strings_Join xs = (case xs of [] \<Rightarrow> [] | y # ys \<Rightarrow> y @ concat (map (\<lambda>s. '' '' @ s) ys))"

definition GetCallStack :: "(nat \<Rightarrow> string) \<Rightarrow> stack \<Rightarrow> string" where
  "GetCallStack show_frame frames = strings_Join (map show_frame (rev frames))"

text \<open>The part after the last slash.\<close>

definition FuncName :: "string \<Rightarrow> string" where
  "FuncName funcPath = (if CHR ''/'' \<in> set funcPath then rev (takeWhile (\<lambda>c. c \<noteq> CHR ''/'') (rev funcPath)) else funcPath)"

definition GetLastFrame :: "(nat \<Rightarrow> string) \<Rightarrow> func_info \<Rightarrow> stack \<Rightarrow> FrameInfo" where
  "GetLastFrame show_frame funcs frames =
     (case frames of
        [] \<Rightarrow> \<lparr>fi_CallStack = [], fi_Func = [], fi_File = [], fi_LineNo = 0\<rparr>
      | f # _ \<Rightarrow>
          let pc = f - 1
          in case funcs pc of
               None \<Rightarrow> \<lparr>fi_CallStack = [], fi_Func = ''unknown func at '' @ nat_digits pc, fi_File = [], fi_LineNo = 0\<rparr>
             | Some (name, filePath, lineNo) \<Rightarrow>
                 \<lparr>fi_CallStack = GetCallStack show_frame frames, fi_Func = FuncName name, fi_File = filePath, fi_LineNo = lineNo\<rparr>)"

primrec type_of_error :: "goerror \<Rightarrow> string" where
  "type_of_error (Fundamental msg stk) = ''*errors.fundamental''"
| "type_of_error (WithStack e stk) = ''*errors.withStack''"
| "type_of_error (WithMessage e msg) = ''*errors.withMessage''"
| "type_of_error (WithContext c msg e stk) = ''*errors.withContext''"
| "type_of_error (CauseError err stk) = ''*errors.CauseError''"
| "type_of_error (Foreign tn msg stk ctx cause) = tn"

definition ToLogrus :: "printers \<Rightarrow> (nat \<Rightarrow> string) \<Rightarrow> func_info \<Rightarrow> goerror option \<Rightarrow> context_map go" where
  "ToLogrus pr show_frame funcs err =
     (case err of
        None \<Rightarrow> Panic NilDereference
      | Some e \<Rightarrow>
          go_bind (error_Error e) (\<lambda>excValue.
          go_bind (error_Format pr e PlusV) (\<lambda>excText.
          let result = [(''excValue'', IStr excValue), (''excType'', IStr (type_of_error (Cause_loop e))), (''excText'', IStr excText)];
              result = (case HasStackTrace e of
                  None \<Rightarrow> result
                | Some trace \<Rightarrow>
                    let caller = GetLastFrame show_frame funcs trace
                    in AList.update ''excFileName'' (IStr (fi_File caller))
                         (AList.update ''excLineno'' (IInt (fi_LineNo caller))
                            (AList.update ''excFuncName'' (IStr (fi_Func caller)) result)))
          in case HasContext e of
               None \<Rightarrow> Ret result
             | Some c \<Rightarrow> Ret (foldl (\<lambda>r (k, v). AList.update k v r) result (case c of None \<Rightarrow> [] | Some m \<Rightarrow> m)))))"

section \<open>The cause\<close>

lemma Cause_loop_step: "causer e = Some e' \<Longrightarrow> Cause_loop e = Cause_loop e'"
  by (subst Cause_loop.simps) simp

lemma Cause_loop_end: "causer e = None \<Longrightarrow> Cause_loop e = e"
  by (subst Cause_loop.simps) simp

lemma causer_Cause_loop: "causer (Cause_loop e) = None"
proof (induction e rule: Cause_loop.induct)
  case (1 e)
  then show ?case by (cases "causer e") (auto simp: Cause_loop_step Cause_loop_end)
qed

lemmas wrapper_defs = Wrap_def Wrapf_def errors_WithStack_def errors_WithMessage_def WithContext_Wrap_def WithContext_Wrapf_def

text \<open>
  \<^verbatim>\<open>Cause\<close> returns for every error, and returns one that wraps no other; wrapping an error in any
  of the package's ways, any number of times, does not change its cause, and wrapping nil gives
  nil; an error made with \<^verbatim>\<open>NewCauseError\<close> is its own cause whatever it wraps.
\<close>

theorem Cause_unwraps:
  "Cause (Wrap stk err m) = Cause err \<and> Cause (Wrapf sprintf stk err f args) = Cause err \<and>
   Cause (errors_WithStack stk err) = Cause err \<and> Cause (errors_WithMessage err m) = Cause err \<and>
   Cause (WithContext_Wrap stk c err m) = Cause err \<and> Cause (WithContext_Wrapf sprintf stk c err f args) = Cause err \<and>
   (case Cause err of None \<Rightarrow> err = None | Some e \<Rightarrow> causer e = None) \<and>
   Cause (Some (NewCauseError callers err depth)) = Some (NewCauseError callers err depth)"
  by (auto simp: Cause_def wrapper_defs NewCauseError_def causer_Cause_loop Cause_loop_step Cause_loop_end split: option.splits)

section \<open>The context\<close>

text \<open>Every context in an error is a Go map: its keys are distinct.\<close>

primrec contexts_wf :: "goerror \<Rightarrow> bool" where
  "contexts_wf (Fundamental msg stk) = True"
| "contexts_wf (WithStack e stk) = contexts_wf e"
| "contexts_wf (WithMessage e msg) = contexts_wf e"
| "contexts_wf (WithContext c msg e stk) = (gomap_wf c \<and> contexts_wf e)"
| "contexts_wf (CauseError err stk) = (case map_option contexts_wf err of None \<Rightarrow> True | Some b \<Rightarrow> b)"
| "contexts_wf (Foreign tn msg stk ctx cause) = (case ctx of None \<Rightarrow> True | Some c \<Rightarrow> gomap_wf c)"

lemma foldl_update_wf: "gomap_wf c \<Longrightarrow> gomap_wf (foldl (\<lambda>r (k, v). AList.update k v r) c d)"
  by (induction d arbitrary: c) (auto split: prod.splits)

lemma foldl_update_lookup:
  "gomap_wf d \<Longrightarrow> map_of (foldl (\<lambda>r (k, v). AList.update k v r) c d) k =
     (case map_of d k of Some v \<Rightarrow> Some v | None \<Rightarrow> map_of c k)"
proof (induction d arbitrary: c)
  case (Cons p d)
  obtain j v where p: "p = (j, v)" by (cases p)
  have "gomap_wf d" and "map_of d j = None" using Cons.prems by (auto simp: gomap_wf_def p map_of_eq_None_iff)
  then show ?case using Cons.IH [of "AList.update j v c"] by (auto simp: p update_conv' split: option.splits)
qed simp

lemma HasContext_wf: "contexts_wf e \<Longrightarrow> HasContext e = Some (Some c) \<Longrightarrow> gomap_wf c"
proof (induction e arbitrary: c)
  case (WithContext ctx msg e stk)
  then show ?case by (auto intro: foldl_update_wf split: option.splits)
next
  case (CauseError err stk)
  then show ?case by (cases err) (auto split: option.splits)
qed (auto split: option.splits)



text \<open>
  An error wrapped with the package's own \<^verbatim>\<open>Wrap\<close>, \<^verbatim>\<open>Wrapf\<close> or \<^verbatim>\<open>WithMessage\<close> loses the context
  of the error inside: \<^verbatim>\<open>ToMap\<close> returns nil, although the cause is still found.
\<close>

theorem Wrap_drops_context:
  "ToMap (Wrap stk err m) = None \<and> ToMap (Wrapf sprintf stk err f args) = None \<and> ToMap (errors_WithMessage err m) = None"
  by (auto simp: ToMap_def wrapper_defs split: option.splits)

section \<open>Messages\<close>

text \<open>
  The message of an error wrapped any number of times is the messages of the wrappers, the
  outermost first, each followed by a colon, and then the message of the error itself.
\<close>

theorem Wrap_message:
  assumes "error_Error e = Ret s"
  shows "\<exists>e'. foldl (\<lambda>err (stk, m). Wrap stk err m) (Some e) wraps = Some e' \<and>
    error_Error e' = Ret (concat (map (\<lambda>(stk, m). m @ '': '') (rev wraps)) @ s)"
proof (induction wraps rule: rev_induct)
  case (snoc w ws)
  obtain stk m where "w = (stk, m)" by (cases w)
  with snoc show ?case by (auto simp: Wrap_def)
qed (use assms in simp)

theorem Wrap_message_witness:
  "\<exists>e'. foldl (\<lambda>err (stk, m). Wrap stk err m) (Some (Fundamental ''eof'' [])) [([], ''read''), ([], ''load'')] = Some e' \<and>
     error_Error e' = Ret ''load: read: eof''"
  using Wrap_message [of "Fundamental ''eof'' []" "''eof''" "[([], ''read''), ([], ''load'')]"] by simp

end
