(* ===== verification/Wait_Group.thy ===== *)
theory Wait_Group
  imports Go_Sched
begin

text \<open>
  \<^verbatim>\<open>waitgroup.go\<close> (\<^verbatim>\<open>v3/syncutil/waitgroup.go\<close> has the same code): goroutines that are started with \<^verbatim>\<open>Run\<close>,
  \<^verbatim>\<open>Go\<close>, \<^verbatim>\<open>Until\<close> and \<^verbatim>\<open>Loop\<close>, and \<^verbatim>\<open>Stop\<close> and \<^verbatim>\<open>Wait\<close>. Every goroutine, the callers too, has a program counter
  between two actions of the source; \<open>wg_step\<close> is the next action of one goroutine. Adding to the
  counter and starting the goroutine are one action: the new goroutine has not acted in between.
  A callback is a function; one passed to \<^verbatim>\<open>Until\<close> or \<^verbatim>\<open>Loop\<close> also knows how often it has been called, one
  passed to \<^verbatim>\<open>Until\<close> whether the channel it got is closed, and it may block, which is \<open>None\<close>.
\<close>

section \<open>States\<close>

datatype ('d, 'e) run_pc =
    RunCall 'd | RunBody 'd | RunOk | RunLock 'e | RunAppend 'e | RunDone 'e | RunUnlock 'e | RunEnd "'e option"

datatype 'c go_pc = GoCall 'c | GoBody 'c | GoDone

datatype 'c until_pc = UntilLock 'c | UntilMake 'c | UntilUnlock 'c | UntilAdd 'c | UntilBody 'c nat | UntilDone

datatype stop_pc = StopLock | StopClose | StopWait | StopClear | StopUnlock

datatype 'c loop_pc = LoopCall 'c | LoopBody 'c nat | LoopDone

datatype wait_pc = WaitAll | WaitLock | WaitRead | WaitUnlock

datatype ('c, 'd, 'e) wg_pc =
    Idle
  | Run "('d, 'e) run_pc"
  | Go "'c go_pc"
  | Until "'c until_pc"
  | Stop stop_pc
  | Loop "'c loop_pc"
  | Wait wait_pc

text \<open>The calls a goroutine still has to make, and what its calls of \<^verbatim>\<open>Wait\<close> have returned.\<close>

record ('c, 'd, 'e) wg_thread =
  wt_pc :: "('c, 'd, 'e) wg_pc"
  wt_ops :: "('c, 'd, 'e) wg_pc list"
  wt_got :: "'e list list"

text \<open>\<open>wg_done\<close> is nil or a channel; \<open>wg_closed\<close> are the closed channels, \<open>wg_next\<close> the next new one.\<close>

record ('c, 'd, 'e) WaitGroup =
  wg_count :: int
  wg_mutex :: "nat option"
  wg_errs :: "'e list"
  wg_done :: "addr option"
  wg_closed :: "addr list"
  wg_next :: addr
  wg_threads :: "('c, 'd, 'e) wg_thread list"

record ('c, 'd, 'e) callbacks =
  run_cb :: "'d \<Rightarrow> 'e option"
  until_cb :: "'c \<Rightarrow> nat \<Rightarrow> bool \<Rightarrow> bool option"
  loop_cb :: "'c \<Rightarrow> nat \<Rightarrow> bool"

section \<open>Actions\<close>

definition goto :: "nat \<Rightarrow> ('c, 'd, 'e) wg_pc \<Rightarrow> ('c, 'd, 'e) WaitGroup \<Rightarrow> ('c, 'd, 'e) WaitGroup" where
  "goto i pc s = s\<lparr>wg_threads := (wg_threads s)[i := (wg_threads s ! i)\<lparr>wt_pc := pc\<rparr>]\<rparr>"

definition start :: "('c, 'd, 'e) wg_pc \<Rightarrow> ('c, 'd, 'e) WaitGroup \<Rightarrow> ('c, 'd, 'e) WaitGroup" where
  "start pc s = s\<lparr>wg_count := wg_count s + 1, wg_threads := wg_threads s @ [\<lparr>wt_pc = pc, wt_ops = [], wt_got = []\<rparr>]\<rparr>"

definition wg_Done :: "nat \<Rightarrow> ('c, 'd, 'e) wg_pc \<Rightarrow> ('c, 'd, 'e) WaitGroup \<Rightarrow> ('c, 'd, 'e) WaitGroup go option" where
  "wg_Done i pc s =
     Some (if wg_count s - 1 < 0 then Panic (UserPanic ''sync: negative WaitGroup counter'')
           else Ret (goto i pc (s\<lparr>wg_count := wg_count s - 1\<rparr>)))"

definition mutex_Lock :: "nat \<Rightarrow> ('c, 'd, 'e) wg_pc \<Rightarrow> ('c, 'd, 'e) WaitGroup \<Rightarrow> ('c, 'd, 'e) WaitGroup go option" where
  "mutex_Lock i pc s =
     (case wg_mutex s of None \<Rightarrow> Some (Ret (goto i pc (s\<lparr>wg_mutex := Some i\<rparr>))) | Some _ \<Rightarrow> None)"

definition mutex_Unlock :: "nat \<Rightarrow> ('c, 'd, 'e) wg_pc \<Rightarrow> ('c, 'd, 'e) WaitGroup \<Rightarrow> ('c, 'd, 'e) WaitGroup go option" where
  "mutex_Unlock i pc s =
     Some (case wg_mutex s of None \<Rightarrow> Panic (UserPanic ''sync: unlock of unlocked mutex'')
           | Some _ \<Rightarrow> Ret (goto i pc (s\<lparr>wg_mutex := None\<rparr>)))"

primrec WaitGroup_Run ::
  "('d \<Rightarrow> 'e option) \<Rightarrow> nat \<Rightarrow> ('d, 'e) run_pc \<Rightarrow> ('c, 'd, 'e) WaitGroup \<Rightarrow> ('c, 'd, 'e) WaitGroup go option" where
  "WaitGroup_Run callBack i (RunCall data) s = Some (Ret (start (Run (RunBody data)) (goto i Idle s)))"
| "WaitGroup_Run callBack i (RunBody data) s =
     Some (Ret (goto i (Run (case callBack data of None \<Rightarrow> RunOk | Some err \<Rightarrow> RunLock err)) s))"
| "WaitGroup_Run callBack i RunOk s = wg_Done i (Run (RunEnd None)) s"
| "WaitGroup_Run callBack i (RunLock err) s = mutex_Lock i (Run (RunAppend err)) s"
| "WaitGroup_Run callBack i (RunAppend err) s =
     Some (Ret (goto i (Run (RunDone err)) (s\<lparr>wg_errs := wg_errs s @ [err]\<rparr>)))"
| "WaitGroup_Run callBack i (RunDone err) s = wg_Done i (Run (RunUnlock err)) s"
| "WaitGroup_Run callBack i (RunUnlock err) s = mutex_Unlock i (Run (RunEnd (Some err))) s"
| "WaitGroup_Run callBack i (RunEnd r) s = None"

primrec WaitGroup_Go :: "nat \<Rightarrow> 'c go_pc \<Rightarrow> ('c, 'd, 'e) WaitGroup \<Rightarrow> ('c, 'd, 'e) WaitGroup go option" where
  "WaitGroup_Go i (GoCall cb) s = Some (Ret (start (Go (GoBody cb)) (goto i Idle s)))"
| "WaitGroup_Go i (GoBody cb) s = Some (Ret (goto i (Go GoDone) s))"
| "WaitGroup_Go i GoDone s = wg_Done i Idle s"

definition done_closed :: "('c, 'd, 'e) WaitGroup \<Rightarrow> bool" where
  "done_closed s \<longleftrightarrow> (case wg_done s of None \<Rightarrow> False | Some ch \<Rightarrow> ch \<in> set (wg_closed s))"

primrec WaitGroup_Until ::
  "('c \<Rightarrow> nat \<Rightarrow> bool \<Rightarrow> bool option) \<Rightarrow> nat \<Rightarrow> 'c until_pc \<Rightarrow> ('c, 'd, 'e) WaitGroup \<Rightarrow> ('c, 'd, 'e) WaitGroup go option" where
  "WaitGroup_Until callBack i (UntilLock c) s = mutex_Lock i (Until (UntilMake c)) s"
| "WaitGroup_Until callBack i (UntilMake c) s =
     Some (Ret (goto i (Until (UntilUnlock c))
       (case wg_done s of None \<Rightarrow> s\<lparr>wg_done := Some (wg_next s), wg_next := Suc (wg_next s)\<rparr> | Some _ \<Rightarrow> s)))"
| "WaitGroup_Until callBack i (UntilUnlock c) s = mutex_Unlock i (Until (UntilAdd c)) s"
| "WaitGroup_Until callBack i (UntilAdd c) s = Some (Ret (start (Until (UntilBody c 0)) (goto i Idle s)))"
| "WaitGroup_Until callBack i (UntilBody c n) s =
     (case callBack c n (done_closed s) of
        None \<Rightarrow> None
      | Some again \<Rightarrow> Some (Ret (goto i (Until (if again then UntilBody c (Suc n) else UntilDone)) s)))"
| "WaitGroup_Until callBack i UntilDone s = wg_Done i Idle s"

primrec WaitGroup_Stop :: "nat \<Rightarrow> stop_pc \<Rightarrow> ('c, 'd, 'e) WaitGroup \<Rightarrow> ('c, 'd, 'e) WaitGroup go option" where
  "WaitGroup_Stop i StopLock s = mutex_Lock i (Stop StopClose) s"
| "WaitGroup_Stop i StopClose s =
     Some (case wg_done s of
             None \<Rightarrow> Ret (goto i (Stop StopWait) s)
           | Some ch \<Rightarrow> if ch \<in> set (wg_closed s) then Panic CloseOfClosedChannel
                        else Ret (goto i (Stop StopWait) (s\<lparr>wg_closed := ch # wg_closed s\<rparr>)))"
| "WaitGroup_Stop i StopWait s = (if wg_count s = 0 then Some (Ret (goto i (Stop StopClear) s)) else None)"
| "WaitGroup_Stop i StopClear s = Some (Ret (goto i (Stop StopUnlock) (s\<lparr>wg_done := None\<rparr>)))"
| "WaitGroup_Stop i StopUnlock s = mutex_Unlock i Idle s"

primrec WaitGroup_Loop ::
  "('c \<Rightarrow> nat \<Rightarrow> bool) \<Rightarrow> nat \<Rightarrow> 'c loop_pc \<Rightarrow> ('c, 'd, 'e) WaitGroup \<Rightarrow> ('c, 'd, 'e) WaitGroup go option" where
  "WaitGroup_Loop callBack i (LoopCall c) s = Some (Ret (start (Loop (LoopBody c 0)) (goto i Idle s)))"
| "WaitGroup_Loop callBack i (LoopBody c n) s =
     Some (Ret (goto i (Loop (if callBack c n then LoopBody c (Suc n) else LoopDone)) s))"
| "WaitGroup_Loop callBack i LoopDone s = wg_Done i Idle s"

definition got :: "nat \<Rightarrow> 'e list \<Rightarrow> ('c, 'd, 'e) WaitGroup \<Rightarrow> ('c, 'd, 'e) WaitGroup" where
  "got i errs s = s\<lparr>wg_threads := (wg_threads s)[i := (wg_threads s ! i)\<lparr>wt_got := wt_got (wg_threads s ! i) @ [errs]\<rparr>]\<rparr>"

text \<open>Nil and an empty slice are the same list here.\<close>

primrec WaitGroup_Wait :: "nat \<Rightarrow> wait_pc \<Rightarrow> ('c, 'd, 'e) WaitGroup \<Rightarrow> ('c, 'd, 'e) WaitGroup go option" where
  "WaitGroup_Wait i WaitAll s = (if wg_count s = 0 then Some (Ret (goto i (Wait WaitLock) s)) else None)"
| "WaitGroup_Wait i WaitLock s = mutex_Lock i (Wait WaitRead) s"
| "WaitGroup_Wait i WaitRead s = Some (Ret (goto i (Wait WaitUnlock) (got i (wg_errs s) s)))"
| "WaitGroup_Wait i WaitUnlock s = mutex_Unlock i Idle s"

text \<open>A goroutine that is idle begins its next call.\<close>

definition begin_call :: "nat \<Rightarrow> ('c, 'd, 'e) WaitGroup \<Rightarrow> ('c, 'd, 'e) WaitGroup go option" where
  "begin_call i s =
     (case wt_ops (wg_threads s ! i) of
        [] \<Rightarrow> None
      | pc # ops \<Rightarrow> Some (Ret (s\<lparr>wg_threads := (wg_threads s)[i := (wg_threads s ! i)\<lparr>wt_pc := pc, wt_ops := ops\<rparr>]\<rparr>)))"

definition wg_step :: "('c, 'd, 'e) callbacks \<Rightarrow> nat \<Rightarrow> ('c, 'd, 'e) WaitGroup \<Rightarrow> ('c, 'd, 'e) WaitGroup go option" where
  "wg_step cb i s =
     (if length (wg_threads s) \<le> i then None
      else case wt_pc (wg_threads s ! i) of
             Idle \<Rightarrow> begin_call i s
           | Run pc \<Rightarrow> WaitGroup_Run (run_cb cb) i pc s
           | Go pc \<Rightarrow> WaitGroup_Go i pc s
           | Until pc \<Rightarrow> WaitGroup_Until (until_cb cb) i pc s
           | Stop pc \<Rightarrow> WaitGroup_Stop i pc s
           | Loop pc \<Rightarrow> WaitGroup_Loop (loop_cb cb) i pc s
           | Wait pc \<Rightarrow> WaitGroup_Wait i pc s)"

text \<open>The zero value of a \<^verbatim>\<open>WaitGroup\<close>, used by goroutines that each make a sequence of calls.\<close>

fun is_call :: "('c, 'd, 'e) wg_pc \<Rightarrow> bool" where
  "is_call (Run (RunCall d)) = True"
| "is_call (Go (GoCall c)) = True"
| "is_call (Until (UntilLock c)) = True"
| "is_call (Stop StopLock) = True"
| "is_call (Loop (LoopCall c)) = True"
| "is_call (Wait WaitAll) = True"
| "is_call pc = False"

definition wg_init :: "('c, 'd, 'e) wg_pc list list \<Rightarrow> ('c, 'd, 'e) WaitGroup" where
  "wg_init progs =
     \<lparr>wg_count = 0, wg_mutex = None, wg_errs = [], wg_done = None, wg_closed = [], wg_next = 0,
      wg_threads = map (\<lambda>ops. \<lparr>wt_pc = Idle, wt_ops = ops, wt_got = []\<rparr>) progs\<rparr>"

definition wg_reach :: "('c, 'd, 'e) callbacks \<Rightarrow> ('c, 'd, 'e) wg_pc list list \<Rightarrow> ('c, 'd, 'e) WaitGroup \<Rightarrow> bool" where
  "wg_reach cb progs s \<longleftrightarrow> list_all (list_all is_call) progs \<and> (can_step (wg_step cb))\<^sup>*\<^sup>* (wg_init progs) s"

lemmas wg_method_simps = WaitGroup_Run.simps WaitGroup_Go.simps WaitGroup_Until.simps WaitGroup_Stop.simps
  WaitGroup_Loop.simps WaitGroup_Wait.simps

lemmas wg_action_defs = goto_def start_def wg_Done_def mutex_Lock_def mutex_Unlock_def got_def begin_call_def

section \<open>Invariant\<close>

abbreviation pc_of :: "('c, 'd, 'e) WaitGroup \<Rightarrow> nat \<Rightarrow> ('c, 'd, 'e) wg_pc" where
  "pc_of s i \<equiv> wt_pc (wg_threads s ! i)"

text \<open>The goroutines the counter counts, those inside a critical section, and a \<^verbatim>\<open>Stop\<close> that has closed the channel.\<close>

fun counted :: "('c, 'd, 'e) wg_pc \<Rightarrow> bool" where
  "counted (Run pc) = (case pc of RunCall _ \<Rightarrow> False | RunUnlock _ \<Rightarrow> False | RunEnd _ \<Rightarrow> False | _ \<Rightarrow> True)"
| "counted (Go pc) = (case pc of GoCall _ \<Rightarrow> False | _ \<Rightarrow> True)"
| "counted (Until pc) = (case pc of UntilBody _ _ \<Rightarrow> True | UntilDone \<Rightarrow> True | _ \<Rightarrow> False)"
| "counted (Loop pc) = (case pc of LoopCall _ \<Rightarrow> False | _ \<Rightarrow> True)"
| "counted _ = False"

fun holds_lock :: "('c, 'd, 'e) wg_pc \<Rightarrow> bool" where
  "holds_lock (Run pc) = (case pc of RunAppend _ \<Rightarrow> True | RunDone _ \<Rightarrow> True | RunUnlock _ \<Rightarrow> True | _ \<Rightarrow> False)"
| "holds_lock (Until pc) = (case pc of UntilMake _ \<Rightarrow> True | UntilUnlock _ \<Rightarrow> True | _ \<Rightarrow> False)"
| "holds_lock (Stop pc) = (pc \<noteq> StopLock)"
| "holds_lock (Wait pc) = (pc = WaitRead \<or> pc = WaitUnlock)"
| "holds_lock _ = False"

definition stopping :: "('c, 'd, 'e) wg_pc \<Rightarrow> bool" where
  "stopping pc \<longleftrightarrow> pc = Stop StopWait \<or> pc = Stop StopClear"

text \<open>The errors a goroutine still has to record, and those it has recorded.\<close>

fun pending :: "('d \<Rightarrow> 'e option) \<Rightarrow> ('c, 'd, 'e) wg_pc \<Rightarrow> 'e multiset" where
  "pending f (Run (RunBody d)) = (case f d of None \<Rightarrow> {#} | Some e \<Rightarrow> {#e#})"
| "pending f (Run (RunLock e)) = {#e#}"
| "pending f (Run (RunAppend e)) = {#e#}"
| "pending f pc = {#}"

fun recorded :: "('c, 'd, 'e) wg_pc \<Rightarrow> 'e multiset" where
  "recorded (Run (RunDone e)) = {#e#}"
| "recorded (Run (RunUnlock e)) = {#e#}"
| "recorded (Run (RunEnd (Some e))) = {#e#}"
| "recorded pc = {#}"

definition owed :: "('d \<Rightarrow> 'e option) \<Rightarrow> ('c, 'd, 'e) wg_pc \<Rightarrow> 'e multiset" where
  "owed f pc = pending f pc + recorded pc"

definition count_inv :: "('c, 'd, 'e) WaitGroup \<Rightarrow> bool" where
  "count_inv s \<longleftrightarrow> wg_count s = (\<Sum>t\<leftarrow>wg_threads s. if counted (wt_pc t) then 1 else 0)"

definition lock_inv :: "('c, 'd, 'e) WaitGroup \<Rightarrow> bool" where
  "lock_inv s \<longleftrightarrow> (\<forall>i < length (wg_threads s). holds_lock (pc_of s i) \<longleftrightarrow> wg_mutex s = Some i) \<and>
     (\<forall>i. wg_mutex s = Some i \<longrightarrow> i < length (wg_threads s))"

definition chan_inv :: "('c, 'd, 'e) WaitGroup \<Rightarrow> bool" where
  "chan_inv s \<longleftrightarrow> (\<forall>ch \<in> set (wg_closed s). ch < wg_next s) \<and>
     (\<forall>ch. wg_done s = Some ch \<longrightarrow> ch < wg_next s \<and>
        (ch \<in> set (wg_closed s) \<longleftrightarrow> (\<exists>i. wg_mutex s = Some i \<and> stopping (pc_of s i))))"

definition errs_inv :: "('c, 'd, 'e) WaitGroup \<Rightarrow> bool" where
  "errs_inv s \<longleftrightarrow> mset (wg_errs s) = (\<Sum>t\<leftarrow>wg_threads s. recorded (wt_pc t))"

definition calls_inv :: "('c, 'd, 'e) WaitGroup \<Rightarrow> bool" where
  "calls_inv s \<longleftrightarrow> list_all (\<lambda>t. list_all is_call (wt_ops t)) (wg_threads s)"

definition wg_inv :: "('c, 'd, 'e) WaitGroup \<Rightarrow> bool" where
  "wg_inv s \<longleftrightarrow> calls_inv s \<and> count_inv s \<and> lock_inv s \<and> chan_inv s \<and> errs_inv s"

lemma is_call_facts:
  assumes "is_call pc"
  shows "\<not> counted pc" "\<not> holds_lock pc" "\<not> stopping pc" "recorded pc = {#}" "pending f pc = {#}"
  using assms by (cases pc rule: is_call.cases; auto simp: stopping_def)+

lemma begin_call_facts:
  assumes "calls_inv s" and "i < length (wg_threads s)" and "wt_ops (wg_threads s ! i) = pc # ops"
  shows "is_call pc" "list_all is_call ops"
  using assms by (auto simp: calls_inv_def list_all_iff dest!: nth_mem)

lemmas wg_splits = option.splits if_splits wg_pc.splits run_pc.splits go_pc.splits until_pc.splits
  stop_pc.splits loop_pc.splits wait_pc.splits list.splits

text \<open>Every action of goroutine \<open>i\<close> by its program counter.\<close>

lemma wg_step_cases:
  assumes step: "wg_step cb i s = Some r"
  obtains (call) pc ops where "i < length (wg_threads s)" "pc_of s i = Idle" "wt_ops (wg_threads s ! i) = pc # ops" "begin_call i s = Some r"
  | (run) pc where "i < length (wg_threads s)" "pc_of s i = Run pc" "WaitGroup_Run (run_cb cb) i pc s = Some r"
  | (go) pc where "i < length (wg_threads s)" "pc_of s i = Go pc" "WaitGroup_Go i pc s = Some r"
  | (until) pc where "i < length (wg_threads s)" "pc_of s i = Until pc" "WaitGroup_Until (until_cb cb) i pc s = Some r"
  | (stop) pc where "i < length (wg_threads s)" "pc_of s i = Stop pc" "WaitGroup_Stop i pc s = Some r"
  | (loop) pc where "i < length (wg_threads s)" "pc_of s i = Loop pc" "WaitGroup_Loop (loop_cb cb) i pc s = Some r"
  | (wait) pc where "i < length (wg_threads s)" "pc_of s i = Wait pc" "WaitGroup_Wait i pc s = Some r"
  using step unfolding wg_step_def begin_call_def by (auto split: if_splits wg_pc.splits list.splits)

text \<open>
  What an action of goroutine \<open>i\<close> does: it changes that goroutine, may add one more, and the counter,
  the mutex and the errors change as the program counters say.
\<close>

definition started :: "('c, 'd, 'e) WaitGroup \<Rightarrow> ('c, 'd, 'e) WaitGroup \<Rightarrow> ('c, 'd, 'e) wg_thread list" where
  "started s s' = drop (length (wg_threads s)) (wg_threads s')"

definition pc_count :: "('c, 'd, 'e) wg_pc \<Rightarrow> int" where
  "pc_count pc = (if counted pc then 1 else 0)"

definition shape_ok :: "nat \<Rightarrow> ('c, 'd, 'e) WaitGroup \<Rightarrow> ('c, 'd, 'e) WaitGroup \<Rightarrow> bool" where
  "shape_ok i s s' \<longleftrightarrow> i < length (wg_threads s) \<and>
     wg_threads s' = (wg_threads s)[i := wg_threads s' ! i] @ started s s' \<and>
     (\<forall>t \<in> set (started s s'). wt_ops t = [] \<and> counted (wt_pc t) \<and> \<not> holds_lock (wt_pc t) \<and> recorded (wt_pc t) = {#}) \<and>
     (wt_ops (wg_threads s' ! i) = wt_ops (wg_threads s ! i) \<or>
      wt_ops (wg_threads s ! i) = pc_of s' i # wt_ops (wg_threads s' ! i))"

definition fields_ok :: "('d \<Rightarrow> 'e option) \<Rightarrow> nat \<Rightarrow> ('c, 'd, 'e) WaitGroup \<Rightarrow> ('c, 'd, 'e) WaitGroup \<Rightarrow> bool" where
  "fields_ok f i s s' \<longleftrightarrow>
     wg_count s' = wg_count s - pc_count (pc_of s i) + pc_count (pc_of s' i) + int (length (started s s')) \<and>
     (if holds_lock (pc_of s' i)
      then (if holds_lock (pc_of s i) then wg_mutex s' = wg_mutex s else wg_mutex s = None \<and> wg_mutex s' = Some i)
      else wg_mutex s' = (if holds_lock (pc_of s i) then None else wg_mutex s)) \<and>
     mset (wg_errs s') + recorded (pc_of s i) = mset (wg_errs s) + recorded (pc_of s' i) \<and>
     recorded (pc_of s i) \<subseteq># recorded (pc_of s' i) \<and> owed f (pc_of s' i) = owed f (pc_of s i) \<and>
     wt_got (wg_threads s' ! i) = wt_got (wg_threads s ! i) @ (if pc_of s i = Wait WaitRead then [wg_errs s] else [])"

lemmas effect_defs = shape_ok_def fields_ok_def started_def pc_count_def owed_def wg_action_defs

lemma wg_step_effect:
  assumes inv: "calls_inv s" and step: "wg_step cb i s = Some (Ret s')"
  shows "shape_ok i s s' \<and> fields_ok (run_cb cb) i s s'"
  using step
proof (cases rule: wg_step_cases)
  case (call pc ops)
  then show ?thesis using is_call_facts [OF begin_call_facts(1) [OF inv call(1,3)]]
    by (auto simp: effect_defs)
next
  case (run pc)
  then show ?thesis by (cases pc) (auto simp: effect_defs nth_append split: option.splits if_splits)
next
  case (go pc)
  then show ?thesis by (cases pc) (auto simp: effect_defs nth_append split: if_splits)
next
  case (until pc)
  then show ?thesis by (cases pc) (auto simp: effect_defs nth_append split: option.splits if_splits)
next
  case (stop pc)
  then show ?thesis by (cases pc) (auto simp: effect_defs split: option.splits if_splits)
next
  case (loop pc)
  then show ?thesis by (cases pc) (auto simp: effect_defs nth_append split: if_splits)
next
  case (wait pc)
  then show ?thesis by (cases pc) (auto simp: effect_defs split: option.splits if_splits)
qed

lemma sum_started:
  assumes "shape_ok i s s'"
  shows "(\<Sum>t\<leftarrow>started s s'. pc_count (wt_pc t)) = int (length (started s s'))"
    "(\<Sum>t\<leftarrow>started s s'. recorded (wt_pc t)) = {#}"
proof -
  have "map (\<lambda>t. pc_count (wt_pc t)) (started s s') = replicate (length (started s s')) 1"
    using assms by (intro replicate_eqI) (auto simp: shape_ok_def pc_count_def)
  then show "(\<Sum>t\<leftarrow>started s s'. pc_count (wt_pc t)) = int (length (started s s'))" by (simp add: sum_list_replicate)
  have "map (\<lambda>t. recorded (wt_pc t)) (started s s') = replicate (length (started s s')) {#}"
    using assms by (intro replicate_eqI) (auto simp: shape_ok_def)
  moreover have "sum_list (replicate n {#}) = {#}" for n by (induction n) auto
  ultimately show "(\<Sum>t\<leftarrow>started s s'. recorded (wt_pc t)) = {#}" by simp
qed

lemma shape_ok_sum:
  fixes g :: "('c, 'd, 'e) wg_thread \<Rightarrow> 'm :: cancel_comm_monoid_add"
  assumes "shape_ok i s s'"
  shows "(\<Sum>t\<leftarrow>wg_threads s'. g t) + g (wg_threads s ! i) =
    (\<Sum>t\<leftarrow>wg_threads s. g t) + g (wg_threads s' ! i) + (\<Sum>t\<leftarrow>started s s'. g t)"
proof -
  have *: "wg_threads s' = (wg_threads s)[i := wg_threads s' ! i] @ started s s'" and i: "i < length (wg_threads s)"
    using assms by (auto simp: shape_ok_def)
  have "sum_list (map g (wg_threads s')) =
      sum_list (map g ((wg_threads s)[i := wg_threads s' ! i])) + (\<Sum>t\<leftarrow>started s s'. g t)"
    using arg_cong [OF *, of "\<lambda>ts. sum_list (map g ts)"] by simp
  then have "sum_list (map g (wg_threads s')) + g (wg_threads s ! i) =
      (sum_list (map g ((wg_threads s)[i := wg_threads s' ! i])) + g (wg_threads s ! i)) + (\<Sum>t\<leftarrow>started s s'. g t)"
    by (simp add: ac_simps)
  then show ?thesis by (simp only: sum_list_upd [OF i, of g "wg_threads s' ! i"])
qed

lemma shape_ok_pc:
  assumes "shape_ok i s s'"
  shows "length (wg_threads s) \<le> length (wg_threads s')"
    "j < length (wg_threads s) \<Longrightarrow> j \<noteq> i \<Longrightarrow> wg_threads s' ! j = wg_threads s ! j"
    "j < length (wg_threads s') \<Longrightarrow> length (wg_threads s) \<le> j \<Longrightarrow> wg_threads s' ! j \<in> set (started s s')"
proof -
  have *: "wg_threads s' = (wg_threads s)[i := wg_threads s' ! i] @ started s s'" using assms by (simp add: shape_ok_def)
  have len: "length (wg_threads s') = length (wg_threads s) + length (started s s')"
    using arg_cong [OF *, of length] by simp
  then show "length (wg_threads s) \<le> length (wg_threads s')" by simp
  show "j < length (wg_threads s') \<Longrightarrow> length (wg_threads s) \<le> j \<Longrightarrow> wg_threads s' ! j \<in> set (started s s')"
    using arg_cong [OF *, of "\<lambda>ts. ts ! j"] len by (simp add: nth_append)
  show "j < length (wg_threads s) \<Longrightarrow> j \<noteq> i \<Longrightarrow> wg_threads s' ! j = wg_threads s ! j"
    using arg_cong [OF *, of "\<lambda>ts. ts ! j"] by (simp add: nth_append)
qed

lemma count_inv_step: "count_inv s \<Longrightarrow> shape_ok i s s' \<Longrightarrow> fields_ok f i s s' \<Longrightarrow> count_inv s'"
  using shape_ok_sum [of i s s' "\<lambda>t. pc_count (wt_pc t)"] sum_started(1) [of i s s']
  by (simp add: count_inv_def fields_ok_def flip: pc_count_def)

lemma errs_inv_step: "errs_inv s \<Longrightarrow> shape_ok i s s' \<Longrightarrow> fields_ok f i s s' \<Longrightarrow> errs_inv s'"
  using shape_ok_sum [of i s s' "\<lambda>t. recorded (wt_pc t)"] sum_started(2) [of i s s']
  unfolding errs_inv_def fields_ok_def by (metis add.right_neutral add_right_cancel)

lemma lock_inv_step:
  assumes "lock_inv s" "shape_ok i s s'" "fields_ok f i s s'"
  shows "lock_inv s'"
proof -
  have i: "i < length (wg_threads s)" and new: "\<forall>t \<in> set (started s s'). \<not> holds_lock (wt_pc t)"
    using assms(2) by (auto simp: shape_ok_def)
  have old: "holds_lock (pc_of s j) \<longleftrightarrow> wg_mutex s = Some j" if "j < length (wg_threads s)" for j
    using assms(1) that by (simp add: lock_inv_def)
  have mutex: "wg_mutex s' = (if holds_lock (pc_of s' i) then Some i else if holds_lock (pc_of s i) then None else wg_mutex s)"
    "holds_lock (pc_of s' i) \<and> \<not> holds_lock (pc_of s i) \<longrightarrow> wg_mutex s = None"
    using assms(3) old [OF i] by (auto simp: fields_ok_def split: if_splits)
  have "holds_lock (pc_of s' j) \<longleftrightarrow> wg_mutex s' = Some j" if j: "j < length (wg_threads s')" for j
  proof (cases "j < length (wg_threads s)")
    case True
    then show ?thesis using shape_ok_pc(2) [OF assms(2) True] old [OF True] old [OF i] mutex by (cases "j = i") auto
  next
    case False
    then have "\<not> holds_lock (pc_of s' j)" using shape_ok_pc(3) [OF assms(2) j] new by simp
    moreover have "wg_mutex s' \<noteq> Some j" using False i mutex(1) assms(1) by (auto simp: lock_inv_def)
    ultimately show ?thesis by blast
  qed
  moreover have "j < length (wg_threads s')" if "wg_mutex s' = Some j" for j
    using that mutex(1) assms(1) i shape_ok_pc(1) [OF assms(2)] by (fastforce simp: lock_inv_def split: if_splits)
  ultimately show ?thesis by (simp add: lock_inv_def)
qed

lemma calls_inv_step:
  assumes "calls_inv s" "shape_ok i s s'"
  shows "calls_inv s'"
proof -
  have all: "calls_inv u \<longleftrightarrow> (\<forall>j < length (wg_threads u). list_all is_call (wt_ops (wg_threads u ! j)))"
    for u :: "('a, 'b, 'c) WaitGroup" unfolding calls_inv_def by (rule list_all_length)
  {
  fix j assume j: "j < length (wg_threads s')"
  have old: "list_all is_call (wt_ops (wg_threads s ! k))" if "k < length (wg_threads s)" for k
    using assms(1) that by (simp add: all)
  have i: "i < length (wg_threads s)" using assms(2) by (simp add: shape_ok_def)
  consider (old) "j < length (wg_threads s)" "j \<noteq> i" | (self) "j = i" | (new) "length (wg_threads s) \<le> j" by linarith
  then have "list_all is_call (wt_ops (wg_threads s' ! j))"
  proof cases
    case self
    have "wt_ops (wg_threads s' ! i) = wt_ops (wg_threads s ! i) \<or>
        wt_ops (wg_threads s ! i) = pc_of s' i # wt_ops (wg_threads s' ! i)"
      using assms(2) unfolding shape_ok_def by blast
    then show ?thesis using old [OF i] self by auto
  next
    case new
    have "wt_ops t = []" if "t \<in> set (started s s')" for t using that assms(2) unfolding shape_ok_def by blast
    then show ?thesis using shape_ok_pc(3) [OF assms(2) j new] by simp
  qed (use old shape_ok_pc(2) [OF assms(2)] in simp)
  }
  then show ?thesis by (simp add: all)
qed

text \<open>How the channel changes: not at all, by \<^verbatim>\<open>make\<close>, by clearing it, or by closing it.\<close>

definition chan_ok :: "nat \<Rightarrow> ('c, 'd, 'e) WaitGroup \<Rightarrow> ('c, 'd, 'e) WaitGroup \<Rightarrow> bool" where
  "chan_ok i s s' \<longleftrightarrow>
     (wg_done s' = wg_done s \<and> wg_closed s' = wg_closed s \<and> wg_next s' = wg_next s \<and>
        stopping (pc_of s' i) = stopping (pc_of s i)) \<or>
     (wg_done s' = Some (wg_next s) \<and> wg_closed s' = wg_closed s \<and> wg_next s' = Suc (wg_next s) \<and>
        holds_lock (pc_of s' i) \<and> \<not> stopping (pc_of s' i)) \<or>
     (wg_done s' = None \<and> wg_closed s' = wg_closed s \<and> wg_next s' = wg_next s) \<or>
     (\<exists>ch. wg_done s' = Some ch \<and> wg_done s = Some ch \<and> wg_closed s' = ch # wg_closed s \<and> wg_next s' = wg_next s \<and>
        holds_lock (pc_of s' i) \<and> stopping (pc_of s' i))"

lemma wg_step_chan:
  assumes inv: "calls_inv s" and step: "wg_step cb i s = Some (Ret s')"
  shows "chan_ok i s s'"
  using step
proof (cases rule: wg_step_cases)
  case (call pc ops)
  then show ?thesis using is_call_facts [OF begin_call_facts(1) [OF inv call(1,3)]]
    by (auto simp: chan_ok_def begin_call_def stopping_def)
next
  case (run pc)
  then show ?thesis unfolding chan_ok_def
    by (intro disjI1, cases pc) (auto simp: stopping_def wg_action_defs nth_append split: option.splits if_splits)
next
  case (go pc)
  then show ?thesis by (cases pc) (auto simp: chan_ok_def stopping_def wg_action_defs nth_append split: if_splits)
next
  case (until pc)
  show ?thesis
  proof (cases "wg_done s = None \<and> (\<exists>c. pc = UntilMake c)")
    case True
    then show ?thesis using until unfolding chan_ok_def
      by - (rule disjI2, rule disjI1, auto simp: stopping_def wg_action_defs)
  next
    case False
    then show ?thesis using until unfolding chan_ok_def
      by (intro disjI1, cases pc) (auto simp: stopping_def wg_action_defs nth_append split: option.splits if_splits)
  qed
next
  case (stop pc)
  show ?thesis
  proof (cases "pc = StopClear \<or> pc = StopClose")
    case True
    then show ?thesis using stop unfolding chan_ok_def
      by - (rule disjI2, rule disjI2, auto simp: stopping_def wg_action_defs split: option.splits if_splits)
  next
    case False
    then show ?thesis using stop unfolding chan_ok_def
      by (intro disjI1, cases pc) (auto simp: stopping_def wg_action_defs split: option.splits if_splits)
  qed
next
  case (loop pc)
  then show ?thesis by (cases pc) (auto simp: chan_ok_def stopping_def wg_action_defs nth_append split: if_splits)
next
  case (wait pc)
  then show ?thesis by (cases pc) (auto simp: chan_ok_def stopping_def wg_action_defs split: option.splits if_splits)
qed

lemma stopping_holds: "stopping pc \<Longrightarrow> holds_lock pc"
  by (auto simp: stopping_def)

definition being_stopped :: "('c, 'd, 'e) WaitGroup \<Rightarrow> bool" where
  "being_stopped s \<longleftrightarrow> (\<exists>i. wg_mutex s = Some i \<and> stopping (pc_of s i))"

lemma being_stopped_iff:
  "lock_inv s \<Longrightarrow> being_stopped s \<longleftrightarrow> (\<exists>i < length (wg_threads s). stopping (pc_of s i))"
  unfolding being_stopped_def lock_inv_def using stopping_holds by blast

lemma being_stopped_step:
  assumes "lock_inv s" "lock_inv s'" "shape_ok i s s'"
  shows "being_stopped s' \<longleftrightarrow> stopping (pc_of s' i) \<or> (being_stopped s \<and> \<not> holds_lock (pc_of s i))"
proof -
  have i: "i < length (wg_threads s)" "i < length (wg_threads s')"
    using assms(3) shape_ok_pc(1) [OF assms(3)] unfolding shape_ok_def by linarith+
  have new: "\<not> stopping (pc_of s' j)" if "j < length (wg_threads s')" "length (wg_threads s) \<le> j" for j
  proof -
    have "\<not> holds_lock (wt_pc t)" if "t \<in> set (started s s')" for t using that assms(3) unfolding shape_ok_def by blast
    then show ?thesis using shape_ok_pc(3) [OF assms(3) that] stopping_holds by blast
  qed
  have old: "pc_of s' j = pc_of s j" if "j < length (wg_threads s)" "j \<noteq> i" for j
    using shape_ok_pc(2) [OF assms(3) that] by simp
  have excl: "j = k" if "holds_lock (pc_of s j)" "holds_lock (pc_of s k)" "j < length (wg_threads s)" "k < length (wg_threads s)" for j k
    using that assms(1) unfolding lock_inv_def by (metis option.inject)
  show ?thesis
  proof (cases "stopping (pc_of s' i)")
    case True
    then show ?thesis using being_stopped_iff [OF assms(2)] i(2) by blast
  next
    case False
    have "being_stopped s' \<longleftrightarrow> (\<exists>j < length (wg_threads s). j \<noteq> i \<and> stopping (pc_of s j))"
    proof
      assume "being_stopped s'"
      then obtain j where j: "j < length (wg_threads s')" "stopping (pc_of s' j)" unfolding being_stopped_iff [OF assms(2)] by blast
      then have "j < length (wg_threads s)" "j \<noteq> i" using new [of j] False by (meson leI, blast)
      then show "\<exists>j < length (wg_threads s). j \<noteq> i \<and> stopping (pc_of s j)" using j(2) old by auto
    next
      assume "\<exists>j < length (wg_threads s). j \<noteq> i \<and> stopping (pc_of s j)"
      then obtain j where j: "j < length (wg_threads s)" "j \<noteq> i" "stopping (pc_of s j)" by blast
      then have "stopping (pc_of s' j)" "j < length (wg_threads s')" using old [OF j(1,2)] shape_ok_pc(1) [OF assms(3)] by simp_all
      then show "being_stopped s'" unfolding being_stopped_iff [OF assms(2)] by blast
    qed
    also have "\<dots> \<longleftrightarrow> being_stopped s \<and> \<not> holds_lock (pc_of s i)"
      unfolding being_stopped_iff [OF assms(1)] using excl i(1) stopping_holds by blast
    finally show ?thesis using False by simp
  qed
qed

lemma chan_inv_step:
  assumes inv: "chan_inv s" "lock_inv s" "lock_inv s'" and step: "shape_ok i s s'" "chan_ok i s s'"
  shows "chan_inv s'"
proof -
  have i: "i < length (wg_threads s)" using step(1) by (simp add: shape_ok_def)
  have chan: "(\<forall>ch \<in> set (wg_closed s). ch < wg_next s)"
    "\<And>ch. wg_done s = Some ch \<Longrightarrow> ch < wg_next s \<and> (ch \<in> set (wg_closed s) \<longleftrightarrow> being_stopped s)"
    using inv(1) by (auto simp: chan_inv_def being_stopped_def)
  have holder: "being_stopped s \<Longrightarrow> holds_lock (pc_of s i) \<Longrightarrow> stopping (pc_of s i)"
    using inv(2) i by (auto simp: being_stopped_def lock_inv_def)
  note stopped = being_stopped_step [OF inv(2,3) step(1)]
  have locked: "holds_lock (pc_of s' i) \<Longrightarrow> \<not> stopping (pc_of s' i) \<Longrightarrow> \<not> being_stopped s'"
    using inv(3) i shape_ok_pc(1) [OF step(1)] by (auto simp: being_stopped_def lock_inv_def)
  have self: "stopping (pc_of s i) \<Longrightarrow> being_stopped s"
    using being_stopped_iff [OF inv(2)] i by blast
  have closed: "\<forall>ch \<in> set (wg_closed s'). ch < wg_next s'"
    using step(2) chan unfolding chan_ok_def by (elim disjE) (auto simp: less_Suc_eq)
  moreover have "ch < wg_next s' \<and> (ch \<in> set (wg_closed s') \<longleftrightarrow> being_stopped s')" if ch: "wg_done s' = Some ch" for ch
    using step(2) unfolding chan_ok_def
  proof (elim disjE)
    assume "wg_done s' = wg_done s \<and> wg_closed s' = wg_closed s \<and> wg_next s' = wg_next s \<and> stopping (pc_of s' i) = stopping (pc_of s i)"
    moreover from this have "being_stopped s' \<longleftrightarrow> being_stopped s" using stopped holder self by blast
    ultimately show ?thesis using chan(2) [of ch] ch by simp
  qed (use ch chan stopped locked in auto)
  ultimately show ?thesis unfolding chan_inv_def being_stopped_def by blast
qed

interpretation wgs: invariant_system "can_step (wg_step cb)" wg_inv for cb
proof
  fix s s' :: "('a, 'b, 'c) WaitGroup" and cb
  assume inv: "wg_inv s" and "can_step (wg_step cb) s s'"
  then obtain i where step: "wg_step cb i s = Some (Ret s')" by (auto simp: can_step_def)
  have "calls_inv s" using inv by (simp add: wg_inv_def)
  note effect = wg_step_effect [OF this step] wg_step_chan [OF this step]
  have "lock_inv s'" using inv effect lock_inv_step unfolding wg_inv_def by blast
  then show "wg_inv s'"
    using inv effect calls_inv_step count_inv_step errs_inv_step chan_inv_step unfolding wg_inv_def by blast
qed

lemma wg_inv_init: "list_all (list_all is_call) progs \<Longrightarrow> wg_inv (wg_init progs)"
proof -
  have "(\<Sum>ops\<leftarrow>progs. {#}) = {#}" by (induction progs) auto
  then show "list_all (list_all is_call) progs \<Longrightarrow> wg_inv (wg_init progs)"
    by (simp add: wg_inv_def wg_init_def calls_inv_def count_inv_def lock_inv_def chan_inv_def errs_inv_def
        list_all_length comp_def)
qed

lemma wg_reach_inv: "wg_reach cb progs s \<Longrightarrow> wg_inv s"
  unfolding wg_reach_def using wgs.inv_steps wg_inv_init by blast

lemma wg_reach_schedule:
  "list_all (list_all is_call) progs \<Longrightarrow> schedule_yields (wg_step cb) is (wg_init progs) P \<Longrightarrow> \<exists>s. wg_reach cb progs s \<and> P s"
  unfolding wg_reach_def by (simp add: schedule_yields_state)

section \<open>Safety\<close>

lemma count_positive:
  assumes "count_inv s" "i < length (wg_threads s)" "counted (pc_of s i)"
  shows "1 \<le> wg_count s"
proof -
  have nonneg: "0 \<le> (\<Sum>t\<leftarrow>ts. if counted (wt_pc t) then 1 else 0 :: int)" for ts :: "('a, 'b, 'c) wg_thread list"
    by (rule sum_list_nonneg) auto
  have "1 \<le> (\<Sum>t\<leftarrow>ts. if counted (wt_pc t) then 1 else 0 :: int)"
    if "t \<in> set ts" "counted (wt_pc t)" for t and ts :: "('a, 'b, 'c) wg_thread list"
    using that
  proof (induction ts)
    case (Cons u us)
    then show ?case using nonneg [of us] by auto
  qed simp
  from this [OF nth_mem [OF assms(2)] assms(3)] assms(1) show ?thesis by (simp add: count_inv_def)
qed

lemma wg_no_panic:
  assumes inv: "wg_inv s"
  shows "wg_step cb i s \<noteq> Some (Panic p)"
proof
  assume step: "wg_step cb i s = Some (Panic p)"
  have count: "counted (pc_of s i) \<Longrightarrow> i < length (wg_threads s) \<Longrightarrow> 1 \<le> wg_count s"
    using inv count_positive by (auto simp: wg_inv_def)
  have mutex: "holds_lock (pc_of s i) \<Longrightarrow> i < length (wg_threads s) \<Longrightarrow> wg_mutex s = Some i"
    using inv by (auto simp: wg_inv_def lock_inv_def)
  have closed: "pc_of s i = Stop StopClose \<Longrightarrow> i < length (wg_threads s) \<Longrightarrow> wg_done s = Some ch \<Longrightarrow> ch \<notin> set (wg_closed s)" for ch
    using inv mutex by (auto simp: wg_inv_def chan_inv_def stopping_def)
  show False
    using step
  proof (cases rule: wg_step_cases)
    case (run pc)
    then show ?thesis using count mutex by (cases pc) (auto simp: wg_action_defs split: option.splits if_splits)
  next
    case (go pc)
    then show ?thesis using count by (cases pc) (auto simp: wg_action_defs split: if_splits)
  next
    case (until pc)
    then show ?thesis using count mutex by (cases pc) (auto simp: wg_action_defs split: option.splits if_splits)
  next
    case (stop pc)
    then show ?thesis using mutex closed by (cases pc) (auto simp: wg_action_defs split: option.splits if_splits)
  next
    case (loop pc)
    then show ?thesis using count by (cases pc) (auto simp: wg_action_defs split: if_splits)
  next
    case (wait pc)
    then show ?thesis using mutex by (cases pc) (auto simp: wg_action_defs split: option.splits if_splits)
  qed (auto simp: begin_call_def split: list.splits)
qed


definition ex_cb :: "(nat, nat, string) callbacks" where
  "ex_cb = \<lparr>run_cb = (\<lambda>d. if d = 0 then None else Some ''failed''),
     until_cb = (\<lambda>c n closed. if closed then Some False else if n < c then Some True else None),
     loop_cb = (\<lambda>c n. n < c)\<rparr>"

text \<open>Two calls of \<^verbatim>\<open>Stop\<close>, one after the other, around an \<^verbatim>\<open>Until\<close>.\<close>

definition ex_stop2 :: "(nat, nat, string) wg_pc list list" where
  "ex_stop2 = [[Until (UntilLock 0), Stop StopLock, Stop StopLock]]"


section \<open>Errors\<close>

text \<open>All errors of the callbacks given to \<^verbatim>\<open>Run\<close> so far, recorded or not.\<close>

definition all_errors :: "('d \<Rightarrow> 'e option) \<Rightarrow> ('c, 'd, 'e) WaitGroup \<Rightarrow> 'e multiset" where
  "all_errors f s = (\<Sum>t\<leftarrow>wg_threads s. owed f (wt_pc t))"

lemma errors_grow:
  assumes inv: "wg_inv s" and step: "wg_step cb i s = Some (Ret s')"
  shows "mset (wg_errs s) \<subseteq># mset (wg_errs s')" "all_errors (run_cb cb) s \<subseteq># all_errors (run_cb cb) s'"
proof -
  have calls: "calls_inv s" using inv by (simp add: wg_inv_def)
  note effect = wg_step_effect [OF calls step]
  have "mset (wg_errs s') + recorded (pc_of s i) = mset (wg_errs s) + recorded (pc_of s' i)"
    and owed: "recorded (pc_of s i) \<subseteq># recorded (pc_of s' i)" "owed (run_cb cb) (pc_of s' i) = owed (run_cb cb) (pc_of s i)"
    using effect unfolding fields_ok_def by blast+
  then show "mset (wg_errs s) \<subseteq># mset (wg_errs s')"
    by (metis mset_subset_eq_mono_add_right_cancel subset_mset.add_left_mono)
  have "all_errors (run_cb cb) s' = all_errors (run_cb cb) s + (\<Sum>t\<leftarrow>started s s'. owed (run_cb cb) (wt_pc t))"
    using effect owed(2) shape_ok_sum [of i s s' "\<lambda>t. owed (run_cb cb) (wt_pc t)"] unfolding all_errors_def
    by (metis (no_types, lifting) add.assoc add.commute add_right_cancel)
  then show "all_errors (run_cb cb) s \<subseteq># all_errors (run_cb cb) s'" by simp
qed

lemma errs_below_all: "errs_inv s \<Longrightarrow> mset (wg_errs s) \<subseteq># all_errors f s"
  unfolding errs_inv_def all_errors_def owed_def by (simp add: sum_list_addf)

text \<open>When the counter is zero, every error has been recorded.\<close>

lemma errs_all:
  assumes "errs_inv s" "count_inv s" "wg_count s = 0"
  shows "mset (wg_errs s) = all_errors f s"
proof -
  have "pending f pc = {#}" if "\<not> counted pc" for pc :: "('a, 'b, 'c) wg_pc"
    using that by (cases "(f, pc)" rule: pending.cases) auto
  moreover have "\<not> counted (wt_pc t)" if "t \<in> set (wg_threads s)" for t
    using that count_positive [OF assms(2)] assms(3) by (metis in_set_conv_nth not_one_le_zero)
  ultimately have "map (\<lambda>t. owed f (wt_pc t)) (wg_threads s) = map (\<lambda>t. recorded (wt_pc t)) (wg_threads s)"
    by (simp add: owed_def)
  then show ?thesis using assms(1) unfolding errs_inv_def all_errors_def by (rule trans [OF _ sym, rotated, OF arg_cong])
qed

text \<open>
  A goroutine in \<^verbatim>\<open>Wait\<close>: from the moment the counter was zero the recorded errors contain \<open>T\<close>, the
  errors there were when the call began, and so does what it returns.
\<close>

definition wait_inv :: "('d \<Rightarrow> 'e option) \<Rightarrow> nat \<Rightarrow> nat \<Rightarrow> 'e multiset \<Rightarrow> ('c, 'd, 'e) WaitGroup \<Rightarrow> bool" where
  "wait_inv f i n T s \<longleftrightarrow> wg_inv s \<and> i < length (wg_threads s) \<and> T \<subseteq># all_errors f s \<and>
     (let t = wg_threads s ! i in
      (wt_pc t = Wait WaitAll \<and> length (wt_got t) = n) \<or>
      ((wt_pc t = Wait WaitLock \<or> wt_pc t = Wait WaitRead) \<and> length (wt_got t) = n \<and> T \<subseteq># mset (wg_errs s)) \<or>
      (n < length (wt_got t) \<and> T \<subseteq># mset (wt_got t ! n) \<and> mset (wt_got t ! n) \<subseteq># mset (wg_errs s)))"

lemma wait_step_cases:
  assumes "wg_step cb i s = Some (Ret s')" and "pc_of s i = Wait pc"
  shows "(pc = WaitAll \<and> pc_of s' i = Wait WaitLock \<and> wg_count s = 0 \<and> wg_errs s' = wg_errs s) \<or>
    (pc = WaitLock \<and> pc_of s' i = Wait WaitRead \<and> wg_errs s' = wg_errs s) \<or>
    (pc = WaitRead \<and> wg_errs s' = wg_errs s) \<or> pc = WaitUnlock"
  using assms by (cases pc) (auto simp: wg_step_def wg_action_defs split: option.splits if_splits)

interpretation wgw: invariant_system "can_step (wg_step cb)" "wait_inv (run_cb cb) i n T" for cb i n T
proof
  fix cb :: "('a, 'b, 'c) callbacks" and i n T s s'
  assume inv: "wait_inv (run_cb cb) i n T s" and "can_step (wg_step cb) s s'"
  then obtain j where step: "wg_step cb j s = Some (Ret s')" and wg: "wg_inv s" by (auto simp: can_step_def wait_inv_def)
  let ?t = "wg_threads s ! i" and ?t' = "wg_threads s' ! i"
  have wg': "wg_inv s'" using wg step wgs.inv_step by (auto simp: can_step_def)
  have calls: "calls_inv s" using wg by (simp add: wg_inv_def)
  note effect = wg_step_effect [OF calls step]
  note grow = errors_grow [OF wg step]
  have i: "i < length (wg_threads s')" using inv effect shape_ok_pc(1) by (fastforce simp: wait_inv_def)
  have T: "T \<subseteq># all_errors (run_cb cb) s" "T \<subseteq># all_errors (run_cb cb) s'"
    using inv grow(2) by (auto simp: wait_inv_def intro: subset_mset.order_trans)
  have got: "wt_got (wg_threads s' ! j) = wt_got (wg_threads s ! j) @ (if pc_of s j = Wait WaitRead then [wg_errs s] else [])"
    using effect by (simp add: fields_ok_def)
  consider (other) "j \<noteq> i" | (all) "j = i" "wt_pc ?t = Wait WaitAll" "length (wt_got ?t) = n"
    | (lock) "j = i" "wt_pc ?t = Wait WaitLock \<or> wt_pc ?t = Wait WaitRead" "length (wt_got ?t) = n" "T \<subseteq># mset (wg_errs s)"
    | (returned) "j = i" "n < length (wt_got ?t)" "T \<subseteq># mset (wt_got ?t ! n)" "mset (wt_got ?t ! n) \<subseteq># mset (wg_errs s)"
    using inv by (auto simp: wait_inv_def Let_def)
  then show "wait_inv (run_cb cb) i n T s'"
  proof cases
    case other
    have "?t' = ?t" using shape_ok_pc(2) [of j s s' i] effect inv other by (auto simp: wait_inv_def)
    then show ?thesis using inv wg' i T grow(1) by (auto simp: wait_inv_def Let_def intro: subset_mset.order_trans)
  next
    case all
    then have "T \<subseteq># mset (wg_errs s')" "pc_of s' i = Wait WaitLock"
      using wait_step_cases [OF step, of WaitAll] errs_all [of s "run_cb cb"] wg T(1) by (auto simp: wg_inv_def)
    then show ?thesis using wg' i T got all by (simp add: wait_inv_def Let_def)
  next
    case lock
    then show ?thesis using wait_step_cases [OF step] wg' i T got by (auto simp: wait_inv_def Let_def)
  next
    case returned
    then have "n < length (wt_got ?t')" "wt_got ?t' ! n = wt_got ?t ! n" using got by (auto simp: nth_append)
    then show ?thesis using wg' i T returned grow(1) by (auto simp: wait_inv_def Let_def intro: subset_mset.order_trans)
  qed
qed

text \<open>
  C16: \<^verbatim>\<open>Wait\<close> waits and collects: what a call of \<^verbatim>\<open>Wait\<close> returns contains the error of every callback that
  had been given to \<^verbatim>\<open>Run\<close> when the call began, each as often as it occurred, whatever other goroutines
  do meanwhile, and nothing but errors of callbacks given to \<^verbatim>\<open>Run\<close>.
\<close>

theorem WaitGroup_Wait_collects:
  assumes "wg_reach cb progs s" and "i < length (wg_threads s)" and "pc_of s i = Wait WaitAll"
    and "(can_step (wg_step cb))\<^sup>*\<^sup>* s s'" and "n = length (wt_got (wg_threads s ! i))" and "n < length (wt_got (wg_threads s' ! i))"
  shows "all_errors (run_cb cb) s \<subseteq># mset (wt_got (wg_threads s' ! i) ! n) \<and>
    mset (wt_got (wg_threads s' ! i) ! n) \<subseteq># all_errors (run_cb cb) s'"
proof -
  have "wait_inv (run_cb cb) i n (all_errors (run_cb cb) s) s"
    using assms wg_reach_inv [OF assms(1)] by (simp add: wait_inv_def)
  then have inv: "wait_inv (run_cb cb) i n (all_errors (run_cb cb) s) s'" by (rule wgw.inv_steps [OF assms(4)])
  then have "all_errors (run_cb cb) s \<subseteq># mset (wt_got (wg_threads s' ! i) ! n)"
    "mset (wt_got (wg_threads s' ! i) ! n) \<subseteq># mset (wg_errs s')"
    using assms(6) by (auto simp: wait_inv_def Let_def)
  moreover have "mset (wg_errs s') \<subseteq># all_errors (run_cb cb) s'"
    using inv by (intro errs_below_all) (simp add: wait_inv_def wg_inv_def)
  ultimately show ?thesis by (auto intro: subset_mset.order_trans)
qed

definition ex_run2 :: "(nat, nat, string) wg_pc list list" where
  "ex_run2 = [[Run (RunCall 0), Run (RunCall 1), Wait WaitAll]]"

theorem WaitGroup_Wait_collects_witness:
  "\<exists>s s'. wg_reach ex_cb ex_run2 s \<and> (can_step (wg_step ex_cb))\<^sup>*\<^sup>* s s' \<and>
     ''failed'' \<in># all_errors (run_cb ex_cb) s \<and> ''failed'' \<in> set (wt_got (wg_threads s' ! 0) ! 0)"
proof -
  have sched: "schedule_yields (wg_step ex_cb) [0, 0, 0, 0, 0] (wg_init ex_run2)
      (\<lambda>s. 0 < length (wg_threads s) \<and> pc_of s 0 = Wait WaitAll \<and> 0 = length (wt_got (wg_threads s ! 0)) \<and>
         ''failed'' \<in># all_errors (run_cb ex_cb) s \<and>
         schedule_yields (wg_step ex_cb) [2, 2, 2, 2, 1, 1, 2, 0, 0, 0] s (\<lambda>s'. 0 < length (wt_got (wg_threads s' ! 0))))"
    by code_simp
  have "list_all (list_all is_call) ex_run2" by code_simp
  from wg_reach_schedule [OF this sched] obtain s where s: "wg_reach ex_cb ex_run2 s" "0 < length (wg_threads s)" "pc_of s 0 = Wait WaitAll"
      "0 = length (wt_got (wg_threads s ! 0))" "''failed'' \<in># all_errors (run_cb ex_cb) s"
    and yields: "schedule_yields (wg_step ex_cb) [2, 2, 2, 2, 1, 1, 2, 0, 0, 0] s (\<lambda>s'. 0 < length (wt_got (wg_threads s' ! 0)))"
    by blast
  from schedule_yields_state [OF yields] obtain s'
    where s': "(can_step (wg_step ex_cb))\<^sup>*\<^sup>* s s'" "0 < length (wt_got (wg_threads s' ! 0))" by blast
  have "''failed'' \<in># mset (wt_got (wg_threads s' ! 0) ! 0)"
    by (rule mset_subset_eqD [OF conjunct1 [OF WaitGroup_Wait_collects [OF s(1-3) s'(1) s(4) s'(2)]] s(5)])
  then have "''failed'' \<in> set (wt_got (wg_threads s' ! 0) ! 0)" by simp
  then show ?thesis using s(1,5) s'(1) by blast
qed

section \<open>Stop\<close>

text \<open>\<^verbatim>\<open>Stop\<close> keeps the mutex while it waits, and a goroutine of \<^verbatim>\<open>Run\<close> with an error waits for the mutex.\<close>

definition stop_stuck :: "nat \<Rightarrow> nat \<Rightarrow> 'e \<Rightarrow> ('c, 'd, 'e) WaitGroup \<Rightarrow> bool" where
  "stop_stuck i j err s \<longleftrightarrow> wg_inv s \<and> i < length (wg_threads s) \<and> j < length (wg_threads s) \<and>
     pc_of s i = Stop StopWait \<and> pc_of s j = Run (RunLock err)"

interpretation wgd: invariant_system "can_step (wg_step cb)" "stop_stuck i j err" for cb i j err
proof
  fix cb :: "('a, 'b, 'c) callbacks" and i j err s s'
  assume inv: "stop_stuck i j err s" and "can_step (wg_step cb) s s'"
  then obtain k where step: "wg_step cb k s = Some (Ret s')" and wg: "wg_inv s" by (auto simp: can_step_def stop_stuck_def)
  have "wg_mutex s = Some i" "1 \<le> wg_count s"
    using inv count_positive [of s j] by (auto simp: stop_stuck_def wg_inv_def lock_inv_def)
  then have "k \<noteq> i" "k \<noteq> j" using step inv by (auto simp: wg_step_def stop_stuck_def mutex_Lock_def)
  moreover have "wg_inv s'" "shape_ok k s s'"
    using wg step wgs.inv_step wg_step_effect [OF _ step] by (auto simp: can_step_def wg_inv_def)
  ultimately show "stop_stuck i j err s'"
    using inv shape_ok_pc(1) [of k s s'] shape_ok_pc(2) [of k s s' i] shape_ok_pc(2) [of k s s' j] by (auto simp: stop_stuck_def)
qed

text \<open>
  \<^verbatim>\<open>Stop\<close> can deadlock: once it waits for the goroutines and a callback given to \<^verbatim>\<open>Run\<close> has returned an
  error, \<^verbatim>\<open>Stop\<close> never returns, whatever the other goroutines do: it holds the mutex that the goroutine of
  \<^verbatim>\<open>Run\<close> needs to record the error and finish.
\<close>

theorem WaitGroup_Stop_deadlock:
  assumes "wg_reach cb progs s" and "i < length (wg_threads s)" and "j < length (wg_threads s)"
    and "pc_of s i = Stop StopWait" and "pc_of s j = Run (RunLock err)" and "(can_step (wg_step cb))\<^sup>*\<^sup>* s s'"
  shows "pc_of s' i = Stop StopWait \<and> pc_of s' j = Run (RunLock err)"
proof -
  have "stop_stuck i j err s" using assms wg_reach_inv [OF assms(1)] by (simp add: stop_stuck_def)
  then have "stop_stuck i j err s'" by (rule wgd.inv_steps [OF assms(6)])
  then show ?thesis by (simp add: stop_stuck_def)
qed

theorem WaitGroup_Stop_deadlock_witness:
  "\<exists>s. wg_reach ex_cb [[Run (RunCall 1), Stop StopLock]] s \<and>
     (\<forall>s'. (can_step (wg_step ex_cb))\<^sup>*\<^sup>* s s' \<longrightarrow> pc_of s' 0 = Stop StopWait)"
proof -
  have sched: "schedule_yields (wg_step ex_cb) [0, 0, 0, 0, 0, 1] (wg_init [[Run (RunCall 1), Stop StopLock]])
      (\<lambda>s. 0 < length (wg_threads s) \<and> 1 < length (wg_threads s) \<and> pc_of s 0 = Stop StopWait \<and>
         pc_of s 1 = Run (RunLock ''failed''))"
    by code_simp
  have "list_all (list_all is_call) [[Run (RunCall 1), Stop StopLock]]" by code_simp
  from wg_reach_schedule [OF this sched] obtain s where s: "wg_reach ex_cb [[Run (RunCall 1), Stop StopLock]] s"
      "0 < length (wg_threads s)" "1 < length (wg_threads s)" "pc_of s 0 = Stop StopWait" "pc_of s 1 = Run (RunLock ''failed'')"
    by blast
  have "pc_of s' 0 = Stop StopWait" if "(can_step (wg_step ex_cb))\<^sup>*\<^sup>* s s'" for s'
    using WaitGroup_Stop_deadlock [OF s that] by (rule conjunct1)
  then show ?thesis using s(1) by blast
qed

text \<open>
  Goroutines that let \<^verbatim>\<open>Stop\<close> finish: they make no more calls and have no error to record. A callback of
  \<^verbatim>\<open>Until\<close> is cooperative when it returns false once the channel is closed.
\<close>

fun quiet_pc :: "('c, 'd, 'e) callbacks \<Rightarrow> ('c, 'd, 'e) wg_pc \<Rightarrow> bool" where
  "quiet_pc cb (Run pc) = (case pc of RunBody d \<Rightarrow> run_cb cb d = None | RunOk \<Rightarrow> True | RunEnd _ \<Rightarrow> True | _ \<Rightarrow> False)"
| "quiet_pc cb (Go pc) = (case pc of GoCall _ \<Rightarrow> False | _ \<Rightarrow> True)"
| "quiet_pc cb (Until pc) = (case pc of UntilBody _ _ \<Rightarrow> True | UntilDone \<Rightarrow> True | _ \<Rightarrow> False)"
| "quiet_pc cb pc = (pc = Idle)"

definition quiet :: "('c, 'd, 'e) callbacks \<Rightarrow> ('c, 'd, 'e) wg_thread \<Rightarrow> bool" where
  "quiet cb t \<longleftrightarrow> wt_ops t = [] \<and> quiet_pc cb (wt_pc t)"

definition cooperative :: "('c, 'd, 'e) callbacks \<Rightarrow> bool" where
  "cooperative cb \<longleftrightarrow> (\<forall>c n. until_cb cb c n True = Some False)"

fun in_until :: "('c, 'd, 'e) wg_pc \<Rightarrow> bool" where
  "in_until (Until (UntilBody c n)) = True"
| "in_until pc = False"

fun pc_weight :: "('c, 'd, 'e) wg_pc \<Rightarrow> nat" where
  "pc_weight (Run pc) = (case pc of RunBody _ \<Rightarrow> 2 | RunOk \<Rightarrow> 1 | _ \<Rightarrow> 0)"
| "pc_weight (Go pc) = (case pc of GoBody _ \<Rightarrow> 2 | GoDone \<Rightarrow> 1 | _ \<Rightarrow> 0)"
| "pc_weight (Until pc) = (case pc of UntilBody _ _ \<Rightarrow> 2 | UntilDone \<Rightarrow> 1 | _ \<Rightarrow> 0)"
| "pc_weight (Stop pc) = (case pc of StopWait \<Rightarrow> 3 | StopClear \<Rightarrow> 2 | StopUnlock \<Rightarrow> 1 | _ \<Rightarrow> 0)"
| "pc_weight pc = 0"

definition wg_weight :: "('c, 'd, 'e) WaitGroup \<Rightarrow> nat" where
  "wg_weight s = (\<Sum>t\<leftarrow>wg_threads s. pc_weight (wt_pc t))"

lemma quiet_step:
  assumes step: "wg_step cb k s = Some (Ret s')" and quiet: "quiet cb (wg_threads s ! k)"
    and coop: "cooperative cb" and closed: "in_until (pc_of s k) \<Longrightarrow> done_closed s"
  shows "wg_threads s' = (wg_threads s)[k := (wg_threads s ! k)\<lparr>wt_pc := pc_of s' k\<rparr>] \<and> quiet_pc cb (pc_of s' k) \<and>
    pc_weight (pc_of s' k) < pc_weight (pc_of s k) \<and> \<not> in_until (pc_of s' k) \<and> wg_done s' = wg_done s \<and> wg_closed s' = wg_closed s"
  using step
proof (cases rule: wg_step_cases)
  case (call pc ops)
  then show ?thesis using quiet by (simp add: quiet_def)
next
  case (run pc)
  then show ?thesis using quiet
    by (cases pc) (auto simp: quiet_def wg_action_defs split: if_splits)
next
  case (go pc)
  then show ?thesis using quiet
    by (cases pc) (auto simp: quiet_def wg_action_defs split: if_splits)
next
  case (until pc)
  then show ?thesis using quiet coop closed
    by (cases pc) (auto simp: quiet_def cooperative_def wg_action_defs split: if_splits)
qed (use quiet in \<open>simp_all add: quiet_def\<close>)

lemma quiet_progress:
  assumes "wg_inv s" and "k < length (wg_threads s)" and quiet: "quiet cb (wg_threads s ! k)" and coop: "cooperative cb"
    and closed: "in_until (pc_of s k) \<Longrightarrow> done_closed s" and counted: "counted (pc_of s k)"
  shows "\<exists>s'. can_step (wg_step cb) s s'"
proof -
  have "\<exists>r. wg_step cb k s = Some r"
  proof (cases "pc_of s k")
    case (Run pc)
    then show ?thesis using assms by (cases pc) (auto simp: wg_step_def quiet_def wg_Done_def)
  next
    case (Go pc)
    then show ?thesis using assms by (cases pc) (auto simp: wg_step_def quiet_def wg_Done_def)
  next
    case (Until pc)
    then show ?thesis using assms by (cases pc) (auto simp: wg_step_def quiet_def wg_Done_def cooperative_def)
  qed (use quiet counted in \<open>auto simp: quiet_def\<close>)
  then obtain s' where "wg_step cb k s = Some (Ret s')" using wg_no_panic [OF assms(1)] by (metis go.exhaust)
  then show ?thesis by (auto simp: can_step_def)
qed

text \<open>After \<^verbatim>\<open>Stop\<close> has closed the channel: it waits, or all goroutines have finished.\<close>

definition stop_inv :: "('c, 'd, 'e) callbacks \<Rightarrow> nat \<Rightarrow> ('c, 'd, 'e) WaitGroup \<Rightarrow> bool" where
  "stop_inv cb i s \<longleftrightarrow> wg_inv s \<and> cooperative cb \<and> i < length (wg_threads s) \<and> wt_ops (wg_threads s ! i) = [] \<and>
     (\<forall>j < length (wg_threads s). j \<noteq> i \<longrightarrow> quiet cb (wg_threads s ! j) \<and> (in_until (pc_of s j) \<longrightarrow> done_closed s)) \<and>
     (pc_of s i = Stop StopWait \<or>
      ((pc_of s i = Stop StopClear \<or> pc_of s i = Stop StopUnlock \<or> pc_of s i = Idle) \<and> wg_count s = 0))"

lemma stop_self_step:
  assumes "wg_step cb i s = Some (Ret s')" and "stop_inv cb i s"
  shows "wg_threads s' = (wg_threads s)[i := (wg_threads s ! i)\<lparr>wt_pc := pc_of s' i\<rparr>] \<and> wg_count s = 0 \<and> wg_count s' = 0 \<and>
    pc_weight (pc_of s' i) < pc_weight (pc_of s i) \<and>
    (pc_of s' i = Stop StopClear \<or> pc_of s' i = Stop StopUnlock \<or> pc_of s' i = Idle)"
  using assms by (auto simp: stop_inv_def wg_step_def wg_action_defs split: if_splits option.splits)

lemma count_zero: "count_inv s \<Longrightarrow> wg_count s = 0 \<Longrightarrow> j < length (wg_threads s) \<Longrightarrow> \<not> counted (pc_of s j)"
  using count_positive by fastforce

lemma in_until_counted: "in_until pc \<Longrightarrow> counted pc"
  by (cases pc rule: in_until.cases) auto

lemma stop_quiet_only:
  assumes "stop_inv cb i s" and "wg_step cb k s = Some (Ret s')" and "k \<noteq> i"
  shows "pc_of s i = Stop StopWait" "k < length (wg_threads s)" "quiet cb (wg_threads s ! k)" "in_until (pc_of s k) \<Longrightarrow> done_closed s"
proof -
  show k: "k < length (wg_threads s)" using assms(2) by (auto simp: wg_step_def split: if_splits)
  show quiet: "quiet cb (wg_threads s ! k)" and closed: "in_until (pc_of s k) \<Longrightarrow> done_closed s"
    using assms(1,3) k by (auto simp: stop_inv_def)
  have "0 < pc_weight (pc_of s k)" using quiet_step [OF assms(2) quiet _ closed] assms(1) by (auto simp: stop_inv_def)
  then have "counted (pc_of s k)" using quiet by (cases "pc_of s k") (auto simp: quiet_def split: run_pc.splits go_pc.splits until_pc.splits)
  then have "wg_count s \<noteq> 0" using count_zero [of s k] k assms(1) by (auto simp: stop_inv_def wg_inv_def)
  then show "pc_of s i = Stop StopWait" using assms(1) by (auto simp: stop_inv_def)
qed

lemma stop_inv_step:
  assumes inv: "stop_inv cb i s" and step: "wg_step cb k s = Some (Ret s')"
  shows "stop_inv cb i s'" "wg_weight s' < wg_weight s"
proof -
  have wg: "wg_inv s" "cooperative cb" and i: "i < length (wg_threads s)" using inv by (auto simp: stop_inv_def)
  have wg': "wg_inv s'" using wg(1) step wgs.inv_step by (auto simp: can_step_def)
  have *: "k < length (wg_threads s) \<and> wg_threads s' = (wg_threads s)[k := (wg_threads s ! k)\<lparr>wt_pc := pc_of s' k\<rparr>] \<and>
      pc_weight (pc_of s' k) < pc_weight (pc_of s k) \<and> stop_inv cb i s'"
  proof (cases "k = i")
    case True
    note self = stop_self_step [OF step [unfolded True] inv]
    have "\<not> in_until (pc_of s j)" if "j < length (wg_threads s)" for j
      using self wg(1) count_zero [of s j] that in_until_counted by (auto simp: wg_inv_def)
    then show ?thesis using self inv wg' True i unfolding stop_inv_def by (auto simp: nth_list_update)
  next
    case False
    note only = stop_quiet_only [OF inv step False]
    obtain p where p: "pc_of s' k = p" by blast
    note quiet = quiet_step [OF step only(3) wg(2) only(4), unfolded p]
    have "wg_done s' = wg_done s" "wg_closed s' = wg_closed s" using quiet by blast+
    then have closed: "done_closed s' = done_closed s" by (simp add: done_closed_def split: option.split)
    have ts: "wg_threads s' = (wg_threads s)[k := (wg_threads s ! k)\<lparr>wt_pc := p\<rparr>]" using quiet by blast
    then have "stop_inv cb i s'"
      using closed only(1-3) inv wg' i False quiet unfolding stop_inv_def quiet_def by (auto simp: nth_list_update)
    then show ?thesis using ts only(2) quiet p by blast
  qed
  then show "stop_inv cb i s'" by blast
  have "wg_threads s' = (wg_threads s)[k := (wg_threads s ! k)\<lparr>wt_pc := pc_of s' k\<rparr>]" using * by blast
  from arg_cong [OF this, of "\<lambda>ts. \<Sum>t\<leftarrow>ts. pc_weight (wt_pc t)"] show "wg_weight s' < wg_weight s"
    using * sum_list_upd [of k "wg_threads s" "\<lambda>t. pc_weight (wt_pc t)" "(wg_threads s ! k)\<lparr>wt_pc := pc_of s' k\<rparr>"]
    by (simp add: wg_weight_def)
qed

interpretation wgt: terminating_system "can_step (wg_step cb)" "stop_inv cb i" wg_weight for cb i
  by unfold_locales (auto simp: can_step_def intro: stop_inv_step)

lemma stop_end:
  assumes inv: "stop_inv cb i s" and stuck: "\<forall>s'. \<not> can_step (wg_step cb) s s'"
  shows "pc_of s i = Idle"
proof -
  have wg: "wg_inv s" "cooperative cb" and i: "i < length (wg_threads s)" using inv by (auto simp: stop_inv_def)
  have none: "wg_step cb k s = None" for k
    using stuck wg_no_panic [OF wg(1), of cb k] by (metis can_step_def go.exhaust option.exhaust)
  have "wg_count s = 0" if wait: "pc_of s i = Stop StopWait"
  proof (rule ccontr)
    assume "wg_count s \<noteq> 0"
    moreover have "(\<Sum>t\<leftarrow>ts. if counted (wt_pc t) then 1 else 0 :: int) = 0" if "\<forall>t \<in> set ts. \<not> counted (wt_pc t)"
      for ts :: "('a, 'b, 'c) wg_thread list" using that by (induction ts) auto
    ultimately obtain k where k: "k < length (wg_threads s)" "counted (pc_of s k)"
      using wg(1) unfolding wg_inv_def count_inv_def by (metis in_set_conv_nth)
    then have "k \<noteq> i" using wait by auto
    then show False using quiet_progress [OF wg(1) k(1) _ wg(2) _ k(2)] inv k(1) stuck by (auto simp: stop_inv_def)
  qed
  moreover have "wg_mutex s = Some i" if "pc_of s i = Stop StopUnlock"
    using that wg(1) i by (auto simp: wg_inv_def lock_inv_def)
  ultimately show ?thesis using inv none [of i] i
    by (auto simp: stop_inv_def wg_step_def mutex_Unlock_def)
qed

text \<open>
  C17: \<^verbatim>\<open>Stop\<close> returns when it can: if the callbacks given to \<^verbatim>\<open>Until\<close> return false once their channel is
  closed, the callbacks given to \<^verbatim>\<open>Run\<close> succeed, no other calls are made, and the loops were started
  before, then from the moment \<^verbatim>\<open>Stop\<close> has closed the channel every execution is finite, and it can end
  only when \<^verbatim>\<open>Stop\<close> has returned and all goroutines have finished.
\<close>

theorem WaitGroup_Stop_returns:
  assumes "wg_reach cb progs s" and "i < length (wg_threads s)" and "pc_of s i = Stop StopWait"
    and "wt_ops (wg_threads s ! i) = []" and "cooperative cb"
    and "\<forall>j < length (wg_threads s). j \<noteq> i \<longrightarrow> quiet cb (wg_threads s ! j)"
    and "\<forall>j < length (wg_threads s). in_until (pc_of s j) \<longrightarrow> wg_done s \<noteq> None"
  shows "\<not> (\<exists>f. f 0 = s \<and> (\<forall>n. can_step (wg_step cb) (f n) (f (Suc n)))) \<and>
    (\<forall>s'. (can_step (wg_step cb))\<^sup>*\<^sup>* s s' \<and> (\<forall>s''. \<not> can_step (wg_step cb) s' s'') \<longrightarrow>
       pc_of s' i = Idle \<and> wg_count s' = 0)"
proof -
  have wg: "wg_inv s" by (rule wg_reach_inv [OF assms(1)])
  then have "wg_mutex s = Some i" using assms(2,3) by (fastforce simp: wg_inv_def lock_inv_def)
  then have "done_closed s" if "wg_done s \<noteq> None"
    using that wg assms(3) by (auto simp: wg_inv_def chan_inv_def done_closed_def stopping_def)
  then have inv: "stop_inv cb i s" using wg assms by (auto simp: stop_inv_def)
  have "pc_of s' i = Idle \<and> wg_count s' = 0"
    if "(can_step (wg_step cb))\<^sup>*\<^sup>* s s'" "\<forall>s''. \<not> can_step (wg_step cb) s' s''" for s'
    using stop_end [OF wgt.inv_steps [OF that(1) inv] that(2)] wgt.inv_steps [OF that(1) inv] by (auto simp: stop_inv_def)
  then show ?thesis using wgt.no_infinite_run [OF inv] by blast
qed

text \<open>An \<^verbatim>\<open>Until\<close>, a \<^verbatim>\<open>Go\<close> and a \<^verbatim>\<open>Run\<close> that succeeds, and then \<^verbatim>\<open>Stop\<close>.\<close>

definition ex_stop :: "(nat, nat, string) wg_pc list list" where
  "ex_stop = [[Until (UntilLock 0), Go (GoCall 0), Run (RunCall 0), Stop StopLock]]"

theorem WaitGroup_Stop_returns_witness:
  "\<exists>s. wg_reach ex_cb ex_stop s \<and> pc_of s 0 = Stop StopWait \<and> wg_count s = 3 \<and>
     \<not> (\<exists>f. f 0 = s \<and> (\<forall>n. can_step (wg_step ex_cb) (f n) (f (Suc n))))"
proof -
  have sched: "schedule_yields (wg_step ex_cb) [0, 0, 0, 0, 0, 0, 0, 0, 0, 0, 0, 0] (wg_init ex_stop)
      (\<lambda>s. wg_count s = 3 \<and> 0 < length (wg_threads s) \<and> pc_of s 0 = Stop StopWait \<and> wt_ops (wg_threads s ! 0) = [] \<and>
         list_all (quiet ex_cb) (tl (wg_threads s)) \<and> wg_done s \<noteq> None)"
    by code_simp
  have "list_all (list_all is_call) ex_stop" by code_simp
  from wg_reach_schedule [OF this sched] obtain s where s: "wg_count s = 3" "wg_reach ex_cb ex_stop s"
      "0 < length (wg_threads s)" "pc_of s 0 = Stop StopWait" "wt_ops (wg_threads s ! 0) = []"
      "list_all (quiet ex_cb) (tl (wg_threads s))" "wg_done s \<noteq> None"
    by blast
  have quiet: "\<forall>j < length (wg_threads s). j \<noteq> 0 \<longrightarrow> quiet ex_cb (wg_threads s ! j)"
  proof (intro allI impI)
    fix j assume "j < length (wg_threads s)" "j \<noteq> 0"
    then show "quiet ex_cb (wg_threads s ! j)" using s(6) by (cases "wg_threads s"; cases j) (auto simp: list_all_length)
  qed
  have "\<forall>j < length (wg_threads s). in_until (pc_of s j) \<longrightarrow> wg_done s \<noteq> None" using s(7) by blast
  moreover have "cooperative ex_cb" by (simp add: cooperative_def ex_cb_def)
  ultimately have "\<not> (\<exists>f. f 0 = s \<and> (\<forall>n. can_step (wg_step ex_cb) (f n) (f (Suc n))))"
    using WaitGroup_Stop_returns [OF s(2-5) _ quiet] by blast
  then show ?thesis using s(1,2,4) by blast
qed

text \<open>
  When \<^verbatim>\<open>Until\<close> and \<^verbatim>\<open>Stop\<close> overlap, \<^verbatim>\<open>Stop\<close> can return before the loop starts, which then runs with a nil
  channel that no later \<^verbatim>\<open>Stop\<close> closes: the second \<^verbatim>\<open>Stop\<close> waits for it.
\<close>

lemma Until_overtaken_by_Stop:
  "schedule_yields (wg_step ex_cb) [0, 0, 0, 0, 1, 1, 1, 1, 1, 1, 0, 1, 1, 1]
     (wg_init [[Until (UntilLock 0)], [Stop StopLock, Stop StopLock]])
     (\<lambda>s. pc_of s 1 = Stop StopWait \<and> pc_of s 2 = Until (UntilBody 0 0) \<and> wg_done s = None \<and>
        list_all (\<lambda>i. wg_step ex_cb i s = None) [0, 1, 2])"
  by code_simp

end
