(* ===== verification/Broadcast.thy ===== *)
theory Broadcast
  imports Go_Sched
begin

text \<open>
  \<^verbatim>\<open>broadcast.go\<close> (\<^verbatim>\<open>v3/syncutil/broadcast.go\<close> has the same code): goroutines that wait for events and
  goroutines that broadcast them. Every client has a buffered channel under its name; \<^verbatim>\<open>Broadcast\<close> sends one
  event to each while it holds the mutex. A schedule entry is a goroutine and a choice: which client
  \<^verbatim>\<open>range\<close> takes next, or which ready case \<^verbatim>\<open>select\<close> takes. The number of broadcasts that have
  completed, and for every channel the events received and the broadcasts before it was made, are
  history variables that no action reads.
\<close>

section \<open>States\<close>

definition channel_capacity :: nat where
  "channel_capacity = 10000"

record bchan =
  ch_len :: nat
  ch_recv :: nat
  ch_reg :: nat

datatype bc_pc =
    Idle
  | BroadcastLock
  | BroadcastSend "addr list"
  | DoneClose
  | WaitLock string
  | WaitRegister string
  | WaitUnlock addr
  | WaitSelect addr
  | ChanLock string nat
  | ChanRegister string nat
  | ChanUnlock addr nat
  | ChanReceive addr nat

record bc_thread =
  bt_pc :: bc_pc
  bt_ops :: "bc_pc list"

record broadcast =
  bc_clients :: "(string, addr) gomap"
  bc_done :: bool
  bc_mutex :: "nat option"
  bc_chans :: "bchan list"
  bc_threads :: "bc_thread list"
  bc_count :: nat

text \<open>Goroutines that each make a sequence of calls; \<open>ChanLock name n\<close> takes the channel and receives \<open>n\<close> events.\<close>

definition NewBroadcaster :: "bc_pc list list \<Rightarrow> broadcast" where
  "NewBroadcaster progs =
     \<lparr>bc_clients = [], bc_done = False, bc_mutex = None, bc_chans = [],
      bc_threads = map (\<lambda>ops. \<lparr>bt_pc = Idle, bt_ops = ops\<rparr>) progs, bc_count = 0\<rparr>"

section \<open>Actions\<close>

definition goto :: "nat \<Rightarrow> bc_pc \<Rightarrow> broadcast \<Rightarrow> broadcast" where
  "goto i pc s = s\<lparr>bc_threads := (bc_threads s)[i := (bc_threads s ! i)\<lparr>bt_pc := pc\<rparr>]\<rparr>"

definition lock :: "nat \<Rightarrow> bc_pc \<Rightarrow> broadcast \<Rightarrow> broadcast go option" where
  "lock i pc s = (case bc_mutex s of None \<Rightarrow> Some (Ret (goto i pc (s\<lparr>bc_mutex := Some i\<rparr>))) | Some _ \<Rightarrow> None)"

definition send :: "addr \<Rightarrow> broadcast \<Rightarrow> broadcast" where
  "send ch s = s\<lparr>bc_chans := (bc_chans s)[ch := (bc_chans s ! ch)\<lparr>ch_len := Suc (ch_len (bc_chans s ! ch))\<rparr>]\<rparr>"

definition receive :: "addr \<Rightarrow> broadcast \<Rightarrow> broadcast" where
  "receive ch s = s\<lparr>bc_chans := (bc_chans s)[ch := (bc_chans s ! ch)\<lparr>ch_len := ch_len (bc_chans s ! ch) - 1,
     ch_recv := Suc (ch_recv (bc_chans s ! ch))\<rparr>]\<rparr>"

text \<open>\<^verbatim>\<open>for _, channel := range b.clients { channel <- struct{}{} }\<close>: a send blocks on a full channel.\<close>

definition broadcast_Broadcast :: "nat \<Rightarrow> nat \<Rightarrow> addr list \<Rightarrow> broadcast \<Rightarrow> broadcast go option" where
  "broadcast_Broadcast i choice left s =
     (if left = [] then Some (Ret (goto i Idle (s\<lparr>bc_mutex := None, bc_count := Suc (bc_count s)\<rparr>)))
      else if choice < length left \<and> ch_len (bc_chans s ! (left ! choice)) < channel_capacity
           then Some (Ret (goto i (BroadcastSend (remove1 (left ! choice) left)) (send (left ! choice) s)))
           else None)"

definition broadcast_Done :: "nat \<Rightarrow> broadcast \<Rightarrow> broadcast go option" where
  "broadcast_Done i s = Some (if bc_done s then Panic CloseOfClosedChannel else Ret (goto i Idle (s\<lparr>bc_done := True\<rparr>)))"

text \<open>The lookup that \<^verbatim>\<open>Wait\<close> and \<^verbatim>\<open>WaitChan\<close> share; a new client gets a new channel.\<close>

definition client_channel :: "string \<Rightarrow> broadcast \<Rightarrow> broadcast \<times> addr" where
  "client_channel name s =
     (case map_of (bc_clients s) name of
        Some ch \<Rightarrow> (s, ch)
      | None \<Rightarrow> (s\<lparr>bc_clients := AList.update name (length (bc_chans s)) (bc_clients s),
                   bc_chans := bc_chans s @ [\<lparr>ch_len = 0, ch_recv = 0, ch_reg = bc_count s\<rparr>]\<rparr>, length (bc_chans s)))"

definition broadcast_Wait :: "nat \<Rightarrow> string \<Rightarrow> broadcast \<Rightarrow> broadcast go option" where
  "broadcast_Wait i name s = (case client_channel name s of (s', ch) \<Rightarrow> Some (Ret (goto i (WaitUnlock ch) s')))"

definition broadcast_Wait_select :: "nat \<Rightarrow> nat \<Rightarrow> addr \<Rightarrow> broadcast \<Rightarrow> broadcast go option" where
  "broadcast_Wait_select i choice ch s =
     (if choice = 0 then if 0 < ch_len (bc_chans s ! ch) then Some (Ret (goto i Idle (receive ch s))) else None
      else if bc_done s then Some (Ret (goto i Idle s)) else None)"

definition broadcast_WaitChan :: "nat \<Rightarrow> string \<Rightarrow> nat \<Rightarrow> broadcast \<Rightarrow> broadcast go option" where
  "broadcast_WaitChan i name n s = (case client_channel name s of (s', ch) \<Rightarrow> Some (Ret (goto i (ChanUnlock ch n) s')))"

text \<open>What the caller of \<^verbatim>\<open>WaitChan\<close> does with the channel: it receives from it, or returns.\<close>

definition chan_receive :: "nat \<Rightarrow> addr \<Rightarrow> nat \<Rightarrow> broadcast \<Rightarrow> broadcast go option" where
  "chan_receive i ch n s =
     (case n of 0 \<Rightarrow> Some (Ret (goto i Idle s))
      | Suc n' \<Rightarrow> if 0 < ch_len (bc_chans s ! ch) then Some (Ret (goto i (ChanReceive ch n') (receive ch s))) else None)"

definition bc_begin :: "nat \<Rightarrow> broadcast \<Rightarrow> broadcast go option" where
  "bc_begin i s =
     (case bt_ops (bc_threads s ! i) of
        [] \<Rightarrow> None
      | pc # ops \<Rightarrow> Some (Ret (s\<lparr>bc_threads := (bc_threads s)[i := \<lparr>bt_pc = pc, bt_ops = ops\<rparr>]\<rparr>)))"

definition bc_step :: "nat \<times> nat \<Rightarrow> broadcast \<Rightarrow> broadcast go option" where
  "bc_step ic s = (case ic of (i, choice) \<Rightarrow>
     if length (bc_threads s) \<le> i then None
     else case bt_pc (bc_threads s ! i) of
            Idle \<Rightarrow> bc_begin i s
          | BroadcastLock \<Rightarrow> lock i (BroadcastSend (map snd (bc_clients s))) s
          | BroadcastSend left \<Rightarrow> broadcast_Broadcast i choice left s
          | DoneClose \<Rightarrow> broadcast_Done i s
          | WaitLock name \<Rightarrow> lock i (WaitRegister name) s
          | WaitRegister name \<Rightarrow> broadcast_Wait i name s
          | WaitUnlock ch \<Rightarrow> Some (Ret (goto i (WaitSelect ch) (s\<lparr>bc_mutex := None\<rparr>)))
          | WaitSelect ch \<Rightarrow> broadcast_Wait_select i choice ch s
          | ChanLock name n \<Rightarrow> lock i (ChanRegister name n) s
          | ChanRegister name n \<Rightarrow> broadcast_WaitChan i name n s
          | ChanUnlock ch n \<Rightarrow> Some (Ret (goto i (ChanReceive ch n) (s\<lparr>bc_mutex := None\<rparr>)))
          | ChanReceive ch n \<Rightarrow> chan_receive i ch n s)"

fun is_call :: "bc_pc \<Rightarrow> bool" where
  "is_call BroadcastLock = True"
| "is_call DoneClose = True"
| "is_call (WaitLock name) = True"
| "is_call (ChanLock name n) = True"
| "is_call pc = False"

definition bc_reach :: "bc_pc list list \<Rightarrow> broadcast \<Rightarrow> bool" where
  "bc_reach progs s \<longleftrightarrow> list_all (list_all is_call) progs \<and> (can_step bc_step)\<^sup>*\<^sup>* (NewBroadcaster progs) s"

section \<open>Invariant\<close>

abbreviation pc_of :: "broadcast \<Rightarrow> nat \<Rightarrow> bc_pc" where
  "pc_of s i \<equiv> bt_pc (bc_threads s ! i)"

fun holds_lock :: "bc_pc \<Rightarrow> bool" where
  "holds_lock (BroadcastSend left) = True"
| "holds_lock (WaitRegister name) = True"
| "holds_lock (WaitUnlock ch) = True"
| "holds_lock (ChanRegister name n) = True"
| "holds_lock (ChanUnlock ch n) = True"
| "holds_lock pc = False"

text \<open>A program counter refers to channels that exist.\<close>

fun pc_ok :: "nat \<Rightarrow> bc_pc \<Rightarrow> bool" where
  "pc_ok n (BroadcastSend left) = (distinct left \<and> (\<forall>ch \<in> set left. ch < n))"
| "pc_ok n (WaitUnlock ch) = (ch < n)"
| "pc_ok n (WaitSelect ch) = (ch < n)"
| "pc_ok n (ChanUnlock ch k) = (ch < n)"
| "pc_ok n (ChanReceive ch k) = (ch < n)"
| "pc_ok n pc = True"

definition threads_inv :: "broadcast \<Rightarrow> bool" where
  "threads_inv s \<longleftrightarrow> (\<forall>i < length (bc_threads s).
     (holds_lock (pc_of s i) \<longleftrightarrow> bc_mutex s = Some i) \<and> pc_ok (length (bc_chans s)) (pc_of s i) \<and>
     list_all is_call (bt_ops (bc_threads s ! i))) \<and>
   (\<forall>i. bc_mutex s = Some i \<longrightarrow> i < length (bc_threads s))"

definition clients_inv :: "broadcast \<Rightarrow> bool" where
  "clients_inv s \<longleftrightarrow> gomap_wf (bc_clients s) \<and> map snd (bc_clients s) = [0..<length (bc_chans s)]"

text \<open>Whether the broadcast in progress has already sent to the channel.\<close>

definition sent_now :: "broadcast \<Rightarrow> addr \<Rightarrow> bool" where
  "sent_now s ch \<longleftrightarrow> (\<exists>i left. bc_mutex s = Some i \<and> pc_of s i = BroadcastSend left \<and> ch \<notin> set left)"

definition events_inv :: "broadcast \<Rightarrow> bool" where
  "events_inv s \<longleftrightarrow> (\<forall>ch < length (bc_chans s).
     ch_recv (bc_chans s ! ch) + ch_len (bc_chans s ! ch) + ch_reg (bc_chans s ! ch) = bc_count s + (if sent_now s ch then 1 else 0) \<and>
     ch_len (bc_chans s ! ch) \<le> channel_capacity)"

definition bc_inv :: "broadcast \<Rightarrow> bool" where
  "bc_inv s \<longleftrightarrow> threads_inv s \<and> clients_inv s \<and> events_inv s"

lemmas bc_action_defs = goto_def lock_def send_def receive_def broadcast_Broadcast_def broadcast_Done_def client_channel_def
  broadcast_Wait_def broadcast_Wait_select_def broadcast_WaitChan_def chan_receive_def bc_begin_def

lemma bc_call_facts: "is_call pc \<Longrightarrow> \<not> holds_lock pc \<and> pc_ok n pc \<and> (\<forall>left. pc \<noteq> BroadcastSend left)"
  by (cases pc) auto

lemma pc_ok_mono: "pc_ok n pc \<Longrightarrow> n \<le> m \<Longrightarrow> pc_ok m pc"
  by (cases pc) auto

lemma alist_update_new: "k \<notin> fst ` set m \<Longrightarrow> AList.update k v m = m @ [(k, v)]"
  by (induction m) auto

lemma client_channel_cases:
  assumes "clients_inv s" and "client_channel name s = (s', ch)"
  shows "clients_inv s' \<and> ch < length (bc_chans s') \<and> bc_threads s' = bc_threads s \<and> bc_mutex s' = bc_mutex s \<and>
    bc_count s' = bc_count s \<and> map_of (bc_clients s') name = Some ch \<and>
    (s' = s \<or> bc_chans s' = bc_chans s @ [\<lparr>ch_len = 0, ch_recv = 0, ch_reg = bc_count s\<rparr>])"
proof (cases "map_of (bc_clients s) name")
  case None
  then have "name \<notin> fst ` set (bc_clients s)" by (simp add: map_of_eq_None_iff)
  with None assms show ?thesis
    by (auto simp: client_channel_def clients_inv_def alist_update_new gomap_wf_def map_add_def split: option.splits)
next
  case (Some ch')
  then have "ch' \<in> set (map snd (bc_clients s))" by (auto dest!: map_of_SomeD intro: image_eqI [where x = "(name, ch')"])
  then have "ch' < length (bc_chans s)" using assms(1) unfolding clients_inv_def by (metis atLeastLessThan_iff set_upt)
  with Some assms show ?thesis by (auto simp: client_channel_def)
qed

text \<open>What an action of goroutine \<open>i\<close> does to the goroutines and the mutex.\<close>

definition bc_shape :: "nat \<Rightarrow> broadcast \<Rightarrow> broadcast \<Rightarrow> bool" where
  "bc_shape i s s' \<longleftrightarrow> i < length (bc_threads s) \<and> length (bc_threads s') = length (bc_threads s) \<and>
     (\<forall>j. j \<noteq> i \<longrightarrow> bc_threads s' ! j = bc_threads s ! j) \<and>
     bc_mutex s' = (if holds_lock (pc_of s' i) then if holds_lock (pc_of s i) then bc_mutex s else Some i
                    else if holds_lock (pc_of s i) then None else bc_mutex s) \<and>
     (holds_lock (pc_of s' i) \<and> \<not> holds_lock (pc_of s i) \<longrightarrow> bc_mutex s = None) \<and>
     length (bc_chans s) \<le> length (bc_chans s') \<and> pc_ok (length (bc_chans s')) (pc_of s' i) \<and>
     list_all is_call (bt_ops (bc_threads s' ! i))"

lemma bc_step_shape:
  assumes inv: "threads_inv s" "clients_inv s" and step: "bc_step (i, c) s = Some (Ret s')"
  shows "bc_shape i s s' \<and> clients_inv s'"
proof -
  have i: "i < length (bc_threads s)" using step by (auto simp: bc_step_def split: if_splits)
  have ops: "list_all is_call (bt_ops (bc_threads s ! i))" and ok: "pc_ok (length (bc_chans s)) (pc_of s i)"
    using inv(1) i by (auto simp: threads_inv_def)
  have snds: "distinct (map snd (bc_clients s)) \<and> (\<forall>ch \<in> set (map snd (bc_clients s)). ch < length (bc_chans s))"
    using inv(2) by (simp add: clients_inv_def)
  show ?thesis
  proof (cases "pc_of s i")
    case Idle
    then show ?thesis using step i ops inv(2) bc_call_facts
      by (auto simp: bc_step_def bc_begin_def bc_shape_def clients_inv_def split: list.splits)
  next
    case (BroadcastSend left)
    then show ?thesis using step i ops ok inv(2)
      by (auto simp: bc_step_def broadcast_Broadcast_def goto_def send_def bc_shape_def clients_inv_def
          dest: notin_set_remove1 [rotated] split: if_splits intro: set_mp [OF set_remove1_subset])
  next
    case (WaitRegister name)
    obtain t ch where "client_channel name s = (t, ch)" by fastforce
    then show ?thesis using step i ops ok WaitRegister client_channel_cases [OF inv(2), of name t ch]
      by (auto simp: bc_step_def broadcast_Wait_def goto_def bc_shape_def clients_inv_def)
  next
    case (ChanRegister name n)
    obtain t ch where "client_channel name s = (t, ch)" by fastforce
    then show ?thesis using step i ops ok ChanRegister client_channel_cases [OF inv(2), of name t ch]
      by (auto simp: bc_step_def broadcast_WaitChan_def goto_def bc_shape_def clients_inv_def)
  qed (use step i ops ok inv(2) snds in
      \<open>auto simp: bc_step_def lock_def goto_def receive_def broadcast_Done_def broadcast_Wait_select_def chan_receive_def
        bc_shape_def clients_inv_def split: option.splits if_splits nat.splits\<close>)
qed

lemma threads_inv_step:
  assumes inv: "threads_inv s" and shape: "bc_shape i s s'"
  shows "threads_inv s'"
proof -
  have old: "(holds_lock (pc_of s j) \<longleftrightarrow> bc_mutex s = Some j)" "pc_ok (length (bc_chans s)) (pc_of s j)"
    "list_all is_call (bt_ops (bc_threads s ! j))" if "j < length (bc_threads s)" for j
    using inv that by (auto simp: threads_inv_def)
  have "(holds_lock (pc_of s' j) \<longleftrightarrow> bc_mutex s' = Some j) \<and> pc_ok (length (bc_chans s')) (pc_of s' j) \<and>
      list_all is_call (bt_ops (bc_threads s' ! j))" if "j < length (bc_threads s)" for j
  proof (cases "j = i")
    case True
    then show ?thesis using shape old(1) [OF that] unfolding bc_shape_def by simp
  next
    case False
    then have same: "bc_threads s' ! j = bc_threads s ! j" and len: "length (bc_chans s) \<le> length (bc_chans s')"
      and i: "i < length (bc_threads s)" using shape unfolding bc_shape_def by blast+
    have "bc_mutex s' = (if holds_lock (pc_of s' i) then if holds_lock (pc_of s i) then bc_mutex s else Some i
        else if holds_lock (pc_of s i) then None else bc_mutex s)"
      "holds_lock (pc_of s' i) \<and> \<not> holds_lock (pc_of s i) \<longrightarrow> bc_mutex s = None"
      using shape unfolding bc_shape_def by blast+
    then have "bc_mutex s' = Some j \<longleftrightarrow> bc_mutex s = Some j" using False old(1) [OF i] by (auto split: if_splits)
    then show ?thesis using old [OF that] pc_ok_mono [OF _ len] same by simp
  qed
  moreover have "j < length (bc_threads s)" if "bc_mutex s' = Some j" for j
    using that inv shape by (auto simp: threads_inv_def bc_shape_def split: if_splits)
  moreover have len: "length (bc_threads s') = length (bc_threads s)" using shape unfolding bc_shape_def by blast
  ultimately show ?thesis unfolding threads_inv_def len by blast
qed

lemma sent_now_iff:
  assumes "threads_inv s"
  shows "sent_now s ch \<longleftrightarrow> (\<exists>i < length (bc_threads s). \<exists>left. pc_of s i = BroadcastSend left \<and> ch \<notin> set left)"
proof
  show "sent_now s ch \<Longrightarrow> \<exists>i < length (bc_threads s). \<exists>left. pc_of s i = BroadcastSend left \<and> ch \<notin> set left"
    using assms unfolding sent_now_def threads_inv_def by blast
  assume "\<exists>i < length (bc_threads s). \<exists>left. pc_of s i = BroadcastSend left \<and> ch \<notin> set left"
  then obtain i left where i: "i < length (bc_threads s)" "pc_of s i = BroadcastSend left" "ch \<notin> set left" by blast
  then have "bc_mutex s = Some i" using assms unfolding threads_inv_def by (metis holds_lock.simps(1))
  then show "sent_now s ch" using i unfolding sent_now_def by blast
qed

definition is_sending :: "bc_pc \<Rightarrow> bool" where
  "is_sending pc \<longleftrightarrow> (\<exists>left. pc = BroadcastSend left)"

lemma sent_now_other:
  assumes "threads_inv s" "threads_inv s'" "bc_shape i s s'" "\<not> is_sending (pc_of s i)" "\<not> is_sending (pc_of s' i)"
  shows "sent_now s' ch = sent_now s ch"
proof -
  have len: "length (bc_threads s') = length (bc_threads s)" and same: "j \<noteq> i \<Longrightarrow> bc_threads s' ! j = bc_threads s ! j" for j
    using assms(3) unfolding bc_shape_def by blast+
  have "(\<exists>left. pc_of s' j = BroadcastSend left \<and> ch \<notin> set left) \<longleftrightarrow> (\<exists>left. pc_of s j = BroadcastSend left \<and> ch \<notin> set left)" for j
    using same [of j] assms(4,5) unfolding is_sending_def by (cases "j = i") auto
  then show ?thesis unfolding sent_now_iff [OF assms(1)] sent_now_iff [OF assms(2)] len by blast
qed

lemma sent_now_holder:
  assumes "threads_inv s" "i < length (bc_threads s)" "pc_of s i = BroadcastSend left"
  shows "sent_now s ch \<longleftrightarrow> ch \<notin> set left"
proof -
  have "bc_mutex s = Some i" using assms unfolding threads_inv_def by (metis holds_lock.simps(1))
  then show ?thesis using assms(3) by (simp add: sent_now_def)
qed

lemma not_sent_now: "bc_mutex s = None \<Longrightarrow> \<not> sent_now s ch"
  by (simp add: sent_now_def)

lemma events_inv_other:
  assumes ev: "events_inv s" and same: "\<And>ch. sent_now s' ch = sent_now s ch" and cnt: "bc_count s' = bc_count s"
    and chans: "bc_chans s' = bc_chans s \<or> bc_chans s' = bc_chans s @ [\<lparr>ch_len = 0, ch_recv = 0, ch_reg = bc_count s\<rparr>] \<and> \<not> sent_now s (length (bc_chans s)) \<or>
      (\<exists>ch. bc_chans s' = bc_chans (receive ch s) \<and> 0 < ch_len (bc_chans s ! ch) \<and> ch < length (bc_chans s))"
  shows "events_inv s'"
  using chans
proof (elim disjE exE conjE)
  assume "bc_chans s' = bc_chans s"
  then show ?thesis using ev same cnt unfolding events_inv_def by simp
next
  assume "bc_chans s' = bc_chans s @ [\<lparr>ch_len = 0, ch_recv = 0, ch_reg = bc_count s\<rparr>]" "\<not> sent_now s (length (bc_chans s))"
  then show ?thesis using ev same cnt unfolding events_inv_def by (auto simp: nth_append less_Suc_eq)
next
  fix ch assume "bc_chans s' = bc_chans (receive ch s)" "0 < ch_len (bc_chans s ! ch)" "ch < length (bc_chans s)"
  then show ?thesis using ev same cnt unfolding events_inv_def receive_def by (auto simp: nth_list_update)
qed

lemma events_inv_step:
  assumes inv: "bc_inv s" and step: "bc_step (i, c) s = Some (Ret s')" and shape: "bc_shape i s s'" and ts: "threads_inv s'"
  shows "events_inv s'"
proof -
  have inv': "threads_inv s" "clients_inv s" "events_inv s" using inv by (auto simp: bc_inv_def)
  have i: "i < length (bc_threads s)" "i < length (bc_threads s')" using shape unfolding bc_shape_def by auto
  have ok: "pc_ok (length (bc_chans s)) (pc_of s i)" using inv'(1) i by (auto simp: threads_inv_def)
  show ?thesis
  proof (cases "is_sending (pc_of s i)")
    case True
    then obtain left where left: "pc_of s i = BroadcastSend left" by (auto simp: is_sending_def)
    have sent: "sent_now s ch \<longleftrightarrow> ch \<notin> set left" for ch by (rule sent_now_holder [OF inv'(1) i(1) left])
    show ?thesis
    proof (cases "left = []")
      case True
      then have s': "bc_chans s' = bc_chans s" "bc_count s' = Suc (bc_count s)" "bc_mutex s' = None"
        using step i(1) left by (auto simp: bc_step_def broadcast_Broadcast_def goto_def)
      then show ?thesis using inv'(3) True sent not_sent_now [OF s'(3)] by (simp add: events_inv_def)
    next
      case False
      then have *: "c < length left" "ch_len (bc_chans s ! (left ! c)) < channel_capacity"
        "s' = goto i (BroadcastSend (remove1 (left ! c) left)) (send (left ! c) s)"
        using step i(1) left by (auto simp: bc_step_def broadcast_Broadcast_def split: if_splits)
      have "pc_of s' i = BroadcastSend (remove1 (left ! c) left)" using *(3) i(1) by (simp add: goto_def send_def)
      then have sent': "sent_now s' ch \<longleftrightarrow> ch \<notin> set (remove1 (left ! c) left)" for ch by (rule sent_now_holder [OF ts i(2)])
      have "left ! c \<in> set left" "distinct left" "left ! c < length (bc_chans s)" using *(1) ok left by auto
      then show ?thesis using inv'(3) * sent sent' by (auto simp: events_inv_def goto_def send_def nth_list_update)
    qed
  next
    case False
    show ?thesis
    proof (cases "is_sending (pc_of s' i)")
      case True
      then obtain left where left: "pc_of s' i = BroadcastSend left" by (auto simp: is_sending_def)
      then have "bc_chans s' = bc_chans s" "bc_count s' = bc_count s" "bc_mutex s = None" "left = map snd (bc_clients s)"
        using step i(1) False inv'(1) bc_call_facts
        by (cases "pc_of s i"; auto simp: bc_step_def bc_action_defs is_sending_def threads_inv_def
            split: option.splits if_splits list.splits nat.splits)+
      then show ?thesis using inv'(2,3) sent_now_holder [OF ts i(2) left] not_sent_now [of s]
        by (auto simp: events_inv_def clients_inv_def)
    next
      case nsend: False
      have "bc_count s' = bc_count s \<and> (bc_chans s' = bc_chans s \<or>
          bc_chans s' = bc_chans s @ [\<lparr>ch_len = 0, ch_recv = 0, ch_reg = bc_count s\<rparr>] \<and> holds_lock (pc_of s i) \<or>
          (\<exists>ch. bc_chans s' = bc_chans (receive ch s) \<and> 0 < ch_len (bc_chans s ! ch) \<and> ch < length (bc_chans s)))"
      proof (cases "pc_of s i")
        case (WaitSelect ch)
        then show ?thesis using step i(1) ok by (auto simp: bc_step_def bc_action_defs split: if_splits)
      next
        case (ChanReceive ch n)
        then show ?thesis using step i(1) ok by (auto simp: bc_step_def bc_action_defs split: if_splits nat.splits)
      qed (use step i(1) False in \<open>auto simp: bc_step_def bc_action_defs is_sending_def split: option.splits if_splits list.splits\<close>)
      moreover have "\<not> sent_now s ch" if "holds_lock (pc_of s i)" for ch
        using that False inv'(1) i(1) by (auto simp: sent_now_def threads_inv_def is_sending_def)
      ultimately show ?thesis
        using events_inv_other [OF inv'(3) sent_now_other [OF inv'(1) ts shape False nsend]] by blast
    qed
  qed
qed

interpretation bcs: invariant_system "can_step bc_step" bc_inv
proof
  fix s s' assume inv: "bc_inv s" and "can_step bc_step s s'"
  then obtain i c where step: "bc_step (i, c) s = Some (Ret s')" by (auto simp: can_step_def)
  have shape: "bc_shape i s s'" "clients_inv s'" using bc_step_shape [OF _ _ step] inv by (auto simp: bc_inv_def)
  have ts: "threads_inv s'" using threads_inv_step [OF _ shape(1)] inv by (auto simp: bc_inv_def)
  show "bc_inv s'" using events_inv_step [OF inv step shape(1) ts] ts shape(2) by (simp add: bc_inv_def)
qed

lemma bc_inv_init: "list_all (list_all is_call) progs \<Longrightarrow> bc_inv (NewBroadcaster progs)"
  by (auto simp: bc_inv_def NewBroadcaster_def threads_inv_def clients_inv_def events_inv_def list_all_length)

lemma bc_reach_inv: "bc_reach progs s \<Longrightarrow> bc_inv s"
  unfolding bc_reach_def using bcs.inv_steps bc_inv_init by blast

section \<open>Delivery\<close>

text \<open>
  C25: every client gets every event: when no broadcast is in progress, the channel of a client has been
  sent exactly one event for each \<^verbatim>\<open>Broadcast\<close> since the client first waited, each either received or
  still in the channel, which holds at most 10000, and no two clients share a channel.
\<close>

theorem Broadcast_delivers:
  assumes "bc_reach progs s" and "bc_mutex s = None" and "map_of (bc_clients s) name = Some ch"
  shows "ch_recv (bc_chans s ! ch) + ch_len (bc_chans s ! ch) = bc_count s - ch_reg (bc_chans s ! ch) \<and>
    ch_reg (bc_chans s ! ch) \<le> bc_count s \<and> ch_len (bc_chans s ! ch) \<le> 10000 \<and>
    (map_of (bc_clients s) name' = Some ch \<longrightarrow> name' = name)"
proof -
  have inv: "bc_inv s" by (rule bc_reach_inv [OF assms(1)])
  have snds: "map snd (bc_clients s) = [0..<length (bc_chans s)]" and wf: "gomap_wf (bc_clients s)"
    using inv by (auto simp: bc_inv_def clients_inv_def)
  have mem: "(name, ch) \<in> set (bc_clients s)" by (rule map_of_SomeD [OF assms(3)])
  then have "ch \<in> set (map snd (bc_clients s))" by force
  then have "ch < length (bc_chans s)" using snds by (metis atLeastLessThan_iff set_upt)
  moreover have inj: "inj_on snd (set (bc_clients s))" using distinct_upt [of 0 "length (bc_chans s)"] snds by (metis distinct_map)
  have "name' = name" if "map_of (bc_clients s) name' = Some ch"
    using mem map_of_SomeD [OF that] inj_onD [OF inj, of "(name', ch)" "(name, ch)"] by simp
  ultimately show ?thesis using inv not_sent_now [OF assms(2)] by (auto simp: bc_inv_def events_inv_def channel_capacity_def)
qed

lemma bc_reach_schedule:
  "list_all (list_all is_call) progs \<Longrightarrow> schedule_yields bc_step is (NewBroadcaster progs) P \<Longrightarrow> \<exists>s. bc_reach progs s \<and> P s"
  unfolding bc_reach_def by (simp add: schedule_yields_state)

theorem Broadcast_delivers_witness:
  "\<exists>s. bc_reach [[WaitLock ''a''], [BroadcastLock, BroadcastLock]] s \<and> bc_count s = 2 \<and>
     ch_recv (bc_chans s ! 0) + ch_len (bc_chans s ! 0) = bc_count s - ch_reg (bc_chans s ! 0)"
proof -
  have sched: "schedule_yields bc_step
      [(0, 0), (0, 0), (0, 0), (0, 0), (1, 0), (1, 0), (1, 0), (1, 0), (0, 0), (1, 0), (1, 0), (1, 0), (1, 0)]
      (NewBroadcaster [[WaitLock ''a''], [BroadcastLock, BroadcastLock]])
      (\<lambda>s. bc_mutex s = None \<and> map_of (bc_clients s) ''a'' = Some 0 \<and> bc_count s = 2)"
    by code_simp
  have "list_all (list_all is_call) [[WaitLock ''a''], [BroadcastLock, BroadcastLock]]" by code_simp
  from bc_reach_schedule [OF this sched] obtain s
    where s: "bc_reach [[WaitLock ''a''], [BroadcastLock, BroadcastLock]] s" "bc_mutex s = None"
      "map_of (bc_clients s) ''a'' = Some 0" "bc_count s = 2" by blast
  from Broadcast_delivers [OF s(1-3)] show ?thesis using s(1,4) by blast
qed

section \<open>Deadlock\<close>

fun reads_from :: "addr \<Rightarrow> bc_pc \<Rightarrow> bool" where
  "reads_from ch (WaitSelect ch') = (ch' = ch)"
| "reads_from ch (ChanReceive ch' n) = (ch' = ch)"
| "reads_from ch pc = False"

definition bc_stuck :: "nat \<Rightarrow> addr \<Rightarrow> broadcast \<Rightarrow> bool" where
  "bc_stuck i ch s \<longleftrightarrow> bc_inv s \<and> i < length (bc_threads s) \<and> ch_len (bc_chans s ! ch) = channel_capacity \<and>
     (\<exists>left. pc_of s i = BroadcastSend left \<and> ch \<in> set left) \<and>
     (\<forall>j < length (bc_threads s). \<not> reads_from ch (pc_of s j))"

lemma bc_stuck_step:
  assumes stuck: "bc_stuck i ch s" and step: "bc_step (k, c) s = Some (Ret s')" and inv': "bc_inv s'" and shape: "bc_shape k s s'"
  shows "bc_stuck i ch s'"
proof -
  obtain left where left: "pc_of s i = BroadcastSend left" "ch \<in> set left" and i: "i < length (bc_threads s)"
    and full: "ch_len (bc_chans s ! ch) = channel_capacity" and inv: "bc_inv s"
    and quiet: "\<And>j. j < length (bc_threads s) \<Longrightarrow> \<not> reads_from ch (pc_of s j)"
    using stuck unfolding bc_stuck_def by blast
  have len: "length (bc_threads s') = length (bc_threads s)" and k: "k < length (bc_threads s)"
    and same: "\<And>j. j \<noteq> k \<Longrightarrow> bc_threads s' ! j = bc_threads s ! j" using shape unfolding bc_shape_def by blast+
  have lock: "holds_lock (pc_of s j) \<longleftrightarrow> bc_mutex s = Some j" if "j < length (bc_threads s)" for j
    using inv that by (auto simp: bc_inv_def threads_inv_def)
  have ops: "list_all is_call (bt_ops (bc_threads s ! k))" and ok: "pc_ok (length (bc_chans s)) (pc_of s i)"
    using inv k i by (auto simp: bc_inv_def threads_inv_def)
  have ch: "ch < length (bc_chans s)" using ok left by auto
  have mutex: "bc_mutex s = Some i" using lock [OF i] left(1) by simp
  have self: "\<not> reads_from ch (pc_of s' k) \<and> ch_len (bc_chans s' ! ch) = channel_capacity \<and>
      (k = i \<longrightarrow> (\<exists>left. pc_of s' i = BroadcastSend left \<and> ch \<in> set left))"
  proof (cases "k = i")
    case True
    then have "left ! c \<noteq> ch \<and> c < length left \<and> s' = goto i (BroadcastSend (remove1 (left ! c) left)) (send (left ! c) s)"
      using step left full i by (auto simp: bc_step_def broadcast_Broadcast_def split: if_splits)
    then show ?thesis using True left i full by (auto simp: goto_def send_def)
  next
    case False
    then have "\<not> holds_lock (pc_of s k)" using lock [OF k] mutex by simp
    then show ?thesis using step k ops False mutex quiet [OF k] full ch
      by (cases "pc_of s k") (auto simp: bc_step_def bc_action_defs nth_list_update split: if_splits list.splits nat.splits elim: reads_from.elims)
  qed
  have "\<not> reads_from ch (pc_of s' j)" if "j < length (bc_threads s')" for j
    using self same [of j] quiet [of j] len that by (cases "j = k") auto
  moreover have "\<exists>left. pc_of s' i = BroadcastSend left \<and> ch \<in> set left"
    using self same [of i] left by (cases "k = i") auto
  ultimately show ?thesis using self inv' i len unfolding bc_stuck_def by auto
qed

interpretation bcd: invariant_system "can_step bc_step" "bc_stuck i ch" for i ch
proof
  fix i ch s s' assume stuck: "bc_stuck i ch s" and "can_step bc_step s s'"
  then obtain k c where step: "bc_step (k, c) s = Some (Ret s')" by (auto simp: can_step_def)
  have inv: "bc_inv s" using stuck by (simp add: bc_stuck_def)
  have "bc_inv s'" using bcs.inv_step [OF inv] step by (auto simp: can_step_def)
  moreover have "bc_shape k s s'" using bc_step_shape [OF _ _ step] inv by (auto simp: bc_inv_def)
  ultimately show "bc_stuck i ch s'" using bc_stuck_step [OF stuck step] by blast
qed

text \<open>
  \<^verbatim>\<open>Broadcast\<close> can deadlock with the goroutines it waits for: when it reaches a client whose channel is
  full and no goroutine is receiving from that channel at the moment, it never returns, whatever the
  goroutines do; it holds the mutex that every call of \<^verbatim>\<open>Wait\<close> and \<^verbatim>\<open>WaitChan\<close> takes before it receives.
\<close>

theorem Broadcast_deadlock:
  assumes "bc_reach progs s" and "i < length (bc_threads s)" and "pc_of s i = BroadcastSend left" and "ch \<in> set left"
    and "ch_len (bc_chans s ! ch) = channel_capacity" and "\<forall>j < length (bc_threads s). \<not> reads_from ch (pc_of s j)"
    and "(can_step bc_step)\<^sup>*\<^sup>* s s'"
  shows "\<exists>left'. pc_of s' i = BroadcastSend left' \<and> ch \<in> set left'"
proof -
  have "bc_stuck i ch s" using assms bc_reach_inv [OF assms(1)] by (simp add: bc_stuck_def)
  then have "bc_stuck i ch s'" by (rule bcd.inv_steps [OF assms(7)])
  then show ?thesis by (simp add: bc_stuck_def)
qed

text \<open>One client, and one goroutine that broadcasts again and again.\<close>

definition bc_filled :: "nat \<Rightarrow> nat \<Rightarrow> broadcast" where
  "bc_filled m k = \<lparr>bc_clients = [(''a'', 0)], bc_done = False, bc_mutex = None,
     bc_chans = [\<lparr>ch_len = m, ch_recv = 0, ch_reg = 0\<rparr>],
     bc_threads = [\<lparr>bt_pc = Idle, bt_ops = replicate k BroadcastLock\<rparr>, \<lparr>bt_pc = Idle, bt_ops = [WaitLock ''a'']\<rparr>], bc_count = m\<rparr>"

lemma bc_filled_step:
  assumes "m < channel_capacity"
  shows "(can_step bc_step)\<^sup>*\<^sup>* (bc_filled m (Suc k)) (bc_filled (Suc m) k)"
  by (rule run_schedule_steps [of _ "[(0, 0), (0, 0), (0, 0), (0, 0)]"])
    (simp add: bc_filled_def bc_step_def bc_action_defs assms)

lemma bc_filled_steps:
  "m + n \<le> channel_capacity \<Longrightarrow> (can_step bc_step)\<^sup>*\<^sup>* (bc_filled m (n + k)) (bc_filled (m + n) k)"
proof (induction n arbitrary: m)
  case (Suc n)
  have "(can_step bc_step)\<^sup>*\<^sup>* (bc_filled m (Suc (n + k))) (bc_filled (Suc m) (n + k))"
    using Suc.prems by (intro bc_filled_step) simp
  then show ?case using Suc.IH [of "Suc m"] Suc.prems by (simp add: rtranclp_trans)
qed simp

theorem Broadcast_deadlock_witness:
  "\<exists>s. bc_reach [ChanLock ''a'' 0 # replicate (channel_capacity + 1) BroadcastLock, [WaitLock ''a'']] s \<and>
     (\<forall>s'. (can_step bc_step)\<^sup>*\<^sup>* s s' \<longrightarrow> (\<exists>left. pc_of s' 0 = BroadcastSend left \<and> 0 \<in> set left))"
proof -
  let ?progs = "[ChanLock ''a'' 0 # replicate (channel_capacity + 1) BroadcastLock, [WaitLock ''a'']]"
  let ?s = "(bc_filled channel_capacity 0)\<lparr>bc_mutex := Some 0,
     bc_threads := [\<lparr>bt_pc = BroadcastSend [0], bt_ops = []\<rparr>, \<lparr>bt_pc = Idle, bt_ops = [WaitLock ''a'']\<rparr>]\<rparr>"
  have "(can_step bc_step)\<^sup>*\<^sup>* (NewBroadcaster ?progs) (bc_filled 0 (channel_capacity + 1))"
    by (rule run_schedule_steps [of _ "[(0, 0), (0, 0), (0, 0), (0, 0), (0, 0)]"])
      (simp add: bc_filled_def bc_step_def bc_action_defs NewBroadcaster_def)
  also have "(can_step bc_step)\<^sup>*\<^sup>* (bc_filled 0 (channel_capacity + 1)) (bc_filled (0 + channel_capacity) 1)"
    by (rule bc_filled_steps) simp
  also have "(can_step bc_step)\<^sup>*\<^sup>* (bc_filled (0 + channel_capacity) 1) ?s"
    by (rule run_schedule_steps [of _ "[(0, 0), (0, 0)]"]) (simp add: bc_filled_def bc_step_def bc_action_defs)
  finally have reach: "bc_reach ?progs ?s" by (simp add: bc_reach_def list_all_iff)
  have ts: "0 < length (bc_threads ?s)" "pc_of ?s 0 = BroadcastSend [0]" "0 \<in> set [0 :: nat]"
    "ch_len (bc_chans ?s ! 0) = channel_capacity" "\<forall>j < length (bc_threads ?s). \<not> reads_from 0 (pc_of ?s j)"
    by (auto simp: bc_filled_def less_Suc_eq)
  show ?thesis using reach Broadcast_deadlock [OF reach ts] by blast
qed

end
