(* ===== verification/Set_Default.thy ===== *)
theory Set_Default
  imports Go_Prelude
begin

text \<open>
  \<^verbatim>\<open>set_default.go\<close> (\<^verbatim>\<open>v3/setter/setter.go\<close> differs in the texts of two panics): assign the first value that is
  not zero. A \<^verbatim>\<open>reflect.Value\<close> is its type's name and a payload whose constructor is its kind; variables
  live in a store, and a pointer is the address of its variable. Whether a value of one type can be
  assigned to a variable of another is a parameter \<open>assignable\<close> of the definitions.
\<close>

section \<open>Values\<close>

text \<open>
  \<open>FloatVal\<close> holds the IEEE bits of the 64-bit number that \<^verbatim>\<open>Float()\<close> returns. \<open>OtherVal\<close> stands for the kinds
  that the switch does not name: structs, functions, channels, complex numbers, unsafe pointers.
\<close>

datatype payload =
    BoolVal bool
  | IntVal int
  | UintVal nat
  | FloatVal nat
  | StringVal string
  | ArrayVal "payload list"
  | InterfaceVal "(string \<times> payload) option"
  | MapVal "addr option"
  | PtrVal "addr option"
  | SliceVal "addr option"
  | OtherVal string nat

type_synonym rvalue = "string \<times> payload"

type_synonym store = "addr \<Rightarrow> rvalue"

text \<open>
  An argument of type \<^verbatim>\<open>interface{}\<close> is nil or a value with its dynamic type, which is not an interface;
  \<^verbatim>\<open>reflect.ValueOf\<close> of nil is the invalid value, \<open>None\<close>.
\<close>

definition ValueOf :: "rvalue option \<Rightarrow> rvalue option" where
  "ValueOf v = v"

definition Float_is_zero :: "nat \<Rightarrow> bool" where
  "Float_is_zero bits \<longleftrightarrow> bits = 0 \<or> bits = 2 ^ 63"

definition IsZeroValue :: "rvalue option \<Rightarrow> bool" where
  "IsZeroValue value = (case value of
      None \<Rightarrow> False
    | Some (_, p) \<Rightarrow> (case p of
          ArrayVal xs \<Rightarrow> length xs = 0
        | StringVal str \<Rightarrow> length str = 0
        | BoolVal b \<Rightarrow> \<not> b
        | IntVal n \<Rightarrow> n = 0
        | UintVal n \<Rightarrow> n = 0
        | FloatVal bits \<Rightarrow> Float_is_zero bits
        | InterfaceVal v \<Rightarrow> v = None
        | MapVal a \<Rightarrow> a = None
        | PtrVal a \<Rightarrow> a = None
        | SliceVal a \<Rightarrow> a = None
        | OtherVal _ _ \<Rightarrow> False))"

definition IsZero :: "rvalue option \<Rightarrow> bool" where
  "IsZero value = IsZeroValue (ValueOf value)"

section \<open>Assignment\<close>

text \<open>\<^verbatim>\<open>d.Set(v)\<close> on the variable at an address: the variable keeps its static type.\<close>

definition Value_Set :: "(string \<Rightarrow> string \<Rightarrow> bool) \<Rightarrow> store \<Rightarrow> addr \<Rightarrow> rvalue option \<Rightarrow> store go" where
  "Value_Set assignable st a v = (case v of
      None \<Rightarrow> Panic (UserPanic ''reflect: call of reflect.Value.Set on zero Value'')
    | Some (vt, vp) \<Rightarrow>
        (case st a of (dt, dp) \<Rightarrow>
           if \<not> assignable vt dt then Panic (UserPanic ''reflect.Set: value of wrong type'')
           else Ret (st(a := (dt, case dp of InterfaceVal _ \<Rightarrow> InterfaceVal (Some (vt, vp)) | _ \<Rightarrow> vp)))))"

text \<open>The loop of both functions: \<open>None\<close> when every value is zero.\<close>

primrec first_nonzero :: "rvalue option list \<Rightarrow> rvalue option option" where
  "first_nonzero [] = None"
| "first_nonzero (value # values) = (if \<not> IsZeroValue (ValueOf value) then Some (ValueOf value) else first_nonzero values)"

definition assign_first :: "(string \<Rightarrow> string \<Rightarrow> bool) \<Rightarrow> store \<Rightarrow> addr \<Rightarrow> rvalue option list \<Rightarrow> store go" where
  "assign_first assignable st a values =
     (case first_nonzero values of None \<Rightarrow> Ret st | Some v \<Rightarrow> Value_Set assignable st a v)"

text \<open>
  \<^verbatim>\<open>reflect.Indirect\<close> of a nil pointer is the invalid value, which is not zero: the call does nothing, and
  with \<^verbatim>\<open>SetOverride\<close> the first non-zero value is set on it, which panics.
\<close>

definition SetDefault :: "(string \<Rightarrow> string \<Rightarrow> bool) \<Rightarrow> store \<Rightarrow> rvalue option \<Rightarrow> rvalue option list \<Rightarrow> store go" where
  "SetDefault assignable st dest defaultValue = (case ValueOf dest of
      Some (_, PtrVal p) \<Rightarrow>
        (case p of
           None \<Rightarrow> Ret st
         | Some a \<Rightarrow> if IsZeroValue (Some (st a)) then assign_first assignable st a defaultValue else Ret st)
    | _ \<Rightarrow> Panic (UserPanic ''holster.SetDefault: Expected first argument to be of type reflect.Ptr''))"

definition SetOverride :: "(string \<Rightarrow> string \<Rightarrow> bool) \<Rightarrow> store \<Rightarrow> rvalue option \<Rightarrow> rvalue option list \<Rightarrow> store go" where
  "SetOverride assignable st dest values = (case ValueOf dest of
      Some (_, PtrVal p) \<Rightarrow>
        (case p of
           None \<Rightarrow> (case first_nonzero values of
                      None \<Rightarrow> Ret st
                    | Some _ \<Rightarrow> Panic (UserPanic ''reflect: call of reflect.Value.Set on zero Value''))
         | Some a \<Rightarrow> assign_first assignable st a values)
    | _ \<Rightarrow> Panic (UserPanic ''holster.SetOverride: Expected first argument to be of type reflect.Ptr''))"

section \<open>Correctness\<close>

text \<open>What remains after \<^verbatim>\<open>SetDefault\<close>: the variable's own value if it is not zero, or else the first default that is not.\<close>

definition first_of :: "rvalue \<Rightarrow> rvalue list \<Rightarrow> rvalue" where
  "first_of d vs = (case find (\<lambda>v. \<not> IsZeroValue (Some v)) vs of None \<Rightarrow> d | Some v \<Rightarrow> v)"

lemma first_nonzero_find: "first_nonzero (map Some vs) = map_option Some (find (\<lambda>v. \<not> IsZeroValue (Some v)) vs)"
  by (induction vs) (auto simp: ValueOf_def)

lemma assign_first_spec:
  assumes refl: "\<And>t. assignable t t" and types: "\<forall>v \<in> set vs. fst v = fst (st a)"
    and plain: "\<And>i. snd (st a) \<noteq> InterfaceVal i"
  shows "assign_first assignable st a (map Some vs) = Ret (st(a := first_of (st a) vs))"
proof (cases "find (\<lambda>v. \<not> IsZeroValue (Some v)) vs")
  case None
  then show ?thesis by (simp add: assign_first_def first_nonzero_find first_of_def)
next
  case (Some v)
  then have "v \<in> set vs" by (auto simp: find_Some_iff)
  then have "fst v = fst (st a)" using types by blast
  moreover obtain dt dp where "st a = (dt, dp)" by (cases "st a")
  ultimately show ?thesis using Some refl plain
    by (cases v) (auto simp: assign_first_def first_nonzero_find first_of_def Value_Set_def split: payload.splits)
qed



text \<open>
  A nil default is not skipped: \<^verbatim>\<open>IsZero(nil)\<close> is false, and assigning it panics, also before a default that
  could be used; nor does \<^verbatim>\<open>SetDefault\<close> ever replace a struct, whose zero value does not count as zero.
\<close>

lemma SetDefault_nil_panics:
  "IsZeroValue (Some (st a)) \<Longrightarrow>
   SetDefault assignable st (Some (pt, PtrVal (Some a))) (None # vs) =
     Panic (UserPanic ''reflect: call of reflect.Value.Set on zero Value'')"
  by (simp add: SetDefault_def ValueOf_def assign_first_def Value_Set_def IsZeroValue_def)

lemma SetDefault_struct_unchanged:
  "snd (st a) = OtherVal k n \<Longrightarrow> SetDefault assignable st (Some (pt, PtrVal (Some a))) vs = Ret st"
  by (cases "st a") (simp add: SetDefault_def ValueOf_def IsZeroValue_def)

end
