(* ===== verification/Go_Random.thy ===== *)
theory Go_Random
  imports Go_Strings
begin

text \<open>
  \<^verbatim>\<open>random/random.go\<close>, the providers of random bytes, and \<^verbatim>\<open>random.go\<close>, random strings. What the system's
  generator returns is an argument, as is the generator of \<^verbatim>\<open>math/rand\<close>: a start state for a seed and a
  step that draws a number below a bound.
\<close>

section \<open>Providers\<close>

definition CSPRNG_Bytes :: "(nat \<Rightarrow> string + string) \<Rightarrow> nat \<Rightarrow> string + string" where
  "CSPRNG_Bytes ReadFull n = (case ReadFull n of Inl err \<Rightarrow> Inl err | Inr b \<Rightarrow> Inr b)"

definition FakeRNG_Bytes :: "nat \<Rightarrow> string + string" where
  "FakeRNG_Bytes n = Inr (map (\<lambda>i. char_of (i mod 256)) [0..<n])"

definition random_hexDigest :: "string + string \<Rightarrow> string + string" where
  "random_hexDigest bytes = (case bytes of Inl err \<Rightarrow> Inl err | Inr b \<Rightarrow> Inr (hex_EncodeToString b))"

text \<open>The generator is made from the seed at the first call.\<close>

record 'r SeededRNG =
  rng_Seed :: int
  rng_rand :: "'r option"

primrec draw :: "(nat \<Rightarrow> 'r \<Rightarrow> nat \<times> 'r) \<Rightarrow> nat \<Rightarrow> 'r \<Rightarrow> string \<times> 'r" where
  "draw Intn 0 r = ([], r)"
| "draw Intn (Suc n) r = (let (x, r1) = Intn 256 r; (bs, r2) = draw Intn n r1 in (char_of (x mod 256) # bs, r2))"

definition SeededRNG_Bytes ::
  "(int \<Rightarrow> 'r) \<Rightarrow> (nat \<Rightarrow> 'r \<Rightarrow> nat \<times> 'r) \<Rightarrow> 'r SeededRNG \<Rightarrow> nat \<Rightarrow> 'r SeededRNG \<times> (string + string)" where
  "SeededRNG_Bytes NewSource Intn rng n =
     (let r = (case rng_rand rng of None \<Rightarrow> NewSource (rng_Seed rng) | Some r \<Rightarrow> r);
          (b, r') = draw Intn n r
      in (rng\<lparr>rng_rand := Some r'\<rparr>, Inr b))"

lemma draw_add: "draw Intn (m + n) r = (let (bs, r1) = draw Intn m r; (cs, r2) = draw Intn n r1 in (bs @ cs, r2))"
  by (induction m arbitrary: r) (auto simp: Let_def split: prod.splits)

lemma length_draw: "length (fst (draw Intn n r)) = n"
  by (induction n arbitrary: r) (auto simp: Let_def split: prod.splits, metis fst_conv)

text \<open>
  A seeded provider is one stream of bytes: two calls give together what one call for as many bytes
  would have given, and leave the same generator.
\<close>

lemma SeededRNG_stream:
  "(let (r1, b1) = SeededRNG_Bytes NewSource Intn rng m; (r2, b2) = SeededRNG_Bytes NewSource Intn r1 n
    in \<exists>x y. b1 = Inr x \<and> b2 = Inr y \<and> length x = m \<and> length y = n \<and> SeededRNG_Bytes NewSource Intn rng (m + n) = (r2, Inr (x @ y)))"
  by (auto simp: SeededRNG_Bytes_def Let_def draw_add split: prod.splits) (metis fst_conv length_draw)+

text \<open>\<^verbatim>\<open>HexDigest\<close> of the three providers.\<close>

definition CSPRNG_HexDigest :: "(nat \<Rightarrow> string + string) \<Rightarrow> nat \<Rightarrow> string + string" where
  "CSPRNG_HexDigest ReadFull n = random_hexDigest (CSPRNG_Bytes ReadFull n)"

definition FakeRNG_HexDigest :: "nat \<Rightarrow> string + string" where
  "FakeRNG_HexDigest n = random_hexDigest (FakeRNG_Bytes n)"

definition SeededRNG_HexDigest ::
  "(int \<Rightarrow> 'r) \<Rightarrow> (nat \<Rightarrow> 'r \<Rightarrow> nat \<times> 'r) \<Rightarrow> 'r SeededRNG \<Rightarrow> nat \<Rightarrow> 'r SeededRNG \<times> (string + string)" where
  "SeededRNG_HexDigest NewSource Intn rng n =
     (let (rng', b) = SeededRNG_Bytes NewSource Intn rng n in (rng', random_hexDigest b))"

text \<open>
  A digest has two characters for every byte asked for, and decodes to the bytes that the provider would have returned;
  the secure provider has one exactly when its source has the bytes.
\<close>

lemma HexDigest_decodes:
  "(\<exists>s b. FakeRNG_HexDigest n = Inr s \<and> FakeRNG_Bytes n = Inr b \<and> hex_DecodeString s = Some b \<and> length s = 2 * n) \<and>
   (\<exists>rng' s b. SeededRNG_HexDigest NewSource Intn rng n = (rng', Inr s) \<and> SeededRNG_Bytes NewSource Intn rng n = (rng', Inr b) \<and>
     hex_DecodeString s = Some b \<and> length s = 2 * n) \<and>
   (case ReadFull n of Inl err \<Rightarrow> CSPRNG_HexDigest ReadFull n = Inl err
    | Inr b \<Rightarrow> \<exists>s. CSPRNG_HexDigest ReadFull n = Inr s \<and> hex_DecodeString s = Some b \<and> length s = 2 * length b)"
proof -
  obtain b r' where d: "draw Intn n (case rng_rand rng of None \<Rightarrow> NewSource (rng_Seed rng) | Some r \<Rightarrow> r) = (b, r')" by fastforce
  then have "length b = n" by (metis fst_conv length_draw)
  then show ?thesis
    by (auto simp: FakeRNG_HexDigest_def SeededRNG_HexDigest_def CSPRNG_HexDigest_def random_hexDigest_def FakeRNG_Bytes_def
        SeededRNG_Bytes_def CSPRNG_Bytes_def hex_Decode_Encode length_hex_Encode d split: sum.split)
qed

section \<open>Random strings\<close>

definition NumericRunes :: string where "NumericRunes = ''0123456789''"

definition AlphaRunes :: string where "AlphaRunes = ''ABCDEFGHIJKLMNOPQRSTUVWXYZabcdefghijklmnopqrstuvwxyz''"

text \<open>
  \<open>rand_Read n\<close> are the bytes of \<^verbatim>\<open>rand.Read\<close>; its error is ignored. The remainder is taken by
  \<^verbatim>\<open>byte(len(chars))\<close>, which panics when the number of characters is a multiple of 256; \<^verbatim>\<open>make\<close> panics
  for a negative length.
\<close>

definition pick_char :: "string \<Rightarrow> char \<Rightarrow> char go" where
  "pick_char chars b =
     (let m = length chars mod 256
      in if m = 0 then Panic DivideByZero else Ret (chars ! (of_char b mod m)))"

primrec pick_chars :: "string \<Rightarrow> string \<Rightarrow> string go" where
  "pick_chars chars [] = Ret []"
| "pick_chars chars (b # bs) = go_bind (pick_char chars b) (\<lambda>c. go_bind (pick_chars chars bs) (\<lambda>cs. Ret (c # cs)))"

definition RandomRunes :: "(nat \<Rightarrow> string) \<Rightarrow> string \<Rightarrow> int \<Rightarrow> string list \<Rightarrow> string go" where
  "RandomRunes rand_Read prefix len runes =
     (if len < 0 then Panic (UserPanic ''makeslice: len out of range'')
      else go_bind (pick_chars (concat runes) (rand_Read (nat len))) (\<lambda>s. Ret (prefix @ s)))"

definition RandomAlpha :: "(nat \<Rightarrow> string) \<Rightarrow> string \<Rightarrow> int \<Rightarrow> string go" where
  "RandomAlpha rand_Read prefix len = RandomRunes rand_Read prefix len [AlphaRunes]"

definition RandomString :: "(nat \<Rightarrow> string) \<Rightarrow> string \<Rightarrow> int \<Rightarrow> string go" where
  "RandomString rand_Read prefix len = RandomRunes rand_Read prefix len [AlphaRunes, NumericRunes]"

definition RandomItem :: "(nat \<Rightarrow> string) \<Rightarrow> 'a list \<Rightarrow> 'a go" where
  "RandomItem rand_Read items =
     (let m = length items mod 256
      in if m = 0 then Panic DivideByZero else Ret (items ! (of_char (rand_Read 1 ! 0) mod m)))"

definition RandomDomainName :: "(nat \<Rightarrow> string) \<Rightarrow> (nat \<Rightarrow> string) \<Rightarrow> string go" where
  "RandomDomainName read1 read2 =
     go_bind (RandomAlpha read1 [] 14) (\<lambda>name.
     go_bind (RandomItem read2 [''net'', ''com'', ''org'', ''io'', ''gov'']) (\<lambda>tld. Ret (name @ ''.'' @ tld)))"

lemma pick_chars_spec:
  assumes "length chars mod 256 \<noteq> 0"
  shows "\<exists>s. pick_chars chars bs = Ret s \<and> length s = length bs \<and> set s \<subseteq> set chars"
proof (induction bs)
  case (Cons b bs)
  have "of_char b mod (length chars mod 256) < length chars mod 256" using assms by simp
  also have "\<dots> \<le> length chars" by simp
  finally have "chars ! (of_char b mod (length chars mod 256)) \<in> set chars" by simp
  then show ?case using Cons.IH assms by (auto simp: pick_char_def Let_def)
qed simp

text \<open>
  \<^verbatim>\<open>RandomRunes\<close> returns the prefix and as many characters as asked, each one of the given ones,
  whatever bytes the system draws, if it is given between 1 and 255 characters; given 256 it panics.
\<close>

theorem RandomRunes_chars:
  assumes "0 \<le> len" and "length (rand_Read (nat len)) = nat len"
  shows "(0 < length (concat runes) \<and> length (concat runes) < 256 \<longrightarrow>
      (\<exists>s. RandomRunes rand_Read prefix len runes = Ret (prefix @ s) \<and> int (length s) = len \<and> set s \<subseteq> set (concat runes))) \<and>
    (length (concat runes) = 256 \<and> 0 < len \<longrightarrow> RandomRunes rand_Read prefix len runes = Panic DivideByZero)"
proof
  show "0 < length (concat runes) \<and> length (concat runes) < 256 \<longrightarrow>
      (\<exists>s. RandomRunes rand_Read prefix len runes = Ret (prefix @ s) \<and> int (length s) = len \<and> set s \<subseteq> set (concat runes))"
  proof
    assume "0 < length (concat runes) \<and> length (concat runes) < 256"
    then have "length (concat runes) mod 256 \<noteq> 0" by simp
    then obtain s where "pick_chars (concat runes) (rand_Read (nat len)) = Ret s" "length s = nat len" "set s \<subseteq> set (concat runes)"
      using pick_chars_spec [of "concat runes" "rand_Read (nat len)"] assms(2) by auto
    then show "\<exists>s. RandomRunes rand_Read prefix len runes = Ret (prefix @ s) \<and> int (length s) = len \<and> set s \<subseteq> set (concat runes)"
      using assms(1) by (simp add: RandomRunes_def)
  qed
  show "length (concat runes) = 256 \<and> 0 < len \<longrightarrow> RandomRunes rand_Read prefix len runes = Panic DivideByZero"
    using assms by (cases "rand_Read (nat len)") (auto simp: RandomRunes_def pick_char_def)
qed

theorem RandomRunes_chars_witness:
  "\<exists>s. RandomString (\<lambda>n. replicate n (CHR ''z'')) ''id-'' 8 = Ret (''id-'' @ s) \<and> int (length s) = 8"
proof -
  have "length (concat [AlphaRunes, NumericRunes]) = 62" by (simp add: AlphaRunes_def NumericRunes_def)
  then show ?thesis
    using RandomRunes_chars [of 8 "\<lambda>n. replicate n (CHR ''z'')" "[AlphaRunes, NumericRunes]" "''id-''"]
    unfolding RandomString_def by auto
qed

end
