(* ===== verification/Go_Base64.thy ===== *)
theory Go_Base64
  imports Go_Strings
begin

text \<open>
  The standard library's \<^verbatim>\<open>encoding/base64\<close> as the sources use it: the standard and the URL alphabet, both
  with padding. Decoding skips line breaks anywhere, wants complete groups of four, and ignores the
  unused bits of the last group, as the library does.
\<close>

definition b64_char :: "bool \<Rightarrow> nat \<Rightarrow> char" where
  "b64_char url n =
     (if n < 26 then char_of (65 + n) else if n < 52 then char_of (97 + (n - 26))
      else if n < 62 then char_of (48 + (n - 52))
      else if n = 62 then (if url then CHR ''-'' else CHR ''+'') else (if url then CHR ''_'' else CHR ''/''))"

definition b64_val :: "bool \<Rightarrow> char \<Rightarrow> nat option" where
  "b64_val url c =
     (let k = of_char c :: nat
      in if 65 \<le> k \<and> k \<le> 90 then Some (k - 65) else if 97 \<le> k \<and> k \<le> 122 then Some (k - 97 + 26)
         else if 48 \<le> k \<and> k \<le> 57 then Some (k - 48 + 52)
         else if c = (if url then CHR ''-'' else CHR ''+'') then Some 62
         else if c = (if url then CHR ''_'' else CHR ''/'') then Some 63 else None)"

fun b64_EncodeToString :: "bool \<Rightarrow> string \<Rightarrow> string" where
  "b64_EncodeToString url [] = []"
| "b64_EncodeToString url [a] =
     (let x = of_char a :: nat
      in [b64_char url (x div 4), b64_char url ((x mod 4) * 16), CHR ''='', CHR ''=''])"
| "b64_EncodeToString url [a, b] =
     (let x = of_char a :: nat; y = of_char b
      in [b64_char url (x div 4), b64_char url ((x mod 4) * 16 + y div 16), b64_char url ((y mod 16) * 4), CHR ''=''])"
| "b64_EncodeToString url (a # b # c # r) =
     (let x = of_char a :: nat; y = of_char b; z = of_char c
      in [b64_char url (x div 4), b64_char url ((x mod 4) * 16 + y div 16), b64_char url ((y mod 16) * 4 + z div 64),
          b64_char url (z mod 64)] @ b64_EncodeToString url r)"

text \<open>Groups of four of a string without line breaks; \<open>None\<close> is \<^verbatim>\<open>CorruptInputError\<close>.\<close>

fun b64_quanta :: "bool \<Rightarrow> string \<Rightarrow> string option" where
  "b64_quanta url [] = Some []"
| "b64_quanta url (c0 # c1 # c2 # c3 # r) =
     (case (b64_val url c0, b64_val url c1) of
        (Some v0, Some v1) \<Rightarrow>
          let b0 = char_of (v0 * 4 + v1 div 16)
          in if c2 = CHR ''='' then (if c3 = CHR ''='' \<and> r = [] then Some [b0] else None)
             else (case b64_val url c2 of
                     None \<Rightarrow> None
                   | Some v2 \<Rightarrow>
                       let b1 = char_of ((v1 mod 16) * 16 + v2 div 4)
                       in if c3 = CHR ''='' then (if r = [] then Some [b0, b1] else None)
                          else (case b64_val url c3 of
                                  None \<Rightarrow> None
                                | Some v3 \<Rightarrow>
                                    map_option (\<lambda>rest. b0 # b1 # char_of ((v2 mod 4) * 64 + v3) # rest) (b64_quanta url r)))
      | _ \<Rightarrow> None)"
| "b64_quanta url _ = None"

definition b64_DecodeString :: "bool \<Rightarrow> string \<Rightarrow> string option" where
  "b64_DecodeString url s = b64_quanta url (filter (\<lambda>c. c \<noteq> CHR 10 \<and> c \<noteq> CHR 13) s)"

section \<open>Round trip\<close>

lemma b64_val_char: "n < 64 \<Longrightarrow> b64_val url (b64_char url n) = Some n"
  by (cases "n < 26"; cases "n < 52"; cases "n < 62"; cases url; cases "n = 62") (auto simp: b64_val_def b64_char_def Let_def)

definition b64_plain :: "char \<Rightarrow> bool" where
  "b64_plain c \<longleftrightarrow> c \<noteq> CHR ''='' \<and> c \<noteq> CHR 10 \<and> c \<noteq> CHR 13 \<and> c \<noteq> CHR 0x22"

lemma b64_char_plain: "n < 64 \<Longrightarrow> b64_plain (b64_char url n)"
proof -
  have "list_all (\<lambda>n. b64_plain (b64_char True n) \<and> b64_plain (b64_char False n)) [0..<64]"
    by code_simp
  then show "n < 64 \<Longrightarrow> b64_plain (b64_char url n)" unfolding list_all_iff set_upt by (cases url) simp_all
qed

lemma b64_char_not_pad: "n < 64 \<Longrightarrow> b64_char url n \<noteq> CHR ''=''"
  using b64_char_plain [of n url] by (auto simp: b64_plain_def)

lemma sextets:
  fixes x y z :: nat
  assumes "x < 256" "y < 256" "z < 256"
  shows "x div 4 < 64" "(x mod 4) * 16 + y div 16 < 64" "(y mod 16) * 4 + z div 64 < 64" "z mod 64 < 64"
    "(x mod 4) * 16 < 64" "(y mod 16) * 4 < 64"
    "x div 4 * 4 + ((x mod 4) * 16 + y div 16) div 16 = x"
    "((x mod 4) * 16 + y div 16) mod 16 * 16 + ((y mod 16) * 4 + z div 64) div 4 = y"
    "((y mod 16) * 4 + z div 64) mod 4 * 64 + z mod 64 = z"
    "x div 4 * 4 + ((x mod 4) * 16) div 16 = x"
    "((x mod 4) * 16 + y div 16) mod 16 * 16 + ((y mod 16) * 4) div 4 = y"
proof -
  have small: "x div 4 < 64" "y div 16 < 16" "z div 64 < 4" "y div 16 div 16 = 0" "z div 64 div 4 = 0"
    using assms by (auto simp flip: div_mult2_eq)
  have mods: "x mod 4 \<le> 3" "y mod 16 \<le> 15" by (simp_all add: less_Suc_eq_le [symmetric])
  show "x div 4 < 64" "z mod 64 < 64" using small by auto
  show "(x mod 4) * 16 + y div 16 < 64" "(y mod 16) * 4 + z div 64 < 64" "(x mod 4) * 16 < 64" "(y mod 16) * 4 < 64"
    using mods small by linarith+
  show "x div 4 * 4 + ((x mod 4) * 16 + y div 16) div 16 = x" "x div 4 * 4 + ((x mod 4) * 16) div 16 = x"
    using small by simp_all
  have "((x mod 4) * 16 + y div 16) mod 16 = y div 16" using small by simp
  moreover have "((y mod 16) * 4 + z div 64) div 4 = y mod 16" "((y mod 16) * 4) div 4 = y mod 16" using small by simp_all
  ultimately show "((x mod 4) * 16 + y div 16) mod 16 * 16 + ((y mod 16) * 4 + z div 64) div 4 = y"
    "((x mod 4) * 16 + y div 16) mod 16 * 16 + ((y mod 16) * 4) div 4 = y" by simp_all
  have "((y mod 16) * 4 + z div 64) mod 4 = z div 64" using small by simp
  then show "((y mod 16) * 4 + z div 64) mod 4 * 64 + z mod 64 = z" by simp
qed

text \<open>The sextets of one, two and three bytes, with what decoding makes of them.\<close>

lemma encode1:
  obtains p q where "b64_EncodeToString url [a] = [b64_char url p, b64_char url q, CHR ''='', CHR ''='']"
    "p < 64" "q < 64" "char_of (p * 4 + q div 16) = a"
  using sextets(1,5,10) [OF of_char_less [of a] of_char_less [of a] of_char_less [of a]] that
  by (metis b64_EncodeToString.simps(2) char_of_char)

lemma encode2:
  obtains p q r where "b64_EncodeToString url [a, b] = [b64_char url p, b64_char url q, b64_char url r, CHR ''='']"
    "p < 64" "q < 64" "r < 64" "char_of (p * 4 + q div 16) = a" "char_of (q mod 16 * 16 + r div 4) = b"
  using sextets(1,2,6,7,11) [OF of_char_less [of a] of_char_less [of b] of_char_less [of b]] that
  by (metis b64_EncodeToString.simps(3) char_of_char)

lemma encode3:
  obtains p q r t where
    "b64_EncodeToString url (a # b # c # s) = b64_char url p # b64_char url q # b64_char url r # b64_char url t # b64_EncodeToString url s"
    "p < 64" "q < 64" "r < 64" "t < 64" "char_of (p * 4 + q div 16) = a" "char_of (q mod 16 * 16 + r div 4) = b"
    "char_of (r mod 4 * 64 + t) = c"
proof (rule that)
  let ?x = "of_char a :: nat" and ?y = "of_char b :: nat" and ?z = "of_char c :: nat"
  note s = sextets [OF of_char_less [of a] of_char_less [of b] of_char_less [of c]]
  show "b64_EncodeToString url (a # b # c # s) = b64_char url (?x div 4) # b64_char url ((?x mod 4) * 16 + ?y div 16) #
      b64_char url ((?y mod 16) * 4 + ?z div 64) # b64_char url (?z mod 64) # b64_EncodeToString url s"
    by (simp add: Let_def)
  show "?x div 4 < 64" "(?x mod 4) * 16 + ?y div 16 < 64" "(?y mod 16) * 4 + ?z div 64 < 64" "?z mod 64 < 64" by (fact s)+
  show "char_of (?x div 4 * 4 + ((?x mod 4) * 16 + ?y div 16) div 16) = a" by (simp only: s(7) char_of_char)
  show "char_of (((?x mod 4) * 16 + ?y div 16) mod 16 * 16 + ((?y mod 16) * 4 + ?z div 64) div 4) = b"
    by (simp only: s(8) char_of_char)
  show "char_of (((?y mod 16) * 4 + ?z div 64) mod 4 * 64 + ?z mod 64) = c" by (simp only: s(9) char_of_char)
qed

lemma b64_quanta_Encode: "b64_quanta url (b64_EncodeToString url s) = Some s"
proof (induction url s rule: b64_EncodeToString.induct)
  case (2 url a)
  show ?case by (rule encode1 [of url a]) (simp add: b64_val_char del: b64_EncodeToString.simps)
next
  case (3 url a b)
  show ?case by (rule encode2 [of url a b]) (simp add: b64_val_char b64_char_not_pad del: b64_EncodeToString.simps)
next
  case (4 url a b c r)
  then show ?case by - (rule encode3 [of url a b c r], simp add: b64_val_char b64_char_not_pad del: b64_EncodeToString.simps)
qed simp

lemma b64_Encode_chars: "set (b64_EncodeToString url s) \<subseteq> insert (CHR ''='') (b64_char url ` {..<64})"
proof (induction url s rule: b64_EncodeToString.induct)
  case (2 url a)
  show ?case by (rule encode1 [of url a]) (simp del: b64_EncodeToString.simps)
next
  case (3 url a b)
  show ?case by (rule encode2 [of url a b]) (simp del: b64_EncodeToString.simps)
next
  case (4 url a b c r)
  then show ?case by - (rule encode3 [of url a b c r], simp del: b64_EncodeToString.simps)
qed simp

lemma b64_Encode_plain: "c \<in> set (b64_EncodeToString url s) \<Longrightarrow> c = CHR ''='' \<or> b64_plain c"
  using b64_Encode_chars [of url s] b64_char_plain by blast

lemma b64_Decode_Encode [simp]: "b64_DecodeString url (b64_EncodeToString url s) = Some s"
proof -
  have "filter (\<lambda>c. c \<noteq> CHR 10 \<and> c \<noteq> CHR 13) (b64_EncodeToString url s) = b64_EncodeToString url s"
    using b64_Encode_plain [of _ url s] by (intro filter_True) (auto simp: b64_plain_def)
  then show ?thesis by (simp add: b64_DecodeString_def b64_quanta_Encode)
qed

end
