(* ===== verification/Secret.thy ===== *)
theory Secret
  imports HTTP_Sign Go_Base64 Go_Random
begin

text \<open>
  \<^verbatim>\<open>secret/secret.go\<close> and \<^verbatim>\<open>secret/key.go\<close>: sealing and opening messages, keys, and their text forms. The two
  functions of \<^verbatim>\<open>nacl/secretbox\<close> are parameters, and so is the decoder of \<^verbatim>\<open>encoding/json\<close>; the encoder is
  modelled on the one type it is used with. A key or nonce array is a string of its length; a slice
  or pointer that may be nil is an option.
\<close>

section \<open>Data\<close>

definition NonceLength :: nat where "NonceLength = 24"

definition SecretKeyLength :: nat where "SecretKeyLength = 32"

record SecretConfig =
  sec_KeyPath :: string
  sec_KeyBytes :: "string option"
  sec_EmitStats :: bool
  sec_StatsdHost :: string
  sec_StatsdPort :: int
  sec_StatsdPrefix :: string

record SealedBytes =
  sb_Ciphertext :: "string option"
  sb_Nonce :: "string option"

record SecretService =
  ss_secretKey :: string
  ss_metricsClient :: "(string \<times> string) option"
  ss_metrics :: "string list"

datatype secret_error =
    SecretKeyFile string
  | SecretNoKeyBytes
  | SecretKeyNil
  | SecretHostname string
  | SecretMetrics string
  | SecretRandom string
  | KeyNotBase64
  | WrongKeyLength nat
  | WrongNonceLength nat
  | UnableToDecrypt
  | SealedNotBase64
  | SealedNotJSON string

record secretbox =
  box_Seal :: "string \<Rightarrow> string \<Rightarrow> string \<Rightarrow> string"
  box_Open :: "string \<Rightarrow> string \<Rightarrow> string \<Rightarrow> string option"

definition slice_bytes :: "string option \<Rightarrow> string" where
  "slice_bytes s = (case s of None \<Rightarrow> [] | Some b \<Rightarrow> b)"

definition CiphertextBytes :: "SealedBytes \<Rightarrow> string" where
  "CiphertextBytes s = slice_bytes (sb_Ciphertext s)"

definition CiphertextHex :: "SealedBytes \<Rightarrow> string" where
  "CiphertextHex s = b64_EncodeToString True (slice_bytes (sb_Ciphertext s))"

definition NonceBytes :: "SealedBytes \<Rightarrow> string" where
  "NonceBytes s = slice_bytes (sb_Nonce s)"

definition NonceHex :: "SealedBytes \<Rightarrow> string" where
  "NonceHex s = b64_EncodeToString True (slice_bytes (sb_Nonce s))"

section \<open>Keys\<close>

definition KeySliceToArray :: "string \<Rightarrow> secret_error + string" where
  "KeySliceToArray b = (if length b \<noteq> SecretKeyLength then Inl (WrongKeyLength (length b)) else Inr b)"

definition nonceSliceToArray :: "string \<Rightarrow> secret_error + string" where
  "nonceSliceToArray b = (if length b \<noteq> NonceLength then Inl (WrongNonceLength (length b)) else Inr b)"

definition generateNonce :: "(nat \<Rightarrow> string + string) \<Rightarrow> secret_error + string" where
  "generateNonce random_Bytes =
     (case random_Bytes NonceLength of Inl err \<Rightarrow> Inl (SecretRandom err) | Inr b \<Rightarrow> nonceSliceToArray b)"

definition NewKey :: "(nat \<Rightarrow> string + string) \<Rightarrow> secret_error + string" where
  "NewKey random_Bytes =
     (case random_Bytes SecretKeyLength of Inl err \<Rightarrow> Inl (SecretRandom err) | Inr b \<Rightarrow> KeySliceToArray b)"

definition EncodedStringToKey :: "string \<Rightarrow> secret_error + string" where
  "EncodedStringToKey encodedKey =
     (case b64_DecodeString False encodedKey of None \<Rightarrow> Inl KeyNotBase64 | Some keySlice \<Rightarrow> KeySliceToArray keySlice)"

definition KeyToEncodedString :: "string \<Rightarrow> string" where
  "KeyToEncodedString keybytes = b64_EncodeToString False keybytes"

definition ReadKeyFromDisk :: "environment \<Rightarrow> string \<Rightarrow> secret_error + string" where
  "ReadKeyFromDisk env keypath =
     (case env_ReadFile env keypath of
        Inl err \<Rightarrow> Inl (SecretKeyFile err)
      | Inr keyBytes \<Rightarrow> EncodedStringToKey (TrimNewline keyBytes))"

section \<open>The service\<close>

definition secret_metrics :: "environment \<Rightarrow> SecretConfig \<Rightarrow> secret_error + (string \<times> string) option" where
  "secret_metrics env config =
     (if sec_EmitStats config then
        case env_Hostname env of
          Inl e \<Rightarrow> Inl (SecretHostname e)
        | Inr hostname \<Rightarrow>
            let prefix = ''lemma.'' @ map (\<lambda>c. if c = CHR ''.'' then CHR ''_'' else c) hostname;
                prefix' = (if sec_StatsdPrefix config \<noteq> [] then prefix @ ''.'' @ sec_StatsdPrefix config else prefix);
                hostport = sec_StatsdHost config @ '':'' @ FormatInt (sec_StatsdPort config)
            in (case env_metrics env hostport prefix' of
                  Some e \<Rightarrow> Inl (SecretMetrics e)
                | None \<Rightarrow> Inr (Some (hostport, prefix')))
      else Inr None)"

text \<open>The key comes first here, and a nil configuration panics.\<close>

definition Secret_New :: "environment \<Rightarrow> SecretConfig option \<Rightarrow> (secret_error + SecretService) go" where
  "Secret_New env config =
     (case config of
        None \<Rightarrow> Panic NilDereference
      | Some config \<Rightarrow> Ret (
          case (if sec_KeyPath config \<noteq> [] then ReadKeyFromDisk env (sec_KeyPath config)
                else case sec_KeyBytes config of None \<Rightarrow> Inl SecretNoKeyBytes | Some k \<Rightarrow> Inr k) of
            Inl e \<Rightarrow> Inl e
          | Inr keyBytes \<Rightarrow>
              (case secret_metrics env config of
                 Inl e \<Rightarrow> Inl e
               | Inr client \<Rightarrow> Inr \<lparr>ss_secretKey = keyBytes, ss_metricsClient = client, ss_metrics = []\<rparr>)))"

definition Service_Seal :: "secretbox \<Rightarrow> (nat \<Rightarrow> string + string) \<Rightarrow> SecretService \<Rightarrow> string \<Rightarrow> secret_error + SealedBytes" where
  "Service_Seal box random_Bytes s val =
     (case generateNonce random_Bytes of
        Inl err \<Rightarrow> Inl err
      | Inr nonce \<Rightarrow> Inr \<lparr>sb_Ciphertext = Some (box_Seal box val nonce (ss_secretKey s)), sb_Nonce = Some nonce\<rparr>)"

definition Service_Open :: "secretbox \<Rightarrow> SecretService \<Rightarrow> SealedBytes \<Rightarrow> SecretService \<times> (secret_error + string)" where
  "Service_Open box s e =
     (let res = (case nonceSliceToArray (NonceBytes e) of
                   Inl err \<Rightarrow> Inl err
                 | Inr nonce \<Rightarrow>
                     (case box_Open box (CiphertextBytes e) nonce (ss_secretKey s) of
                        None \<Rightarrow> Inl UnableToDecrypt
                      | Some decrypted \<Rightarrow> Inr decrypted))
      in (s\<lparr>ss_metrics := ss_metrics s @ [case res of Inl _ \<Rightarrow> ''failure'' | Inr _ \<Rightarrow> ''success'']\<rparr>, res))"

definition key_config :: "string \<Rightarrow> SecretConfig" where
  "key_config k = \<lparr>sec_KeyPath = [], sec_KeyBytes = Some k, sec_EmitStats = False, sec_StatsdHost = [], sec_StatsdPort = 0,
     sec_StatsdPrefix = []\<rparr>"

definition Secret_Seal ::
  "environment \<Rightarrow> secretbox \<Rightarrow> (nat \<Rightarrow> string + string) \<Rightarrow> string \<Rightarrow> string option \<Rightarrow> (secret_error + SealedBytes) go" where
  "Secret_Seal env box random_Bytes val secretKey =
     (case secretKey of
        None \<Rightarrow> Ret (Inl SecretKeyNil)
      | Some k \<Rightarrow> go_bind (Secret_New env (Some (key_config k))) (\<lambda>r.
          case r of Inl err \<Rightarrow> Ret (Inl err) | Inr s \<Rightarrow> Ret (Service_Seal box random_Bytes s val)))"

definition Secret_Open ::
  "environment \<Rightarrow> secretbox \<Rightarrow> SealedBytes \<Rightarrow> string option \<Rightarrow> (secret_error + string) go" where
  "Secret_Open env box e secretKey =
     (case secretKey of
        None \<Rightarrow> Ret (Inl SecretKeyNil)
      | Some k \<Rightarrow> go_bind (Secret_New env (Some (key_config k))) (\<lambda>r.
          case r of Inl err \<Rightarrow> Ret (Inl err) | Inr s \<Rightarrow> Ret (snd (Service_Open box s e))))"

section \<open>Text form\<close>

text \<open>\<^verbatim>\<open>json.Marshal\<close> of a \<^verbatim>\<open>SealedBytes\<close>: byte slices are standard base64 strings, nil is null.\<close>

definition json_bytes :: "string option \<Rightarrow> string" where
  "json_bytes b = (case b of None \<Rightarrow> ''null'' | Some s \<Rightarrow> [CHR 0x22] @ b64_EncodeToString False s @ [CHR 0x22])"

definition json_Marshal :: "SealedBytes \<Rightarrow> string" where
  "json_Marshal s =
     ''{'' @ [CHR 0x22] @ ''Ciphertext'' @ [CHR 0x22] @ '':'' @ json_bytes (sb_Ciphertext s) @ '','' @
     [CHR 0x22] @ ''Nonce'' @ [CHR 0x22] @ '':'' @ json_bytes (sb_Nonce s) @ ''}''"

definition SealedDataToString :: "SealedBytes \<Rightarrow> string" where
  "SealedDataToString sealedData = b64_EncodeToString True (json_Marshal sealedData)"

definition StringToSealedData :: "(string \<Rightarrow> string + SealedBytes) \<Rightarrow> string \<Rightarrow> secret_error + SealedBytes" where
  "StringToSealedData json_Unmarshal encodedBytes =
     (case b64_DecodeString True encodedBytes of
        None \<Rightarrow> Inl SealedNotBase64
      | Some b \<Rightarrow> (case json_Unmarshal b of Inl err \<Rightarrow> Inl (SealedNotJSON err) | Inr sb \<Rightarrow> Inr sb))"

section \<open>Correctness\<close>

text \<open>What the sources rely on: opening undoes sealing, the decoder of JSON undoes the encoder, and a provider returns as many bytes as asked.\<close>

definition opens_sealed :: "secretbox \<Rightarrow> bool" where
  "opens_sealed box \<longleftrightarrow> (\<forall>m n k. box_Open box (box_Seal box m n k) n k = Some m)"

definition decodes_json :: "(string \<Rightarrow> string + SealedBytes) \<Rightarrow> bool" where
  "decodes_json json_Unmarshal \<longleftrightarrow> (\<forall>s. json_Unmarshal (json_Marshal s) = Inr s)"

lemma Secret_New_key: "Secret_New env (Some (key_config k)) = Ret (Inr \<lparr>ss_secretKey = k, ss_metricsClient = None, ss_metrics = []\<rparr>)"
  by (simp add: Secret_New_def key_config_def secret_metrics_def)


text \<open>A decoder for exactly what the encoder writes; it shows that the assumption on the decoder can be met.\<close>

definition strip_prefix :: "string \<Rightarrow> string \<Rightarrow> string option" where
  "strip_prefix p s = (if take (length p) s = p then Some (drop (length p) s) else None)"

definition parse_bytes :: "string \<Rightarrow> (string option \<times> string) option" where
  "parse_bytes s =
     (case strip_prefix [CHR 0x22] s of
        None \<Rightarrow> map_option (Pair None) (strip_prefix ''null'' s)
      | Some r \<Rightarrow>
          let text = takeWhile (\<lambda>c. c \<noteq> CHR 0x22) r
          in map_option (\<lambda>b. (Some b, drop (length text + 1) r)) (b64_DecodeString False text))"

definition canonical_Unmarshal :: "string \<Rightarrow> string + SealedBytes" where
  "canonical_Unmarshal s =
     (case Option.bind (strip_prefix (''{'' @ [CHR 0x22] @ ''Ciphertext'' @ [CHR 0x22] @ '':'') s) parse_bytes of
        None \<Rightarrow> Inl ''syntax''
      | Some (c, r) \<Rightarrow>
          (case Option.bind (strip_prefix ('','' @ [CHR 0x22] @ ''Nonce'' @ [CHR 0x22] @ '':'') r) parse_bytes of
             None \<Rightarrow> Inl ''syntax''
           | Some (n, _) \<Rightarrow> Inr \<lparr>sb_Ciphertext = c, sb_Nonce = n\<rparr>))"

lemma strip_prefix_append [simp]: "strip_prefix p (p @ s) = Some s"
  by (simp add: strip_prefix_def)

lemma no_quote: "CHR 0x22 \<notin> set (b64_EncodeToString url s)"
  using b64_Encode_plain [of "CHR 0x22" url s] by (auto simp: b64_plain_def)

lemma parse_json_bytes: "parse_bytes (json_bytes b @ r) = Some (b, r)"
proof (cases b)
  case None
  then show ?thesis by (simp add: json_bytes_def parse_bytes_def strip_prefix_def)
next
  case (Some s)
  let ?e = "b64_EncodeToString False s"
  have "takeWhile (\<lambda>c. c \<noteq> CHR 0x22) (?e @ CHR 0x22 # r) = ?e"
    using no_quote [of False s] by (subst takeWhile_append2) auto
  then show ?thesis using Some strip_prefix_append [of "[CHR 0x22]" "?e @ CHR 0x22 # r"]
    by (simp add: json_bytes_def parse_bytes_def Let_def)
qed

lemma canonical_decodes: "decodes_json canonical_Unmarshal"
proof -
  have "canonical_Unmarshal (json_Marshal s) = Inr s" for s
  proof -
    let ?p = "''{'' @ [CHR 0x22] @ ''Ciphertext'' @ [CHR 0x22] @ '':''" and ?q = "'','' @ [CHR 0x22] @ ''Nonce'' @ [CHR 0x22] @ '':''"
    have "json_Marshal s = ?p @ json_bytes (sb_Ciphertext s) @ ?q @ json_bytes (sb_Nonce s) @ ''}''"
      by (simp add: json_Marshal_def)
    then show ?thesis
      unfolding canonical_Unmarshal_def by (simp only: strip_prefix_append parse_json_bytes Option.bind.simps option.case prod.case) simp
  qed
  then show ?thesis by (simp add: decodes_json_def)
qed

definition plain_box :: secretbox where
  "plain_box = \<lparr>box_Seal = (\<lambda>m n k. k @ n @ m), box_Open = (\<lambda>c n k. strip_prefix (k @ n) c)\<rparr>"

definition ex_env :: environment where
  "ex_env = \<lparr>env_Hostname = Inl ''none'', env_metrics = (\<lambda>_ _. None), env_ReadFile = (\<lambda>_. Inl ''none'')\<rparr>"

lemma plain_box_opens: "opens_sealed plain_box"
  using strip_prefix_append [of "k @ n" for k n] by (simp add: opens_sealed_def plain_box_def)


text \<open>
  \<^verbatim>\<open>Open\<close> returns an error and never a message when the nonce has not 24 bytes or the box does not
  authenticate, and counts a failure; otherwise it returns what the box holds and counts a success. A nil
  key, and a key that is not 32 bytes of base64, are refused with an error.
\<close>

theorem Open_errors:
  "(case Service_Open box s e of (s', r) \<Rightarrow>
      (r = Inl (WrongNonceLength (length (NonceBytes e))) \<longleftrightarrow> length (NonceBytes e) \<noteq> NonceLength) \<and>
      (\<forall>m. r = Inr m \<longleftrightarrow> length (NonceBytes e) = NonceLength \<and> box_Open box (CiphertextBytes e) (NonceBytes e) (ss_secretKey s) = Some m) \<and>
      ss_metrics s' = ss_metrics s @ [if \<exists>m. r = Inr m then ''success'' else ''failure''] \<and> ss_secretKey s' = ss_secretKey s) \<and>
    Secret_Open env box e None = Ret (Inl SecretKeyNil) \<and>
    (\<forall>k. EncodedStringToKey str = Inr k \<longleftrightarrow> b64_DecodeString False str = Some k \<and> length k = 32)"
  by (auto simp: Service_Open_def nonceSliceToArray_def Secret_Open_def EncodedStringToKey_def KeySliceToArray_def
      SecretKeyLength_def Let_def split: option.splits sum.splits if_splits)

end
