(* ===== verification/Etcd_Session.thy ===== *)
theory Etcd_Session
  imports Go_Prelude
begin

text \<open>
  \<^verbatim>\<open>v3/etcdutil/backoff.go\<close> and \<^verbatim>\<open>v3/etcdutil/session.go\<close>: a session keeps
  a lease alive and tells its observer about every change. What etcd answers, and which ready case a
  \<^verbatim>\<open>select\<close> takes, are inputs of the callback that the session gives to \<^verbatim>\<open>WaitGroup.Until\<close>. The calls of the
  observer and the leases revoked are recorded.
\<close>

section \<open>Back off\<close>

text \<open>
  The factor is a whole number, as in every use. The product of a duration and a power of two is exact in
  a \<^verbatim>\<open>float64\<close>; the conversion to \<^verbatim>\<open>int64\<close> gives the smallest number when it does not fit, as on amd64.
\<close>

record backOffCounter =
  bo_min :: duration
  bo_max :: duration
  bo_factor :: nat
  bo_attempt :: nat

definition newBackOffCounter :: "duration \<Rightarrow> duration \<Rightarrow> nat \<Rightarrow> backOffCounter" where
  "newBackOffCounter min_d max_d factor = \<lparr>bo_min = min_d, bo_max = max_d, bo_factor = factor, bo_attempt = 0\<rparr>"

definition float_to_int64 :: "int \<Rightarrow> int" where
  "float_to_int64 x = (if in_i64 x then x else - (2 ^ 63))"

definition BackOff :: "backOffCounter \<Rightarrow> nat \<Rightarrow> duration" where
  "BackOff b attempt =
     (let d = float_to_int64 (bo_min b * int (bo_factor b) ^ attempt)
      in if d > bo_max b then bo_max b else if d < bo_min b then bo_min b else d)"

definition backOff_Next :: "backOffCounter \<Rightarrow> backOffCounter \<times> duration" where
  "backOff_Next b = (b\<lparr>bo_attempt := Suc (bo_attempt b)\<rparr>, BackOff b (bo_attempt b))"

definition backOff_Reset :: "backOffCounter \<Rightarrow> backOffCounter" where
  "backOff_Reset b = b\<lparr>bo_attempt := 0\<rparr>"

text \<open>
  The back off lies between its smallest and its largest duration and grows with the attempts, as
  long as the product fits a duration; from then on it starts again at the smallest: with 500
  milliseconds, doubled each time, the 36th attempt waits 500 milliseconds again.
\<close>

theorem BackOff_bounds:
  assumes "0 < bo_min b" and "bo_min b \<le> bo_max b" and "0 < bo_factor b"
  shows "bo_min b \<le> BackOff b n \<and> BackOff b n \<le> bo_max b \<and>
    (m \<le> n \<and> in_i64 (bo_min b * int (bo_factor b) ^ n) \<longrightarrow> BackOff b m \<le> BackOff b n) \<and>
    (\<not> in_i64 (bo_min b * int (bo_factor b) ^ n) \<longrightarrow> BackOff b n = bo_min b)"
proof -
  have neg: "- (2 ^ 63) < bo_min b" "- (2 ^ 63) \<le> bo_max b" using assms by simp_all
  have "BackOff b m \<le> BackOff b n" if "m \<le> n" "in_i64 (bo_min b * int (bo_factor b) ^ n)"
  proof -
    have le: "bo_min b * int (bo_factor b) ^ m \<le> bo_min b * int (bo_factor b) ^ n"
      using that(1) assms by (intro mult_left_mono power_increasing) auto
    moreover have "0 \<le> bo_min b * int (bo_factor b) ^ m" using assms by simp
    ultimately have "in_i64 (bo_min b * int (bo_factor b) ^ m)"
      using that(2) order.strict_trans1 [OF le] by (auto simp: in_i64_def)
    then show ?thesis using that(2) le assms(2) by (auto simp: BackOff_def float_to_int64_def Let_def)
  qed
  then show ?thesis using neg assms(2) by (auto simp: BackOff_def float_to_int64_def Let_def)
qed

theorem BackOff_bounds_witness:
  "BackOff (newBackOffCounter 500000000 (30 * Second) 2) 5 = 16 * Second \<and>
   BackOff (newBackOffCounter 500000000 (30 * Second) 2) 34 = 30 * Second \<and>
   BackOff (newBackOffCounter 500000000 (30 * Second) 2) 35 = 500000000"
proof -
  let ?b = "newBackOffCounter 500000000 (30 * Second) 2"
  have b: "0 < bo_min ?b" "bo_min ?b \<le> bo_max ?b" "0 < bo_factor ?b" by (simp_all add: newBackOffCounter_def Second_def)
  have "\<not> in_i64 (bo_min ?b * int (bo_factor ?b) ^ 35)" by (simp add: newBackOffCounter_def in_i64_def)
  then have "BackOff ?b 35 = 500000000" using BackOff_bounds [OF b, of 35] by (simp add: newBackOffCounter_def)
  then show ?thesis by (simp add: BackOff_def newBackOffCounter_def float_to_int64_def in_i64_def Second_def)
qed

section \<open>Session\<close>

type_synonym lease_id = int

definition NoLease :: lease_id where "NoLease = -1"

text \<open>\<open>se_told\<close> are the calls of the observer, \<open>se_revoked\<close> the leases the session revoked.\<close>

record Session =
  se_keepAlive :: bool
  se_lease :: "lease_id option"
  se_backOff :: backOffCounter
  se_cancelled :: bool
  se_ttl :: duration
  se_lastKeepAlive :: time
  se_isRunning :: bool
  se_told :: "(lease_id \<times> string option) list"
  se_revoked :: "lease_id list"

definition tell :: "lease_id \<Rightarrow> string option \<Rightarrow> Session \<Rightarrow> Session" where
  "tell l err s = s\<lparr>se_told := se_told s @ [(l, err)]\<rparr>"

text \<open>\<^verbatim>\<open>time.NewTicker\<close> panics when the time to live is not positive.\<close>

definition Session_start :: "time \<Rightarrow> Session \<Rightarrow> Session go" where
  "Session_start now s =
     (if se_ttl s \<le> 0 then Panic (UserPanic ''non-positive interval for NewTicker'')
      else Ret (s\<lparr>se_cancelled := False, se_lastKeepAlive := now, se_isRunning := True\<rparr>))"

datatype session_error = NoObserver | NoClient

definition NewSession :: "time \<Rightarrow> bool \<Rightarrow> bool \<Rightarrow> int \<Rightarrow> (session_error + Session) go" where
  "NewSession now has_observer has_client conf_TTL =
     (let TTL = (if conf_TTL = 0 then 30 else conf_TTL);
          ttlDuration = i64 (Second * TTL)
      in if \<not> has_observer then Ret (Inl NoObserver)
         else if \<not> has_client then Ret (Inl NoClient)
         else go_bind (Session_start now
           \<lparr>se_keepAlive = False, se_lease = None, se_backOff = newBackOffCounter 500000000 ttlDuration 2,
            se_cancelled = False, se_ttl = ttlDuration, se_lastKeepAlive = 0, se_isRunning = False, se_told = [], se_revoked = []\<rparr>)
           (\<lambda>s. Ret (Inr s)))"

text \<open>\<^verbatim>\<open>Grant\<close> returns a lease or an error and nil, \<^verbatim>\<open>KeepAlive\<close> a channel or an error and nil.\<close>

definition gainLease :: "string + lease_id \<Rightarrow> string option \<Rightarrow> Session \<Rightarrow> Session \<times> string option" where
  "gainLease Grant KeepAlive s =
     (case Grant of
        Inl err \<Rightarrow> (s\<lparr>se_lease := None\<rparr>, Some (''during grant lease: '' @ err))
      | Inr l \<Rightarrow>
          (case KeepAlive of
             Some err \<Rightarrow> (s\<lparr>se_lease := Some l, se_keepAlive := False\<rparr>, Some err)
           | None \<Rightarrow> (tell l None (s\<lparr>se_lease := Some l, se_keepAlive := True\<rparr>), None)))"

datatype session_select =
    KeepAliveReceived bool time
  | TickerFired time
  | DoneClosed "string option"

text \<open>The second component says whether the context's case is taken after a failure to gain a lease.\<close>

record session_input =
  in_Grant :: "string + lease_id"
  in_KeepAlive :: "string option"
  in_ctxDone :: bool
  in_select :: session_select

text \<open>The callback of \<^verbatim>\<open>start\<close>; it returns whether to go on.\<close>

definition session_callback :: "session_input \<Rightarrow> Session \<Rightarrow> Session \<times> bool" where
  "session_callback inp s0 =
     (let (s, err) = (if \<not> se_keepAlive s0 then gainLease (in_Grant inp) (in_KeepAlive inp) s0 else (s0, None))
      in case err of
           Some e \<Rightarrow>
             let s1 = tell NoLease (Some (''while attempting to gain new lease: '' @ e)) s;
                 s2 = s1\<lparr>se_backOff := fst (backOff_Next (se_backOff s1))\<rparr>
             in if in_ctxDone inp then (s2\<lparr>se_isRunning := False\<rparr>, False) else (s2, True)
         | None \<Rightarrow>
             let s1 = s\<lparr>se_backOff := backOff_Reset (se_backOff s)\<rparr>
             in (case in_select inp of
                   KeepAliveReceived ok now \<Rightarrow>
                     let s2 = (if \<not> ok then s1\<lparr>se_keepAlive := False\<rparr> else s1\<lparr>se_lastKeepAlive := now\<rparr>)
                     in (if \<not> se_keepAlive s2 then tell NoLease None s2 else s2, True)
                 | TickerFired now \<Rightarrow>
                     let s2 = (if now - se_lastKeepAlive s1 > se_ttl s1 then s1\<lparr>se_keepAlive := False\<rparr> else s1)
                     in (if \<not> se_keepAlive s2 then tell NoLease None s2 else s2, True)
                 | DoneClosed revoke \<Rightarrow>
                     let s2 = s1\<lparr>se_keepAlive := False\<rparr>;
                         s3 = (case se_lease s2 of
                                 None \<Rightarrow> s2
                               | Some l \<Rightarrow>
                                   (case revoke of
                                      None \<Rightarrow> s2\<lparr>se_revoked := se_revoked s2 @ [l]\<rparr>
                                    | Some e \<Rightarrow> tell NoLease (Some (''while revoking our lease during shutdown: '' @ e)) s2))
                     in (s3\<lparr>se_isRunning := False\<rparr>, False)))"

text \<open>Iterations until the callback returns false; the second component says whether it did.\<close>

fun session_loop :: "session_input list \<Rightarrow> Session \<Rightarrow> Session \<times> bool" where
  "session_loop [] s = (s, False)"
| "session_loop (inp # ins) s =
     (let (s', again) = session_callback inp s in if again then session_loop ins s' else (s', True))"

text \<open>\<^verbatim>\<open>Close\<close>: the loop ends while \<^verbatim>\<open>Stop\<close> waits, on the given inputs; \<open>None\<close> while it has not ended.\<close>

definition Session_Close :: "session_input list \<Rightarrow> Session \<Rightarrow> Session option" where
  "Session_Close ins s =
     (if \<not> se_isRunning s then Some s
      else case session_loop ins (s\<lparr>se_cancelled := True\<rparr>) of
             (s', ended) \<Rightarrow> if ended then Some (tell NoLease None s') else None)"

definition Session_Reset :: "time \<Rightarrow> session_input list \<Rightarrow> Session \<Rightarrow> Session go option" where
  "Session_Reset now ins s =
     (if \<not> se_isRunning s then Some (Ret s) else map_option (Session_start now) (Session_Close ins s))"

section \<open>Correctness\<close>

text \<open>What the observer was told last: between two iterations it knows the lease that is kept alive, or that there is none.\<close>

definition told_lease :: "Session \<Rightarrow> bool" where
  "told_lease s \<longleftrightarrow>
     (if se_keepAlive s then \<exists>l. se_lease s = Some l \<and> l \<noteq> NoLease \<and> se_told s \<noteq> [] \<and> last (se_told s) = (l, None)
      else se_told s = [] \<or> fst (last (se_told s)) = NoLease)"

definition input_ok :: "session_input \<Rightarrow> bool" where
  "input_ok inp \<longleftrightarrow> (\<forall>l. in_Grant inp = Inr l \<longrightarrow> l \<noteq> NoLease)"

lemma told_fields [simp]:
  "told_lease (s\<lparr>se_backOff := b\<rparr>) = told_lease s" "told_lease (s\<lparr>se_lastKeepAlive := t\<rparr>) = told_lease s"
  "told_lease (s\<lparr>se_isRunning := r\<rparr>) = told_lease s" "told_lease (s\<lparr>se_cancelled := c\<rparr>) = told_lease s"
  by (simp_all add: told_lease_def)

lemma told_tell: "\<not> se_keepAlive s \<Longrightarrow> told_lease (tell NoLease err s)"
  by (simp add: told_lease_def tell_def)

lemma gainLease_told:
  assumes "gainLease g k s = (s', err)" and "\<forall>l. g = Inr l \<longrightarrow> l \<noteq> NoLease" and "\<not> se_keepAlive s"
  shows "(err = None \<longrightarrow> told_lease s' \<and> se_keepAlive s') \<and> (err \<noteq> None \<longrightarrow> \<not> se_keepAlive s')"
  using assms by (auto simp: gainLease_def tell_def told_lease_def split: sum.splits option.splits)

lemma session_callback_told:
  assumes ok: "input_ok inp" and told: "told_lease s" and cb: "session_callback inp s = (s', again)"
  shows "again \<Longrightarrow> told_lease s'" "\<not> again \<Longrightarrow> \<not> se_isRunning s' \<and> \<not> se_keepAlive s'"
proof -
  obtain s1 err where gain: "(if \<not> se_keepAlive s then gainLease (in_Grant inp) (in_KeepAlive inp) s else (s, None)) = (s1, err)"
    by fastforce
  then have g: "(err = None \<longrightarrow> told_lease s1 \<and> se_keepAlive s1) \<and> (err \<noteq> None \<longrightarrow> \<not> se_keepAlive s1)"
    using gainLease_told [of "in_Grant inp" "in_KeepAlive inp" s s1 err] ok told by (auto simp: input_ok_def split: if_splits)
  have "(again \<longrightarrow> told_lease s') \<and> (\<not> again \<longrightarrow> \<not> se_isRunning s' \<and> \<not> se_keepAlive s')"
  proof (cases err)
    case None
    then show ?thesis using cb g told_tell unfolding session_callback_def gain
      by (auto simp: Let_def told_lease_def tell_def split: session_select.splits option.splits if_splits)
  next
    case (Some e)
    then show ?thesis using cb g unfolding session_callback_def gain
      by (auto simp: Let_def told_lease_def tell_def split: if_splits)
  qed
  then show "again \<Longrightarrow> told_lease s'" "\<not> again \<Longrightarrow> \<not> se_isRunning s' \<and> \<not> se_keepAlive s'" by blast+
qed

lemma session_loop_told:
  "told_lease s \<Longrightarrow> \<forall>inp \<in> set ins. input_ok inp \<Longrightarrow> session_loop ins s = (s', ended) \<Longrightarrow>
   (\<not> ended \<longrightarrow> told_lease s') \<and> (ended \<longrightarrow> \<not> se_isRunning s' \<and> \<not> se_keepAlive s')"
proof (induction ins arbitrary: s)
  case (Cons inp ins)
  obtain s1 again where cb: "session_callback inp s = (s1, again)" by fastforce
  then show ?case using Cons session_callback_told [OF _ Cons.prems(1) cb] by (cases again) (auto simp: Let_def)
qed auto

lemma NewSession_told: "NewSession now True True ttl = Ret (Inr s) \<Longrightarrow> told_lease s"
  by (auto simp: NewSession_def Session_start_def Let_def told_lease_def go_bind_Ret_iff split: if_splits)

lemma Session_Close_told:
  assumes "told_lease s" and "se_isRunning s" and "Session_Close ins s = Some s'" and "\<forall>inp \<in> set ins. input_ok inp"
  shows "\<not> se_isRunning s' \<and> \<not> se_keepAlive s' \<and> se_told s' \<noteq> [] \<and> last (se_told s') = (NoLease, None)"
proof -
  obtain s1 where s1: "session_loop ins (s\<lparr>se_cancelled := True\<rparr>) = (s1, True)" "s' = tell NoLease None s1"
    using assms(2,3) by (auto simp: Session_Close_def split: prod.splits if_splits)
  have "told_lease (s\<lparr>se_cancelled := True\<rparr>)" using assms(1) by simp
  from session_loop_told [OF this assms(4) s1(1)] show ?thesis using s1(2) by (simp add: tell_def)
qed

text \<open>
  C24: the observer of a session always knows: between two iterations of its loop, whatever etcd answers,
  the last call of the observer names the lease that is being kept alive, or no lease when none is; and when
  \<^verbatim>\<open>Close\<close> returns the session does not run, keeps nothing alive, and the last call says so.
\<close>

theorem Session_observer_informed:
  assumes "NewSession now True True ttl = Ret (Inr s)" and "\<forall>inp \<in> set ins. input_ok inp"
    and "session_loop ins s = (s', ended)" and "\<forall>inp \<in> set ins'. input_ok inp"
  shows "(\<not> ended \<longrightarrow> (if se_keepAlive s' then \<exists>l. se_lease s' = Some l \<and> l \<noteq> NoLease \<and> se_told s' \<noteq> [] \<and> last (se_told s') = (l, None)
      else se_told s' = [] \<or> fst (last (se_told s')) = NoLease)) \<and>
    (\<forall>s''. \<not> ended \<and> se_isRunning s' \<and> Session_Close ins' s' = Some s'' \<longrightarrow>
      \<not> se_isRunning s'' \<and> \<not> se_keepAlive s'' \<and> last (se_told s'') = (NoLease, None))"
proof -
  note loop = session_loop_told [OF NewSession_told [OF assms(1)] assms(2,3)]
  have "\<not> se_isRunning s'' \<and> \<not> se_keepAlive s'' \<and> last (se_told s'') = (NoLease, None)"
    if "\<not> ended" "se_isRunning s'" "Session_Close ins' s' = Some s''" for s''
    using Session_Close_told [OF _ that(2,3) assms(4)] loop that(1) by blast
  then show ?thesis using loop unfolding told_lease_def by blast
qed

definition ex_gain :: session_input where
  "ex_gain = \<lparr>in_Grant = Inr 7, in_KeepAlive = None, in_ctxDone = False, in_select = KeepAliveReceived True 1\<rparr>"

theorem Session_observer_informed_witness:
  "\<exists>s s'. NewSession 0 True True 5 = Ret (Inr s) \<and> session_loop [ex_gain] s = (s', False) \<and>
     se_keepAlive s' \<and> last (se_told s') = (7, None)"
proof -
  obtain s s' where s: "NewSession 0 True True 5 = Ret (Inr s)" "session_loop [ex_gain] s = (s', False)" "se_keepAlive s'" "se_lease s' = Some 7"
    by (simp add: NewSession_def Session_start_def Let_def i64_def Second_def session_callback_def gainLease_def tell_def ex_gain_def)
  have ok: "\<forall>inp \<in> set [ex_gain]. input_ok inp" by (simp add: input_ok_def ex_gain_def NoLease_def)
  from Session_observer_informed [OF s(1) ok s(2) ok] s(3,4) have "last (se_told s') = (7, None)" by auto
  then show ?thesis using s by blast
qed

text \<open>
  \<^verbatim>\<open>Close\<close> cancels the context before it stops the loop. When the loop notices the closed channel of heart
  beats first, it fails to gain a new lease, which clears the old one, and ends without revoking it.
\<close>

lemma Close_keeps_lease:
  assumes "se_isRunning s" "se_keepAlive s" "se_lease s = Some l"
  shows "\<exists>s'. Session_Close [\<lparr>in_Grant = Inl e, in_KeepAlive = None, in_ctxDone = False, in_select = KeepAliveReceived False now\<rparr>,
      \<lparr>in_Grant = Inl ''context canceled'', in_KeepAlive = None, in_ctxDone = True, in_select = TickerFired 0\<rparr>] s = Some s' \<and>
    se_revoked s' = se_revoked s \<and> se_lease s' = None"
  using assms by (simp add: Session_Close_def session_callback_def gainLease_def tell_def Let_def)

end
