(* ===== verification/Etcd_Election.thy ===== *)
theory Etcd_Election
  imports Etcd_Session Go_Strings Go_Sched "HOL-Library.Sublist"
begin

text \<open>
  \<^verbatim>\<open>v3/etcdutil/election.go\<close>: a leader election over etcd. A candidate registers a key under the prefix of
  the election with its lease; the leader is the key created first. What etcd answers and which ready
  case a \<^verbatim>\<open>select\<close> takes are inputs of the functions; the calls of the observer and the resets of the
  session that were started are recorded. An error is its message; \<^verbatim>\<open>errors.Wrap\<close> of nil is nil.
\<close>

section \<open>Data\<close>

record ElectionEvent =
  ev_IsLeader :: bool
  ev_IsDone :: bool
  ev_LeaderKey :: string
  ev_LeaderData :: string
  ev_Err :: "string option"

definition empty_event :: ElectionEvent where
  "empty_event = \<lparr>ev_IsLeader = False, ev_IsDone = False, ev_LeaderKey = [], ev_LeaderData = [], ev_Err = None\<rparr>"

record Election =
  el_hasObserver :: bool
  el_election :: string
  el_candidate :: string
  el_backOff :: backOffCounter
  el_ttl :: duration
  el_key :: string
  el_isLeader :: bool
  el_isRunning :: bool
  el_events :: "ElectionEvent list"
  el_resets :: nat

type_synonym kv = "string \<times> string"

definition wrap_err :: "string option \<Rightarrow> string \<Rightarrow> string option" where
  "wrap_err err msg = map_option (\<lambda>e. msg @ '': '' @ e) err"

section \<open>Creation\<close>

text \<open>\<^verbatim>\<open>path.Join\<close> with a rooted first element: the components without empty ones and dots, \<^verbatim>\<open>..\<close> going up.\<close>

definition clean_step :: "string list \<Rightarrow> string \<Rightarrow> string list" where
  "clean_step stack c = (if c = [] \<or> c = ''.'' then stack else if c = ''..'' then tl stack else c # stack)"

definition path_Join_elections :: "string \<Rightarrow> string" where
  "path_Join_elections name =
     (case rev (foldl clean_step [''elections''] (strings_Split (CHR ''/'') name)) of
        [] \<Rightarrow> ''/''
      | ws \<Rightarrow> concat (map (\<lambda>w. CHR ''/'' # w) ws))"

record ElectionConfig =
  ec_hasObserver :: bool
  ec_Election :: string
  ec_Candidate :: string
  ec_TTL :: int

text \<open>\<open>hostname\<close> is what \<^verbatim>\<open>os.Hostname\<close> returns, \<open>None\<close> for an error. The session is started with the same time to live.\<close>

definition NewElectionAsync :: "string option \<Rightarrow> ElectionConfig \<Rightarrow> Election go" where
  "NewElectionAsync hostname conf =
     (let name = (if ec_Election conf = [] then ''null'' else ec_Election conf);
          candidate = (case hostname of None \<Rightarrow> ec_Candidate conf
                       | Some h \<Rightarrow> if ec_Candidate conf = [] then h else ec_Candidate conf);
          TTL = (if ec_TTL conf = 0 then 5 else ec_TTL conf);
          ttlDuration = i64 (TTL * Second)
      in if ttlDuration \<le> 0 then Panic (UserPanic ''non-positive interval for NewTicker'')
         else Ret \<lparr>el_hasObserver = ec_hasObserver conf, el_election = path_Join_elections name, el_candidate = candidate,
                el_backOff = newBackOffCounter 500000000 ttlDuration 2, el_ttl = ttlDuration, el_key = [],
                el_isLeader = False, el_isRunning = False, el_events = [], el_resets = 0\<rparr>)"

text \<open>
  \<^verbatim>\<open>NewElection\<close> waits for the first event or the end of its context: the error of the context, or the
  error of the first event.
\<close>

definition NewElection_wait :: "bool \<Rightarrow> ElectionEvent list \<Rightarrow> (string + string option) option" where
  "NewElection_wait ctx_done events =
     (case events of
        ev # _ \<Rightarrow> Some (Inr (ev_Err ev))
      | [] \<Rightarrow> if ctx_done then Some (Inl ''context done'') else None)"

section \<open>Notifications\<close>

definition notify :: "ElectionEvent \<Rightarrow> Election \<Rightarrow> Election" where
  "notify ev e = (if el_hasObserver e then e\<lparr>el_events := el_events e @ [ev]\<rparr> else e)"

definition onLeaderChange :: "kv option \<Rightarrow> Election \<Rightarrow> Election" where
  "onLeaderChange kv e =
     (case kv of
        Some (k, v) \<Rightarrow>
          notify (empty_event\<lparr>ev_IsLeader := (k = el_key e), ev_LeaderKey := k, ev_LeaderData := v\<rparr>) (e\<lparr>el_isLeader := (k = el_key e)\<rparr>)
      | None \<Rightarrow> notify (empty_event\<lparr>ev_IsDone := True\<rparr>) e)"

definition onErr :: "string option \<Rightarrow> string \<Rightarrow> Election \<Rightarrow> Election" where
  "onErr err msg e =
     notify (empty_event\<lparr>ev_Err := (if msg \<noteq> [] then wrap_err err msg else err)\<rparr>) (e\<lparr>el_isLeader := False\<rparr>)"

definition onFatalErr :: "string option \<Rightarrow> string \<Rightarrow> Election \<Rightarrow> Election" where
  "onFatalErr err msg e = (onErr err msg e)\<lparr>el_resets := Suc (el_resets e)\<rparr>"

definition IsLeader :: "Election \<Rightarrow> bool" where
  "IsLeader e = el_isLeader e"

section \<open>The campaign\<close>

definition quoted :: "string \<Rightarrow> string" where
  "quoted s = CHR 0x27 # s @ [CHR 0x27]"

definition withDrawCampaign :: "string option \<Rightarrow> Election \<Rightarrow> Election \<times> string option" where
  "withDrawCampaign del_err e =
     (e\<lparr>el_isLeader := False\<rparr>, wrap_err del_err (''while withdrawing campaign '' @ quoted (el_key e)))"

fun hex_nat :: "nat \<Rightarrow> string" where
  "hex_nat n = (if n < 16 then [hex_char n] else hex_nat (n div 16) @ [hex_char (n mod 16)])"

declare hex_nat.simps [simp del]

definition campaign_key :: "string \<Rightarrow> lease_id \<Rightarrow> string" where
  "campaign_key election i = election @ (if i < 0 then ''-'' @ hex_nat (nat (- i)) else hex_nat (nat i))"

text \<open>The answer to the transaction: an error, success with a revision, or the entry that exists: its revision and value.\<close>

datatype txn_response = TxnError string | TxnPut int | TxnExists int string

definition registerCampaign :: "lease_id \<Rightarrow> txn_response \<Rightarrow> string option \<Rightarrow> Election \<Rightarrow> Election \<times> (string + int)" where
  "registerCampaign i txn put_err e0 =
     (let e = e0\<lparr>el_key := campaign_key (el_election e0) i\<rparr>
      in (e, case txn of
               TxnError err \<Rightarrow> Inl err
             | TxnPut revision \<Rightarrow> Inr revision
             | TxnExists createRev val \<Rightarrow>
                 if val \<noteq> el_candidate e
                 then (case put_err of Some err \<Rightarrow> Inl err | None \<Rightarrow> Inr createRev)
                 else Inr createRev))"

definition getLeader :: "string + kv list \<Rightarrow> string + kv option" where
  "getLeader resp = (case resp of Inl err \<Rightarrow> Inl err | Inr kvs \<Rightarrow> Inr (case kvs of [] \<Rightarrow> None | kv # _ \<Rightarrow> Some kv))"

text \<open>
  Up to the start of the watch: the error it returns, and the leader whose key is watched when the watch
  was started. \<open>ready\<close> is \<open>None\<close> when the watch started, or the error of the context.
\<close>

definition watchCampaign :: "string + kv list \<Rightarrow> string option \<Rightarrow> Election \<Rightarrow> Election \<times> string option \<times> kv option" where
  "watchCampaign resp ready e =
     (case getLeader resp of
        Inl err \<Rightarrow> (e, wrap_err (Some err) ''while querying for current leader'', None)
      | Inr None \<Rightarrow> (e, wrap_err None ''found no leader when watch began'', None)
      | Inr (Some kv) \<Rightarrow>
          (case ready of
             Some err \<Rightarrow> (e, wrap_err (Some err) ''while waiting for etcd watch to start'', None)
           | None \<Rightarrow> (onLeaderChange (Some kv) e, None, Some kv)))"

text \<open>The events of one response of the watch, each with the answer to the query for the leader that may follow it.\<close>

type_synonym watch_event = "string \<times> (string + kv list)"

fun watch_events :: "watch_event list \<Rightarrow> kv \<Rightarrow> Election \<Rightarrow> Election \<times> kv \<times> bool" where
  "watch_events [] leaderKV e = (e, leaderKV, True)"
| "watch_events ((key, resp) # evs) leaderKV e =
     (if key = fst leaderKV then
        (case getLeader resp of
           Inl err \<Rightarrow> (onFatalErr (Some err) ''while querying for new leader'' e, leaderKV, False)
         | Inr None \<Rightarrow> (onFatalErr None ''After etcd event no leader was found, restarting election'' e, leaderKV, False)
         | Inr (Some kv) \<Rightarrow>
             if fst kv \<noteq> fst leaderKV then watch_events evs kv (onLeaderChange (Some kv) e)
             else watch_events evs leaderKV e)
      else watch_events evs leaderKV e)"

datatype watch_select =
    WatchCanceled
  | WatchError string
  | WatchResponse "watch_event list"
  | WatchDone "string option"

text \<open>The callback of the watch; it returns the leader it watches and whether to go on.\<close>

definition watch_callback :: "watch_select \<Rightarrow> kv \<Rightarrow> Election \<Rightarrow> Election \<times> kv \<times> bool" where
  "watch_callback sel leaderKV e =
     (case sel of
        WatchCanceled \<Rightarrow> (onFatalErr (Some ''remote server cancelled watch'') ''during campaign watch'' e, leaderKV, False)
      | WatchError err \<Rightarrow> (onFatalErr (Some err) ''during campaign watch, remote server returned err'' e, leaderKV, False)
      | WatchResponse evs \<Rightarrow> watch_events evs leaderKV e
      | WatchDone del_err \<Rightarrow>
          (case withDrawCampaign del_err e of (e1, err) \<Rightarrow>
             let e2 = (if err \<noteq> None then onErr err [] e1 else e1)
             in (onLeaderChange (Some ([], [])) e2, leaderKV, False)))"

record campaign_input =
  ci_txn :: txn_response
  ci_put :: "string option"
  ci_leader :: "string + kv list"
  ci_ready :: "string option"
  ci_done :: bool
  ci_delete :: "string option"

text \<open>
  The callback of the campaign; it returns whether to go on. When \<open>watchCampaign\<close> has a leader to watch, it
  calls \<^verbatim>\<open>Until\<close> next, which may block: the callback stops there with the leader, and \<open>watch_started\<close> is
  the rest of it.
\<close>

definition watch_started :: "Election \<Rightarrow> Election" where
  "watch_started e = e\<lparr>el_backOff := backOff_Reset (el_backOff e)\<rparr>"

definition campaign_callback :: "lease_id \<Rightarrow> campaign_input \<Rightarrow> Election \<Rightarrow> Election \<times> bool \<times> kv option" where
  "campaign_callback leaseID inp e0 =
     (case registerCampaign leaseID (ci_txn inp) (ci_put inp) e0 of
        (e, Inl err) \<Rightarrow>
          let e1 = onErr (Some err) ''during campaign registration'' e;
              e2 = e1\<lparr>el_backOff := fst (backOff_Next (el_backOff e1))\<rparr>
          in if ci_done inp then (e2\<lparr>el_isRunning := False\<rparr>, False, None) else (e2, True, None)
      | (e, Inr revision) \<Rightarrow>
          (case watchCampaign (ci_leader inp) (ci_ready inp) e of
             (e1, Some err, _) \<Rightarrow>
               let e2 = onErr (Some err) ''during campaign watch'' e1;
                   e3 = e2\<lparr>el_backOff := fst (backOff_Next (el_backOff e2))\<rparr>
               in if \<not> ci_done inp then (e3, True, None)
                  else (case withDrawCampaign (ci_delete inp) e3 of (e4, err') \<Rightarrow>
                    (if err' \<noteq> None then onErr err' [] e4 else e4, True, None))
           | (e1, None, Some kv) \<Rightarrow> (e1, False, Some kv)
           | (e1, None, None) \<Rightarrow> (watch_started e1, False, None)))"

text \<open>
  \<^verbatim>\<open>Concede\<close> resets the session, and cancels the context of the deletion before it uses it; the answer to the deletion
  is an input.
\<close>

definition Concede :: "string option \<Rightarrow> Election \<Rightarrow> Election \<times> bool \<times> string option" where
  "Concede del_err e =
     (if \<not> el_isLeader e then (e, False, None)
      else (e\<lparr>el_resets := Suc (el_resets e)\<rparr>, True, wrap_err del_err (''while cleaning up campaign '' @ quoted (el_key e))))"

section \<open>The election as goroutines\<close>

text \<open>
  The session's goroutine calls \<^verbatim>\<open>onSessionChange\<close>; the goroutine of the campaign is between two calls of its
  callback, about to call \<^verbatim>\<open>Until\<close> for the watch, replaced by the one of the watch, or has ended. The session's
  goroutine may be inside \<^verbatim>\<open>e.wg.Stop()\<close>: it holds the mutex of the wait group, which \<^verbatim>\<open>Until\<close> takes, and waits for
  the other goroutine.
\<close>

datatype phase = NoCampaign | Campaigning lease_id | WatchStarting kv | Watching kv | CampaignEnded

record election_system =
  es_election :: Election
  es_phase :: phase
  es_stopping :: bool

definition onSessionChange :: "lease_id \<Rightarrow> election_system \<Rightarrow> election_system" where
  "onSessionChange leaseID s =
     (if leaseID = NoLease then
        if \<not> el_isRunning (es_election s) then s else s\<lparr>es_stopping := True\<rparr>
      else if el_isRunning (es_election s) then s
      else s\<lparr>es_election := (es_election s)\<lparr>el_isRunning := True\<rparr>, es_phase := Campaigning leaseID\<rparr>)"

text \<open>After \<^verbatim>\<open>Stop\<close> has returned.\<close>

definition lease_lost :: "string option \<Rightarrow> election_system \<Rightarrow> election_system" where
  "lease_lost err s =
     (let e = (es_election s)\<lparr>el_isRunning := False, el_isLeader := False\<rparr>
      in s\<lparr>es_election := (if err \<noteq> None then onErr err ''lease error'' e else e), es_phase := NoCampaign, es_stopping := False\<rparr>)"

definition campaign_step :: "lease_id \<Rightarrow> campaign_input \<Rightarrow> election_system \<Rightarrow> election_system" where
  "campaign_step leaseID inp s =
     (case campaign_callback leaseID inp (es_election s) of
        (e, again, started) \<Rightarrow>
          s\<lparr>es_election := e, es_phase := (if again then Campaigning leaseID
             else case started of None \<Rightarrow> CampaignEnded | Some kv \<Rightarrow> WatchStarting kv)\<rparr>)"

definition watch_step :: "watch_select \<Rightarrow> kv \<Rightarrow> election_system \<Rightarrow> election_system" where
  "watch_step sel kv s =
     (case watch_callback sel kv (es_election s) of
        (e, kv', again) \<Rightarrow> s\<lparr>es_election := e, es_phase := (if again then Watching kv' else CampaignEnded)\<rparr>)"

text \<open>The channel \<^verbatim>\<open>done\<close> is closed exactly while \<^verbatim>\<open>Stop\<close> waits.\<close>

fun is_WatchDone :: "watch_select \<Rightarrow> bool" where
  "is_WatchDone (WatchDone _) = True"
| "is_WatchDone _ = False"

definition idle :: "election_system \<Rightarrow> bool" where
  "idle s \<longleftrightarrow> es_phase s = NoCampaign \<or> es_phase s = CampaignEnded"

text \<open>The steps of the goroutines of the election itself, and of the callers of \<^verbatim>\<open>Close\<close> and \<^verbatim>\<open>Concede\<close>.\<close>

inductive own_step :: "election_system \<Rightarrow> election_system \<Rightarrow> bool" where
  LeaseLost: "es_stopping s \<Longrightarrow> idle s \<Longrightarrow> own_step s (lease_lost err s)"
| CampaignStep: "es_phase s = Campaigning leaseID \<Longrightarrow> ci_done inp \<longrightarrow> es_stopping s \<Longrightarrow> own_step s (campaign_step leaseID inp s)"
| WatchStarts: "es_phase s = WatchStarting kv \<Longrightarrow> \<not> es_stopping s \<Longrightarrow>
    own_step s (s\<lparr>es_election := watch_started (es_election s), es_phase := Watching kv\<rparr>)"
| WatchStep: "es_phase s = Watching kv \<Longrightarrow> is_WatchDone sel \<longrightarrow> es_stopping s \<Longrightarrow> own_step s (watch_step sel kv s)"
| Election_Close: "\<not> es_stopping s \<Longrightarrow> idle s \<Longrightarrow> own_step s (s\<lparr>es_election := onLeaderChange None (es_election s)\<rparr>)"
| Election_Concede: "own_step s (s\<lparr>es_election := fst (Concede del_err (es_election s))\<rparr>)"

inductive election_step :: "election_system \<Rightarrow> election_system \<Rightarrow> bool" where
  SessionChange: "\<not> es_stopping s \<Longrightarrow> election_step s (onSessionChange leaseID s)"
| OwnStep: "own_step s s' \<Longrightarrow> election_step s s'"

definition election_start :: "Election \<Rightarrow> election_system" where
  "election_start e = \<lparr>es_election = e, es_phase = NoCampaign, es_stopping = False\<rparr>"

definition election_reach :: "string option \<Rightarrow> ElectionConfig \<Rightarrow> election_system \<Rightarrow> bool" where
  "election_reach hostname conf s \<longleftrightarrow>
     (\<exists>e. NewElectionAsync hostname conf = Ret e \<and> election_step\<^sup>*\<^sup>* (election_start e) s)"

text \<open>Executions with the list of the calls of \<^verbatim>\<open>onSessionChange\<close> that the session made so far.\<close>

inductive election_run :: "string option \<Rightarrow> ElectionConfig \<Rightarrow> lease_id list \<Rightarrow> election_system \<Rightarrow> bool" for hostname conf where
  RunStart: "NewElectionAsync hostname conf = Ret e \<Longrightarrow> election_run hostname conf [] (election_start e)"
| RunSession: "election_run hostname conf calls s \<Longrightarrow> \<not> es_stopping s \<Longrightarrow>
    election_run hostname conf (calls @ [leaseID]) (onSessionChange leaseID s)"
| RunOwn: "election_run hostname conf calls s \<Longrightarrow> own_step s s' \<Longrightarrow> election_run hostname conf calls s'"

section \<open>A leader knows\<close>

definition leader_event :: "kv \<Rightarrow> Election \<Rightarrow> ElectionEvent" where
  "leader_event kv e = empty_event\<lparr>ev_IsLeader := (fst kv = el_key e), ev_LeaderKey := fst kv, ev_LeaderData := snd kv\<rparr>"

definition told_leader :: "kv \<Rightarrow> Election \<Rightarrow> bool" where
  "told_leader kv e \<longleftrightarrow> (el_isLeader e \<longleftrightarrow> fst kv = el_key e) \<and> el_key e \<noteq> [] \<and>
     (el_hasObserver e \<longrightarrow> el_events e \<noteq> [] \<and> last (el_events e) = leader_event kv e)"

fun phase_inv :: "phase \<Rightarrow> Election \<Rightarrow> bool" where
  "phase_inv (WatchStarting kv) e = (el_isRunning e \<and> told_leader kv e)"
| "phase_inv (Watching kv) e = (el_isRunning e \<and> told_leader kv e)"
| "phase_inv (Campaigning leaseID) e = (el_isRunning e \<and> \<not> el_isLeader e)"
| "phase_inv _ e = (\<not> el_isLeader e)"

lemmas notification_defs = notify_def onErr_def onFatalErr_def onLeaderChange_def withDrawCampaign_def

lemma hex_nat_nonempty: "hex_nat n \<noteq> []"
  by (subst hex_nat.simps) simp

lemma campaign_key_nonempty: "campaign_key election i \<noteq> []"
  by (simp add: campaign_key_def hex_nat_nonempty)

lemma onLeaderChange_told:
  "el_key e \<noteq> [] \<Longrightarrow> told_leader kv (onLeaderChange (Some kv) e)"
  "el_isRunning (onLeaderChange (Some kv) e) = el_isRunning e"
  by (cases kv; simp add: told_leader_def leader_event_def notification_defs)+

lemma onLeaderChange_isLeader: "el_isLeader (onLeaderChange (Some kv) e) \<longleftrightarrow> fst kv = el_key e"
  by (cases kv) (simp add: notification_defs)

lemma onErr_fields: "\<not> el_isLeader (onErr err msg e)" "el_key (onErr err msg e) = el_key e" "el_isRunning (onErr err msg e) = el_isRunning e"
  by (simp_all add: notification_defs)

lemma onFatalErr_inv: "\<not> el_isLeader (onFatalErr err msg e)"
  by (simp add: notification_defs)

lemma watch_events_inv:
  "el_isRunning e \<Longrightarrow> told_leader kv e \<Longrightarrow> watch_events evs kv e = (e', kv', again) \<Longrightarrow>
   phase_inv (if again then Watching kv' else CampaignEnded) e'"
proof (induction evs kv e rule: watch_events.induct)
  case (2 key resp evs kv e)
  have key: "el_key e \<noteq> []" using "2.prems" by (simp add: told_leader_def)
  note change = onLeaderChange_told(1) [OF key] onLeaderChange_told(2) [of _ e]
  show ?case
  proof (cases "key = fst kv")
    case True
    then show ?thesis
      using "2.prems" "2.IH"(1) [OF True, of "Some _"] "2.IH"(2) [OF True, of "Some _"] change onFatalErr_inv
      by (auto split: sum.splits option.splits if_splits)
  qed (use "2.prems" "2.IH"(3) in simp)
qed auto

lemma watch_callback_inv:
  assumes "el_isRunning e" and told: "told_leader kv e" and cb: "watch_callback sel kv e = (e', kv', again)"
  shows "phase_inv (if again then Watching kv' else CampaignEnded) e'"
proof (cases sel)
  case (WatchResponse evs)
  then show ?thesis using watch_events_inv [OF assms(1,2)] cb by (simp add: watch_callback_def)
next
  case (WatchDone del_err)
  then show ?thesis using cb told by (cases del_err) (auto simp: watch_callback_def withDrawCampaign_def wrap_err_def told_leader_def onLeaderChange_isLeader onErr_fields Let_def)
qed (use cb in \<open>auto simp: watch_callback_def onFatalErr_inv\<close>)

lemma campaign_callback_inv:
  assumes "el_isRunning e" "\<not> el_isLeader e" and cb: "campaign_callback leaseID inp e = (e', again, started)"
  shows "phase_inv (if again then Campaigning leaseID else case started of None \<Rightarrow> CampaignEnded | Some kv \<Rightarrow> WatchStarting kv) e'"
proof -
  define e1 where "e1 = e\<lparr>el_key := campaign_key (el_election e) leaseID\<rparr>"
  have e1: "el_key e1 \<noteq> []" "el_isRunning e1" "\<not> el_isLeader e1" using assms campaign_key_nonempty by (simp_all add: e1_def)
  obtain r where reg: "registerCampaign leaseID (ci_txn inp) (ci_put inp) e = (e1, r)"
    by (simp add: registerCampaign_def e1_def Let_def)
  show ?thesis
  proof (cases r)
    case (Inl err)
    then show ?thesis using cb e1 by (auto simp: campaign_callback_def reg onErr_fields Let_def split: if_splits)
  next
    case (Inr revision)
    then show ?thesis using cb e1 onLeaderChange_told(1) [OF e1(1)] onLeaderChange_told(2) [of _ e1]
      by (auto simp: campaign_callback_def reg watchCampaign_def wrap_err_def withDrawCampaign_def onErr_fields
            watch_started_def Let_def split: sum.splits option.splits if_splits)
  qed
qed

definition election_inv :: "election_system \<Rightarrow> bool" where
  "election_inv s \<longleftrightarrow> phase_inv (es_phase s) (es_election s)"

lemma own_step_inv: "own_step s s' \<Longrightarrow> election_inv s \<Longrightarrow> election_inv s'"
proof (induction rule: own_step.induct)
  case (CampaignStep s leaseID inp)
  then show ?case using campaign_callback_inv [of "es_election s" leaseID inp]
    by (auto simp: election_inv_def campaign_step_def split: prod.splits)
next
  case (WatchStep s kv sel)
  then show ?case using watch_callback_inv [of "es_election s" kv sel]
    by (auto simp: election_inv_def watch_step_def split: prod.splits)
next
  case (Election_Concede s del_err)
  then show ?case by (cases "es_phase s") (simp_all add: election_inv_def Concede_def told_leader_def leader_event_def)
qed (auto simp: election_inv_def lease_lost_def notification_defs watch_started_def told_leader_def leader_event_def idle_def Let_def)

interpretation els: invariant_system election_step election_inv
proof
  fix s s' assume inv: "election_inv s" and "election_step s s'"
  from this(2) show "election_inv s'"
  proof cases
    case (SessionChange leaseID)
    then show ?thesis using inv by (cases "es_phase s") (auto simp: election_inv_def onSessionChange_def)
  qed (rule own_step_inv [OF _ inv])
qed

lemma election_reach_inv: "election_reach hostname conf s \<Longrightarrow> election_inv s"
proof -
  assume "election_reach hostname conf s"
  then obtain e where e: "NewElectionAsync hostname conf = Ret e" and steps: "election_step\<^sup>*\<^sup>* (election_start e) s"
    by (auto simp: election_reach_def)
  have "election_inv (election_start e)"
    using e by (auto simp: NewElectionAsync_def election_inv_def election_start_def Let_def split: if_splits)
  then show ?thesis by (rule els.inv_steps [OF steps])
qed

text \<open>
  C18: a candidate that says it is the leader knows why: in every state of an election, \<^verbatim>\<open>IsLeader\<close> holds only
  while the campaign watches the key that etcd named as the first of the election and that key is its own; the
  observer, if there is one, was last told exactly this; while it watches any other key, before a campaign, and
  after the lease was lost or the campaign ended, it is not the leader.
\<close>

theorem Election_leader_informed:
  assumes "election_reach hostname conf s"
  shows "(IsLeader (es_election s) \<longrightarrow>
      (\<exists>kv. (es_phase s = WatchStarting kv \<or> es_phase s = Watching kv) \<and> fst kv = el_key (es_election s) \<and>
        (el_hasObserver (es_election s) \<longrightarrow>
          ev_IsLeader (last (el_events (es_election s))) \<and> ev_LeaderKey (last (el_events (es_election s))) = fst kv))) \<and>
    (\<forall>kv. es_phase s = Watching kv \<longrightarrow> (IsLeader (es_election s) \<longleftrightarrow> fst kv = el_key (es_election s)))"
  using election_reach_inv [OF assms]
  by (cases "es_phase s") (auto simp: election_inv_def IsLeader_def told_leader_def leader_event_def)

definition ex_conf :: ElectionConfig where
  "ex_conf = \<lparr>ec_hasObserver = True, ec_Election = ''scout'', ec_Candidate = ''n01'', ec_TTL = 5\<rparr>"

definition ex_campaign :: campaign_input where
  "ex_campaign = \<lparr>ci_txn = TxnPut 3, ci_put = None, ci_leader = Inr [(campaign_key ''/elections/scout'' 7, ''n01'')],
     ci_ready = None, ci_done = False, ci_delete = None\<rparr>"

definition ex_election :: Election where
  "ex_election = \<lparr>el_hasObserver = True, el_election = ''/elections/scout'', el_candidate = ''n01'',
     el_backOff = newBackOffCounter 500000000 5000000000 2, el_ttl = 5000000000, el_key = [],
     el_isLeader = False, el_isRunning = False, el_events = [], el_resets = 0\<rparr>"

definition ex_won :: election_system where
  "ex_won = campaign_step 7 ex_campaign (onSessionChange 7 (election_start ex_election))"

lemma ex_won_simps:
  "NewElectionAsync None ex_conf = Ret ex_election" "es_phase (onSessionChange 7 (election_start ex_election)) = Campaigning 7"
  "es_phase ex_won = WatchStarting (campaign_key ''/elections/scout'' 7, ''n01'')" "el_isRunning (es_election ex_won)"
  "IsLeader (es_election ex_won)" "\<not> es_stopping ex_won" "el_hasObserver (es_election ex_won)"
  by code_simp+

lemma ex_won_reach: "election_reach None ex_conf ex_won"
proof -
  have "election_step (election_start ex_election) (onSessionChange 7 (election_start ex_election))"
    by (rule SessionChange) (simp add: election_start_def)
  moreover have "election_step (onSessionChange 7 (election_start ex_election)) ex_won"
    unfolding ex_won_def by (rule OwnStep, rule CampaignStep [OF ex_won_simps(2)]) (simp add: ex_campaign_def)
  ultimately have "election_step\<^sup>*\<^sup>* (election_start ex_election) ex_won"
    by (blast intro: converse_rtranclp_into_rtranclp)
  then show ?thesis unfolding election_reach_def using ex_won_simps(1) by blast
qed

theorem Election_leader_informed_witness:
  "election_reach None ex_conf ex_won \<and> IsLeader (es_election ex_won) \<and>
   ev_LeaderKey (last (el_events (es_election ex_won))) = ''/elections/scout7''"
proof -
  have "campaign_key ''/elections/scout'' 7 = ''/elections/scout7''" by code_simp
  then show ?thesis using Election_leader_informed [OF ex_won_reach] ex_won_reach ex_won_simps by auto
qed

section \<open>Flaws\<close>

lemma stuck_step:
  assumes "election_step s s'" and stuck: "es_stopping s" "es_phase s = WatchStarting kv"
  shows "es_stopping s' \<and> es_phase s' = WatchStarting kv \<and> IsLeader (es_election s') = IsLeader (es_election s)"
proof -
  have "own_step s s'" using assms by (cases rule: election_step.cases) simp_all
  then show ?thesis using stuck
    by (cases rule: own_step.cases) (simp_all add: idle_def Concede_def IsLeader_def)
qed

text \<open>
  C20: an election can be stuck as the leader: when the session reports that the lease is lost while the campaign
  is about to start its watch, \<^verbatim>\<open>Stop\<close> holds the mutex of the wait group and waits for the campaign, and the
  campaign waits for the mutex in \<^verbatim>\<open>Until\<close>. Neither goroutine ever goes on, and \<^verbatim>\<open>IsLeader\<close> stays true without a lease,
  whatever else happens, even if \<^verbatim>\<open>Concede\<close> is called.
\<close>

theorem Election_stuck_as_leader:
  "\<exists>s kv. election_reach None ex_conf s \<and>
     {s'. election_step\<^sup>*\<^sup>* s s'} \<subseteq> {s'. es_stopping s' \<and> es_phase s' = WatchStarting kv \<and> IsLeader (es_election s')}"
proof -
  let ?s = "onSessionChange NoLease ex_won"
  have s: "?s = ex_won\<lparr>es_stopping := True\<rparr>" using ex_won_simps(4) by (simp add: onSessionChange_def)
  have "election_step ex_won ?s" by (rule SessionChange) (rule ex_won_simps(6))
  then have "election_reach None ex_conf ?s"
    using ex_won_reach unfolding election_reach_def by (meson rtranclp.rtrancl_into_rtrancl)
  moreover have "es_stopping s' \<and> es_phase s' = es_phase ex_won \<and> IsLeader (es_election s')" if "election_step\<^sup>*\<^sup>* ?s s'" for s'
    using that
  proof (induction rule: rtranclp_induct)
    case base
    show ?case using ex_won_simps(5) by (simp add: s)
  next
    case (step t t')
    show ?case using stuck_step [OF step.hyps(2)] step.IH ex_won_simps(3) by simp
  qed
  ultimately show ?thesis unfolding ex_won_simps(3) by (intro exI [of _ ?s] exI conjI subsetI) simp_all
qed

text \<open>
  When no leader is found as the watch begins, \<^verbatim>\<open>errors.Wrap\<close> of the nil error is nil: the campaign ends without
  a watch and without a word to the observer, and as the election still counts as running, no later lease
  starts it again before one is lost.
\<close>

lemma no_leader_ends_campaign:
  assumes "ci_txn inp = TxnPut r" and "ci_leader inp = Inr []" and "el_isRunning (es_election s)"
  shows "es_phase (campaign_step leaseID inp s) = CampaignEnded"
    and "el_events (es_election (campaign_step leaseID inp s)) = el_events (es_election s)"
    and "l \<noteq> NoLease \<Longrightarrow> onSessionChange l (campaign_step leaseID inp s) = campaign_step leaseID inp s"
  using assms by (simp_all add: campaign_step_def campaign_callback_def registerCampaign_def watchCampaign_def getLeader_def
    wrap_err_def watch_started_def onSessionChange_def Let_def)

text \<open>
  The key is the name of the election followed by the lease, with nothing between: the keys of an election are
  found under the prefix of every election whose name is a prefix of its name.
\<close>

lemma campaign_key_prefix: "prefix election (campaign_key (election @ longer) i)"
  by (simp add: campaign_key_def)

text \<open>A closed channel of the watch gives empty responses: the callback goes on at once, without an end.\<close>

lemma closed_watch_spins: "watch_callback (WatchResponse []) kv e = (e, kv, True)"
  by (simp add: watch_callback_def)

section \<open>The session has the last word\<close>

lemma election_run_reach: "election_run hostname conf calls s \<Longrightarrow> election_reach hostname conf s"
proof (induction rule: election_run.induct)
  case (RunStart e)
  then show ?case by (auto simp: election_reach_def)
qed (auto simp: election_reach_def intro: rtranclp.rtrancl_into_rtrancl SessionChange OwnStep)

text \<open>A campaign goes on only while the election is running, and nothing but a lease makes it run.\<close>

lemma callbacks_isRunning:
  "el_isRunning (fst (watch_callback sel kv e)) = el_isRunning e"
  "el_isRunning (fst (campaign_callback i inp e)) \<Longrightarrow> el_isRunning e"
proof -
  have onErr: "el_isRunning (onErr err msg e) = el_isRunning e" "el_isRunning (onLeaderChange kv e) = el_isRunning e"
    "el_isRunning (onFatalErr err msg e) = el_isRunning e" for err msg kv e
    by (auto simp: notification_defs split: option.splits)
  have events: "el_isRunning (fst (watch_events evs kv e)) = el_isRunning e" for evs kv e
    by (induction evs kv e rule: watch_events.induct) (auto simp: onErr split: sum.split option.split)
  show "el_isRunning (fst (watch_callback sel kv e)) = el_isRunning e"
    by (auto simp: watch_callback_def events onErr withDrawCampaign_def Let_def split: watch_select.split)
  show "el_isRunning e" if "el_isRunning (fst (campaign_callback i inp e))"
    using that by (auto simp: campaign_callback_def registerCampaign_def watchCampaign_def withDrawCampaign_def watch_started_def onErr Let_def
        split: sum.splits option.splits if_splits txn_response.splits)
qed

lemma own_step_not_running:
  "own_step s s' \<Longrightarrow> es_stopping s \<or> \<not> el_isRunning (es_election s) \<Longrightarrow> es_stopping s' \<or> \<not> el_isRunning (es_election s')"
proof (induction rule: own_step.induct)
  case (CampaignStep s leaseID inp)
  then show ?case using callbacks_isRunning(2) [of leaseID inp "es_election s"]
    by (auto simp: campaign_step_def split: prod.splits)
next
  case (WatchStep s kv sel)
  then show ?case using callbacks_isRunning(1) [of sel kv "es_election s"] by (auto simp: watch_step_def split: prod.splits)
qed (auto simp: lease_lost_def watch_started_def notification_defs Concede_def Let_def)

lemma election_run_lost:
  "election_run hostname conf calls s \<Longrightarrow> calls = [] \<or> last calls = NoLease \<Longrightarrow> es_stopping s \<or> \<not> el_isRunning (es_election s)"
proof (induction rule: election_run.induct)
  case (RunStart e)
  then show ?case by (auto simp: election_start_def NewElectionAsync_def Let_def split: if_splits)
next
  case (RunSession calls s leaseID)
  then show ?case by (auto simp: onSessionChange_def)
next
  case (RunOwn calls s s')
  then show ?case using own_step_not_running by blast
qed

end
