(* ===== verification/Root_Election.thy ===== *)
theory Root_Election
  imports Etcd_Election
begin

text \<open>
  \<^verbatim>\<open>etcdutil/election.go\<close>, the election of the root module: as in \<open>Etcd_Election\<close>, with a map of observers in place of one.
  There are at most two, the caller's under \<^verbatim>\<open>conf\<close> and one under \<^verbatim>\<open>init\<close> that ends the wait of \<^verbatim>\<open>NewElection\<close> and
  removes itself; they touch different variables, so that the order in which the map is walked does not matter.
\<close>

section \<open>Data\<close>

record RootElection =
  re_observers :: "string list"
  re_Election :: string
  re_Candidate :: string
  re_backOff :: backOffCounter
  re_timeout :: duration
  re_key :: string
  re_isLeader :: bool
  re_isRunning :: bool
  re_events :: "ElectionEvent list"
  re_resets :: nat
  re_ready :: bool
  re_err :: "string option"

text \<open>\<^verbatim>\<open>NewElection\<close> up to its wait; the back off counter is the one of \<^verbatim>\<open>v3\<close>, the root module has none.\<close>

definition root_NewElection :: "string option \<Rightarrow> ElectionConfig \<Rightarrow> (string + RootElection) go" where
  "root_NewElection hostname conf =
     (if ec_Election conf = [] then Ret (Inl ''ElectionConfig.Election can not be empty'')
      else let TTL = (if ec_TTL conf = 0 then 5 else ec_TTL conf);
               candidate = (case hostname of None \<Rightarrow> ec_Candidate conf
                            | Some h \<Rightarrow> if ec_Candidate conf = [] then h else ec_Candidate conf);
               timeout = i64 (TTL * Second)
           in if timeout \<le> 0 then Panic (UserPanic ''non-positive interval for NewTicker'')
              else Ret (Inr \<lparr>re_observers = (if ec_hasObserver conf then [''conf''] else []) @ [''init''],
                re_Election = path_Join_elections (ec_Election conf), re_Candidate = candidate,
                re_backOff = newBackOffCounter 500000000 timeout 2, re_timeout = timeout, re_key = [],
                re_isLeader = False, re_isRunning = False, re_events = [], re_resets = 0, re_ready = False, re_err = None\<rparr>))"

text \<open>
  The end of \<^verbatim>\<open>NewElection\<close>. The variable \<^verbatim>\<open>err\<close> that the first event sets is also assigned by the call of \<^verbatim>\<open>NewSession\<close>
  that started the election; \<open>late\<close> says that this assignment comes after the event.
\<close>

definition root_NewElection_result :: "bool \<Rightarrow> bool \<Rightarrow> RootElection \<Rightarrow> (string + string option) option" where
  "root_NewElection_result ctx_done late e =
     (if re_ready e then Some (Inr (if late then None else re_err e))
      else if ctx_done then Some (Inl ''context done'') else None)"

section \<open>Notifications\<close>

definition root_notify :: "ElectionEvent \<Rightarrow> RootElection \<Rightarrow> RootElection" where
  "root_notify ev e0 =
     (let e = (if ''conf'' \<in> set (re_observers e0) then e0\<lparr>re_events := re_events e0 @ [ev]\<rparr> else e0)
      in if ''init'' \<in> set (re_observers e)
         then e\<lparr>re_observers := filter (\<lambda>n. n \<noteq> ''init'') (re_observers e), re_ready := True,
                re_err := (if ev_Err ev \<noteq> None then ev_Err ev else re_err e)\<rparr>
         else e)"

definition root_onLeaderChange :: "kv option \<Rightarrow> RootElection \<Rightarrow> RootElection" where
  "root_onLeaderChange kv e =
     (case kv of
        Some (k, v) \<Rightarrow>
          let isLeader = (k = re_key e)
          in root_notify (empty_event\<lparr>ev_IsLeader := isLeader, ev_LeaderKey := k, ev_LeaderData := v\<rparr>) (e\<lparr>re_isLeader := isLeader\<rparr>)
      | None \<Rightarrow> root_notify (empty_event\<lparr>ev_IsDone := True\<rparr>) e)"

definition root_onErr :: "string option \<Rightarrow> string \<Rightarrow> RootElection \<Rightarrow> RootElection" where
  "root_onErr err msg e =
     root_notify (empty_event\<lparr>ev_Err := (if msg \<noteq> [] then wrap_err err msg else err)\<rparr>) (e\<lparr>re_isLeader := False\<rparr>)"

definition root_onFatalErr :: "string option \<Rightarrow> string \<Rightarrow> RootElection \<Rightarrow> RootElection" where
  "root_onFatalErr err msg e = (root_onErr err msg e)\<lparr>re_resets := Suc (re_resets e)\<rparr>"

definition root_IsLeader :: "RootElection \<Rightarrow> bool" where
  "root_IsLeader e = re_isLeader e"

section \<open>The campaign\<close>

definition root_withDrawCampaign :: "string option \<Rightarrow> RootElection \<Rightarrow> RootElection \<times> string option" where
  "root_withDrawCampaign del_err e =
     (e\<lparr>re_isLeader := False\<rparr>, wrap_err del_err (''while withdrawing campaign '' @ quoted (re_key e)))"

definition root_registerCampaign ::
  "lease_id \<Rightarrow> txn_response \<Rightarrow> string option \<Rightarrow> RootElection \<Rightarrow> RootElection \<times> (string + int)" where
  "root_registerCampaign i txn put_err e0 =
     (let e = e0\<lparr>re_key := campaign_key (re_Election e0) i\<rparr>
      in (e, case txn of
               TxnError err \<Rightarrow> Inl err
             | TxnPut revision \<Rightarrow> Inr revision
             | TxnExists createRev val \<Rightarrow>
                 if val \<noteq> re_Candidate e
                 then (case put_err of Some err \<Rightarrow> Inl err | None \<Rightarrow> Inr createRev)
                 else Inr createRev))"

definition root_watchCampaign ::
  "string + kv list \<Rightarrow> string option \<Rightarrow> RootElection \<Rightarrow> RootElection \<times> string option \<times> kv option" where
  "root_watchCampaign resp ready e =
     (case getLeader resp of
        Inl err \<Rightarrow> (e, wrap_err (Some err) ''while querying for current leader'', None)
      | Inr None \<Rightarrow> (e, wrap_err None ''found no leader when watch began'', None)
      | Inr (Some kv) \<Rightarrow>
          (case ready of
             Some err \<Rightarrow> (e, wrap_err (Some err) ''while waiting for etcd watch to start'', None)
           | None \<Rightarrow> (root_onLeaderChange (Some kv) e, None, Some kv)))"

fun root_watch_events :: "watch_event list \<Rightarrow> kv \<Rightarrow> RootElection \<Rightarrow> RootElection \<times> kv \<times> bool" where
  "root_watch_events [] leaderKV e = (e, leaderKV, True)"
| "root_watch_events ((key, resp) # evs) leaderKV e =
     (if key = fst leaderKV then
        (case getLeader resp of
           Inl err \<Rightarrow> (root_onFatalErr (Some err) ''while querying for new leader'' e, leaderKV, False)
         | Inr None \<Rightarrow> (root_onFatalErr None ''After etcd event no leader was found, restarting election'' e, leaderKV, False)
         | Inr (Some kv) \<Rightarrow>
             if fst kv \<noteq> fst leaderKV then root_watch_events evs kv (root_onLeaderChange (Some kv) e)
             else root_watch_events evs leaderKV e)
      else root_watch_events evs leaderKV e)"

definition root_watch_callback :: "watch_select \<Rightarrow> kv \<Rightarrow> RootElection \<Rightarrow> RootElection \<times> kv \<times> bool" where
  "root_watch_callback sel leaderKV e =
     (case sel of
        WatchCanceled \<Rightarrow> (root_onFatalErr (Some ''remote server cancelled watch'') ''during campaign watch'' e, leaderKV, False)
      | WatchError err \<Rightarrow> (root_onFatalErr (Some err) ''during campaign watch, remote server returned err'' e, leaderKV, False)
      | WatchResponse evs \<Rightarrow> root_watch_events evs leaderKV e
      | WatchDone del_err \<Rightarrow>
          (case root_withDrawCampaign del_err e of (e1, err) \<Rightarrow>
             let e2 = (if err \<noteq> None then root_onErr err [] e1 else e1)
             in (root_onLeaderChange (Some ([], [])) e2, leaderKV, False)))"

definition root_watch_started :: "RootElection \<Rightarrow> RootElection" where
  "root_watch_started e = e\<lparr>re_backOff := backOff_Reset (re_backOff e)\<rparr>"

definition root_campaign_callback :: "lease_id \<Rightarrow> campaign_input \<Rightarrow> RootElection \<Rightarrow> RootElection \<times> bool \<times> kv option" where
  "root_campaign_callback leaseID inp e0 =
     (case root_registerCampaign leaseID (ci_txn inp) (ci_put inp) e0 of
        (e, Inl err) \<Rightarrow>
          let e1 = root_onErr (Some err) ''during campaign registration'' e;
              e2 = e1\<lparr>re_backOff := fst (backOff_Next (re_backOff e1))\<rparr>
          in if ci_done inp then (e2\<lparr>re_isRunning := False\<rparr>, False, None) else (e2, True, None)
      | (e, Inr revision) \<Rightarrow>
          (case root_watchCampaign (ci_leader inp) (ci_ready inp) e of
             (e1, Some err, _) \<Rightarrow>
               let e2 = root_onErr (Some err) ''during campaign watch'' e1;
                   e3 = e2\<lparr>re_backOff := fst (backOff_Next (re_backOff e2))\<rparr>
               in if \<not> ci_done inp then (e3, True, None)
                  else (case root_withDrawCampaign (ci_delete inp) e3 of (e4, err') \<Rightarrow>
                    (if err' \<noteq> None then root_onErr err' [] e4 else e4, True, None))
           | (e1, None, Some kv) \<Rightarrow> (e1, False, Some kv)
           | (e1, None, None) \<Rightarrow> (root_watch_started e1, False, None)))"

definition root_Concede :: "string option \<Rightarrow> RootElection \<Rightarrow> RootElection \<times> bool \<times> string option" where
  "root_Concede del_err e =
     (if \<not> re_isLeader e then (e, False, None)
      else (e\<lparr>re_resets := Suc (re_resets e)\<rparr>, True, wrap_err del_err (''while cleaning up campaign '' @ quoted (re_key e))))"

section \<open>The election as goroutines\<close>

record root_system =
  rs_election :: RootElection
  rs_phase :: phase
  rs_stopping :: bool

definition root_onSessionChange :: "lease_id \<Rightarrow> root_system \<Rightarrow> root_system" where
  "root_onSessionChange leaseID s =
     (if leaseID = NoLease then
        if \<not> re_isRunning (rs_election s) then s else s\<lparr>rs_stopping := True\<rparr>
      else if re_isRunning (rs_election s) then s
      else s\<lparr>rs_election := (rs_election s)\<lparr>re_isRunning := True\<rparr>, rs_phase := Campaigning leaseID\<rparr>)"

definition root_lease_lost :: "string option \<Rightarrow> root_system \<Rightarrow> root_system" where
  "root_lease_lost err s =
     (let e = (rs_election s)\<lparr>re_isRunning := False, re_isLeader := False\<rparr>
      in s\<lparr>rs_election := (if err \<noteq> None then root_onErr err ''lease error'' e else e), rs_phase := NoCampaign, rs_stopping := False\<rparr>)"

definition root_campaign_step :: "lease_id \<Rightarrow> campaign_input \<Rightarrow> root_system \<Rightarrow> root_system" where
  "root_campaign_step leaseID inp s =
     (case root_campaign_callback leaseID inp (rs_election s) of
        (e, again, started) \<Rightarrow>
          s\<lparr>rs_election := e, rs_phase := (if again then Campaigning leaseID
             else case started of None \<Rightarrow> CampaignEnded | Some kv \<Rightarrow> WatchStarting kv)\<rparr>)"

definition root_watch_step :: "watch_select \<Rightarrow> kv \<Rightarrow> root_system \<Rightarrow> root_system" where
  "root_watch_step sel kv s =
     (case root_watch_callback sel kv (rs_election s) of
        (e, kv', again) \<Rightarrow> s\<lparr>rs_election := e, rs_phase := (if again then Watching kv' else CampaignEnded)\<rparr>)"

definition root_idle :: "root_system \<Rightarrow> bool" where
  "root_idle s \<longleftrightarrow> rs_phase s = NoCampaign \<or> rs_phase s = CampaignEnded"

inductive root_step :: "root_system \<Rightarrow> root_system \<Rightarrow> bool" where
  RootSessionChange: "\<not> rs_stopping s \<Longrightarrow> root_step s (root_onSessionChange leaseID s)"
| RootLeaseLost: "rs_stopping s \<Longrightarrow> root_idle s \<Longrightarrow> root_step s (root_lease_lost err s)"
| RootCampaign: "rs_phase s = Campaigning leaseID \<Longrightarrow> ci_done inp \<longrightarrow> rs_stopping s \<Longrightarrow> root_step s (root_campaign_step leaseID inp s)"
| RootWatchStarts: "rs_phase s = WatchStarting kv \<Longrightarrow> \<not> rs_stopping s \<Longrightarrow>
    root_step s (s\<lparr>rs_election := root_watch_started (rs_election s), rs_phase := Watching kv\<rparr>)"
| RootWatch: "rs_phase s = Watching kv \<Longrightarrow> is_WatchDone sel \<longrightarrow> rs_stopping s \<Longrightarrow> root_step s (root_watch_step sel kv s)"
| RootClose: "\<not> rs_stopping s \<Longrightarrow> root_idle s \<Longrightarrow>
    root_step s (s\<lparr>rs_election := root_onLeaderChange None (rs_election s)\<rparr>)"
| RootConcede: "root_step s (s\<lparr>rs_election := fst (root_Concede del_err (rs_election s))\<rparr>)"

definition root_start :: "RootElection \<Rightarrow> root_system" where
  "root_start e = \<lparr>rs_election = e, rs_phase = NoCampaign, rs_stopping = False\<rparr>"

definition root_reach :: "string option \<Rightarrow> ElectionConfig \<Rightarrow> root_system \<Rightarrow> bool" where
  "root_reach hostname conf s \<longleftrightarrow>
     (\<exists>e. root_NewElection hostname conf = Ret (Inr e) \<and> root_step\<^sup>*\<^sup>* (root_start e) s)"

section \<open>Refinement\<close>

text \<open>The election of \<^verbatim>\<open>v3\<close> that the caller sees: its own observer, and no other.\<close>

definition v3_of :: "RootElection \<Rightarrow> Election" where
  "v3_of e = \<lparr>el_hasObserver = (''conf'' \<in> set (re_observers e)), el_election = re_Election e, el_candidate = re_Candidate e,
     el_backOff = re_backOff e, el_ttl = re_timeout e, el_key = re_key e, el_isLeader = re_isLeader e,
     el_isRunning = re_isRunning e, el_events = re_events e, el_resets = re_resets e\<rparr>"

definition v3_system_of :: "root_system \<Rightarrow> election_system" where
  "v3_system_of s = \<lparr>es_election = v3_of (rs_election s), es_phase = rs_phase s, es_stopping = rs_stopping s\<rparr>"

lemma v3_of_fields [simp]:
  "el_key (v3_of e) = re_key e" "el_isLeader (v3_of e) = re_isLeader e" "el_isRunning (v3_of e) = re_isRunning e"
  "el_backOff (v3_of e) = re_backOff e" "el_election (v3_of e) = re_Election e" "el_candidate (v3_of e) = re_Candidate e"
  "el_resets (v3_of e) = re_resets e"
  by (simp_all add: v3_of_def)

lemma v3_of_updates [simp]:
  "v3_of (e\<lparr>re_isLeader := b\<rparr>) = (v3_of e)\<lparr>el_isLeader := b\<rparr>" "v3_of (e\<lparr>re_isRunning := b\<rparr>) = (v3_of e)\<lparr>el_isRunning := b\<rparr>"
  "v3_of (e\<lparr>re_backOff := bo\<rparr>) = (v3_of e)\<lparr>el_backOff := bo\<rparr>" "v3_of (e\<lparr>re_key := k\<rparr>) = (v3_of e)\<lparr>el_key := k\<rparr>"
  "v3_of (e\<lparr>re_resets := n\<rparr>) = (v3_of e)\<lparr>el_resets := n\<rparr>"
  by (simp_all add: v3_of_def)

lemma v3_notify [simp]: "v3_of (root_notify ev e) = notify ev (v3_of e)"
  by (simp add: root_notify_def notify_def v3_of_def Let_def)

lemma v3_onErr [simp]: "v3_of (root_onErr err msg e) = onErr err msg (v3_of e)"
  by (simp add: root_onErr_def onErr_def)

lemma v3_onLeaderChange [simp]: "v3_of (root_onLeaderChange kv e) = onLeaderChange kv (v3_of e)"
  by (simp add: root_onLeaderChange_def onLeaderChange_def Let_def split: option.split prod.split)

lemma v3_onFatalErr [simp]: "v3_of (root_onFatalErr err msg e) = onFatalErr err msg (v3_of e)"
  by (simp add: root_onFatalErr_def onFatalErr_def)

lemma v3_withDrawCampaign: "withDrawCampaign d (v3_of e) = map_prod v3_of id (root_withDrawCampaign d e)"
  by (simp add: root_withDrawCampaign_def withDrawCampaign_def)

lemma v3_registerCampaign: "registerCampaign i txn p (v3_of e) = map_prod v3_of id (root_registerCampaign i txn p e)"
  by (simp add: root_registerCampaign_def registerCampaign_def Let_def split: txn_response.split)

lemma v3_watchCampaign: "watchCampaign resp ready (v3_of e) = map_prod v3_of id (root_watchCampaign resp ready e)"
  by (simp add: root_watchCampaign_def watchCampaign_def split: sum.split option.split)

lemma v3_watch_events: "watch_events evs kv (v3_of e) = map_prod v3_of id (root_watch_events evs kv e)"
proof (induction evs kv e rule: root_watch_events.induct)
  case (2 key resp evs kv e)
  then show ?case by (cases "getLeader resp") (auto split: option.split)
qed simp

lemma v3_watch_callback: "watch_callback sel kv (v3_of e) = map_prod v3_of id (root_watch_callback sel kv e)"
  by (simp add: root_watch_callback_def watch_callback_def v3_watch_events v3_withDrawCampaign Let_def
      split: watch_select.split prod.split)

lemma v3_watch_started [simp]: "v3_of (root_watch_started e) = watch_started (v3_of e)"
  by (simp add: root_watch_started_def watch_started_def)

lemma onErr_keeps [simp]: "el_backOff (onErr err msg e') = el_backOff e'" "re_backOff (root_onErr err msg e) = re_backOff e"
  "el_key (onErr err msg e') = el_key e'" "re_key (root_onErr err msg e) = re_key e"
  by (simp_all add: onErr_def notify_def root_onErr_def root_notify_def Let_def)

lemma v3_campaign_callback: "campaign_callback i inp (v3_of e) = map_prod v3_of id (root_campaign_callback i inp e)"
proof -
  obtain e1 r where reg: "root_registerCampaign i (ci_txn inp) (ci_put inp) e = (e1, r)" by fastforce
  obtain e2 err started where watch: "root_watchCampaign (ci_leader inp) (ci_ready inp) e1 = (e2, err, started)" by (metis prod_cases3)
  note [simp] = reg watch v3_registerCampaign v3_watchCampaign root_campaign_callback_def campaign_callback_def Let_def
  show ?thesis
  proof (cases r)
    case (Inr revision)
    then show ?thesis
    proof (cases err)
      case (Some m)
      then show ?thesis using Inr by (simp add: withDrawCampaign_def root_withDrawCampaign_def)
    qed (cases started; simp)
  qed simp
qed

lemma v3_system_fields [simp]:
  "es_phase (v3_system_of s) = rs_phase s" "es_stopping (v3_system_of s) = rs_stopping s" "es_election (v3_system_of s) = v3_of (rs_election s)"
  "idle (v3_system_of s) = root_idle s"
  by (simp_all add: v3_system_of_def idle_def root_idle_def)

lemma v3_steps:
  "v3_system_of (root_onSessionChange l s) = onSessionChange l (v3_system_of s)"
  "v3_system_of (root_lease_lost err s) = lease_lost err (v3_system_of s)"
  "v3_system_of (root_campaign_step i inp s) = campaign_step i inp (v3_system_of s)"
  "v3_system_of (root_watch_step sel kv s) = watch_step sel kv (v3_system_of s)"
  "v3_system_of (s\<lparr>rs_election := e, rs_phase := p\<rparr>) = (v3_system_of s)\<lparr>es_election := v3_of e, es_phase := p\<rparr>"
  "v3_system_of (s\<lparr>rs_election := e\<rparr>) = (v3_system_of s)\<lparr>es_election := v3_of e\<rparr>"
  by (simp_all add: root_onSessionChange_def onSessionChange_def root_lease_lost_def lease_lost_def root_campaign_step_def
      campaign_step_def v3_campaign_callback root_watch_step_def watch_step_def v3_watch_callback v3_system_of_def Let_def
      split: prod.split)

lemma root_step_refines: "root_step s s' \<Longrightarrow> election_step (v3_system_of s) (v3_system_of s')"
proof (induction rule: root_step.induct)
  case (RootCampaign s leaseID inp)
  then show ?case unfolding v3_steps by (intro OwnStep CampaignStep) simp_all
next
  case (RootWatchStarts s kv)
  then show ?case using OwnStep [OF WatchStarts [of "v3_system_of s" kv]] by (simp add: v3_steps)
next
  case (RootWatch s kv sel)
  then show ?case unfolding v3_steps by (intro OwnStep WatchStep) simp_all
next
  case (RootClose s)
  then show ?case using OwnStep [OF Election_Close [of "v3_system_of s"]] by (simp add: v3_steps)
next
  case (RootConcede s del_err)
  have "v3_system_of (s\<lparr>rs_election := fst (root_Concede del_err (rs_election s))\<rparr>) =
      (v3_system_of s)\<lparr>es_election := fst (Concede del_err (es_election (v3_system_of s)))\<rparr>"
    by (simp add: v3_system_of_def root_Concede_def Concede_def)
  then show ?case using OwnStep [OF Election_Concede [of "v3_system_of s" del_err]] by simp
qed (simp_all add: v3_steps SessionChange OwnStep [OF LeaseLost])

lemma root_NewElection_refines:
  "root_NewElection hostname conf = Ret (Inr e) \<Longrightarrow> NewElectionAsync hostname conf = Ret (v3_of e)"
  by (auto simp: root_NewElection_def NewElectionAsync_def v3_of_def Let_def split: if_splits)


definition ex_root :: root_system where
  "ex_root = root_campaign_step 7 ex_campaign (root_onSessionChange 7 (root_start
     \<lparr>re_observers = [''conf'', ''init''], re_Election = ''/elections/scout'', re_Candidate = ''n01'',
      re_backOff = newBackOffCounter 500000000 5000000000 2, re_timeout = 5000000000, re_key = [],
      re_isLeader = False, re_isRunning = False, re_events = [], re_resets = 0, re_ready = False, re_err = None\<rparr>))"

lemma ex_root_reach: "root_reach None ex_conf ex_root" and ex_root_leader: "root_IsLeader (rs_election ex_root)"
proof -
  let ?e = "\<lparr>re_observers = [''conf'', ''init''], re_Election = ''/elections/scout'', re_Candidate = ''n01'',
      re_backOff = newBackOffCounter 500000000 5000000000 2, re_timeout = 5000000000, re_key = [],
      re_isLeader = False, re_isRunning = False, re_events = [], re_resets = 0, re_ready = False, re_err = None\<rparr>"
  have "root_step (root_start ?e) (root_onSessionChange 7 (root_start ?e))" by (rule RootSessionChange) (simp add: root_start_def)
  moreover have "rs_phase (root_onSessionChange 7 (root_start ?e)) = Campaigning 7" by code_simp
  then have "root_step (root_onSessionChange 7 (root_start ?e)) ex_root"
    unfolding ex_root_def by (rule RootCampaign) (simp add: ex_campaign_def)
  ultimately have "root_step\<^sup>*\<^sup>* (root_start ?e) ex_root" by (blast intro: converse_rtranclp_into_rtranclp)
  moreover have "root_NewElection None ex_conf = Ret (Inr ?e)" by code_simp
  ultimately show "root_reach None ex_conf ex_root" unfolding root_reach_def by blast
  show "root_IsLeader (rs_election ex_root)" by code_simp
qed


text \<open>
  \<^verbatim>\<open>NewElection\<close> can lose the error of the first event: the assignment of \<^verbatim>\<open>err\<close> from the call of \<^verbatim>\<open>NewSession\<close>, which starts the
  session, may come after the observer has set it.
\<close>

lemma root_NewElection_loses_error:
  assumes "''init'' \<in> set (re_observers e)" and "msg \<noteq> []"
  shows "root_NewElection_result False False (root_onErr (Some err) msg e) = Some (Inr (Some (msg @ '': '' @ err)))"
    and "root_NewElection_result False True (root_onErr (Some err) msg e) = Some (Inr None)"
  using assms by (simp_all add: root_onErr_def root_notify_def root_NewElection_result_def wrap_err_def Let_def)

end
