(* ===== verification/Etcd2_Election.thy ===== *)
theory Etcd2_Election
  imports Etcd_Election
begin

text \<open>
  \<^verbatim>\<open>election/election.go\<close>: an election over the keys of etcd version 2. The leader is the candidate that created the key
  of the election; the key expires unless the leader refreshes it. Several candidates share one etcd. Each has
  a client that calls \<^verbatim>\<open>Start\<close>, \<^verbatim>\<open>Concede\<close> and \<^verbatim>\<open>Stop\<close> one after the other, the goroutine of \<^verbatim>\<open>Start\<close>'s loop and the one of
  \<^verbatim>\<open>Watch\<close>. A step is one operation on an atomic variable or one request to etcd.
\<close>

section \<open>Data\<close>

datatype client_pc = ClientIdle | StartSet | StartStore | ConcedeFlag | ConcedeDelete | ConcedeStore | StopWait | Stopped

datatype loop_pc =
  LoopNone | LoopSelect | LoopRefresh | LoopRefreshFailed | LoopClear | LoopCheck | LoopSet | LoopStore
  | LoopDelete | LoopGiveUp | LoopEnded

datatype watch_pc = WatchNone | WatchNext | WatchSend | WatchEnded

record EtcdElection =
  ee_isLeader :: bool
  ee_conceded :: bool
  ee_cancelled :: bool
  ee_client :: client_pc
  ee_loop :: loop_pc
  ee_watch :: watch_pc

text \<open>The key of the election holds the candidate that created it; the candidates have numbers.\<close>

record etcd2 =
  e2_key :: "nat option"
  e2_cands :: "EtcdElection list"

record Election2Config =
  e2c_Election :: string
  e2c_Candidate :: string
  e2c_TTL :: duration

text \<open>\<^verbatim>\<open>path.Join\<close> with a relative first element: a \<^verbatim>\<open>..\<close> that leads out of it stays.\<close>

definition clean_rel_step :: "string list \<Rightarrow> string \<Rightarrow> string list" where
  "clean_rel_step stack c =
     (if c = [] \<or> c = ''.'' then stack
      else if c = ''..'' then (case stack of [] \<Rightarrow> [c] | d # ds \<Rightarrow> if d = ''..'' then c # stack else ds)
      else c # stack)"

fun join_slash :: "string list \<Rightarrow> string" where
  "join_slash [] = ''.''"
| "join_slash [c] = c"
| "join_slash (c # d # cs) = c @ ''/'' @ join_slash (d # cs)"

definition NewFromClient :: "string option \<Rightarrow> Election2Config \<Rightarrow> Election2Config \<times> EtcdElection" where
  "NewFromClient hostname conf =
     (let name = (if e2c_Election conf = [] then ''default-election'' else e2c_Election conf);
          TTL = (if e2c_TTL conf = 0 then Second * 5 else e2c_TTL conf);
          candidate = (case hostname of None \<Rightarrow> e2c_Candidate conf
                       | Some h \<Rightarrow> if e2c_Candidate conf = [] then h else e2c_Candidate conf)
      in (\<lparr>e2c_Election = join_slash (rev (foldl clean_rel_step [''elections''] (strings_Split (CHR ''/'') name))),
           e2c_Candidate = candidate, e2c_TTL = TTL\<rparr>,
          \<lparr>ee_isLeader = False, ee_conceded = False, ee_cancelled = False,
           ee_client = ClientIdle, ee_loop = LoopNone, ee_watch = WatchNone\<rparr>))"

section \<open>Requests to etcd\<close>

text \<open>A request may be carried out, fail, or be carried out although the answer is lost, which reads as an error.\<close>

datatype request_result = Done | Failed | Lost

text \<open>\<^verbatim>\<open>Set\<close> with \<^verbatim>\<open>PrevNoExist\<close>; the second component says that no error is returned.\<close>

definition set_new :: "nat \<Rightarrow> request_result \<Rightarrow> nat option \<Rightarrow> nat option \<times> bool" where
  "set_new i r k = (if k = None \<and> r \<noteq> Failed then (Some i, r = Done) else (k, False))"

text \<open>\<^verbatim>\<open>Set\<close> with \<^verbatim>\<open>Refresh\<close> keeps the value, whoever wrote it.\<close>

definition refresh :: "request_result \<Rightarrow> nat option \<Rightarrow> bool" where
  "refresh r k \<longleftrightarrow> k \<noteq> None \<and> r = Done"

definition delete_key :: "request_result \<Rightarrow> nat option \<Rightarrow> nat option" where
  "delete_key r k = (if r = Failed then k else None)"

section \<open>Steps\<close>

datatype client_call = CallStart | CallConcede | CallStop

datatype loop_event = Tick | Event | CtxDone

datatype watch_result = NextEvent | NextError | NextCanceled

type_synonym cand_step = "(nat option \<times> EtcdElection) option"

text \<open>\<^verbatim>\<open>Start\<close> from its first request to the start of the two goroutines.\<close>

definition EtcdElection_Start :: "nat \<Rightarrow> request_result \<Rightarrow> nat option \<Rightarrow> EtcdElection \<Rightarrow> cand_step" where
  "EtcdElection_Start i r k e =
     (case ee_client e of
        ClientIdle \<Rightarrow> if ee_loop e = LoopNone then Some (k, e\<lparr>ee_client := StartSet\<rparr>) else None
      | StartSet \<Rightarrow>
          (case set_new i r k of (k', ok) \<Rightarrow>
             Some (k', if ok then e\<lparr>ee_client := StartStore\<rparr>
                       else e\<lparr>ee_client := ClientIdle, ee_loop := LoopSelect, ee_watch := WatchNext\<rparr>))
      | StartStore \<Rightarrow> Some (k, e\<lparr>ee_isLeader := True, ee_client := ClientIdle, ee_loop := LoopSelect, ee_watch := WatchNext\<rparr>)
      | _ \<Rightarrow> None)"

definition EtcdElection_Concede :: "request_result \<Rightarrow> nat option \<Rightarrow> EtcdElection \<Rightarrow> cand_step" where
  "EtcdElection_Concede r k e =
     (case ee_client e of
        ClientIdle \<Rightarrow> Some (k, if ee_isLeader e then e\<lparr>ee_client := ConcedeFlag\<rparr> else e)
      | ConcedeFlag \<Rightarrow> Some (k, e\<lparr>ee_conceded := True, ee_client := ConcedeDelete\<rparr>)
      | ConcedeDelete \<Rightarrow> Some (delete_key r k, e\<lparr>ee_client := ConcedeStore\<rparr>)
      | ConcedeStore \<Rightarrow> Some (k, e\<lparr>ee_isLeader := False, ee_client := ClientIdle\<rparr>)
      | _ \<Rightarrow> None)"

definition EtcdElection_Stop :: "nat option \<Rightarrow> EtcdElection \<Rightarrow> cand_step" where
  "EtcdElection_Stop k e =
     (case ee_client e of
        ClientIdle \<Rightarrow> Some (k, e\<lparr>ee_cancelled := True, ee_client := StopWait\<rparr>)
      | StopWait \<Rightarrow> if ee_loop e \<in> {LoopNone, LoopEnded} \<and> ee_watch e \<in> {WatchNone, WatchEnded}
                     then Some (k, e\<lparr>ee_client := Stopped\<rparr>) else None
      | _ \<Rightarrow> None)"

text \<open>The client goes on with the call it is in, or makes another one.\<close>

definition client_step :: "nat \<Rightarrow> client_call \<Rightarrow> request_result \<Rightarrow> nat option \<Rightarrow> EtcdElection \<Rightarrow> cand_step" where
  "client_step i call r k e =
     (case call of CallStart \<Rightarrow> EtcdElection_Start i r k e | CallConcede \<Rightarrow> EtcdElection_Concede r k e | CallStop \<Rightarrow> EtcdElection_Stop k e)"

lemmas client_step_defs = client_step_def EtcdElection_Start_def EtcdElection_Concede_def EtcdElection_Stop_def

text \<open>The channel of \<^verbatim>\<open>Watch\<close> has no buffer: an event is received from a watcher that sends, or the channel is closed.\<close>

definition loop_step :: "nat \<Rightarrow> loop_event \<Rightarrow> request_result \<Rightarrow> nat option \<Rightarrow> EtcdElection \<Rightarrow> cand_step" where
  "loop_step i ev r k e =
     (case ee_loop e of
        LoopNone \<Rightarrow> None
      | LoopEnded \<Rightarrow> None
      | LoopSelect \<Rightarrow>
          (case ev of
             Tick \<Rightarrow> Some (k, if ee_isLeader e then e\<lparr>ee_loop := LoopRefresh\<rparr> else e)
           | Event \<Rightarrow>
               if ee_watch e \<in> {WatchSend, WatchEnded}
               then Some (k, e\<lparr>ee_watch := (if ee_watch e = WatchSend then WatchNext else WatchEnded),
                               ee_loop := (if ee_conceded e then LoopClear else LoopCheck)\<rparr>)
               else None
           | CtxDone \<Rightarrow>
               if ee_cancelled e then Some (k, e\<lparr>ee_loop := (if ee_isLeader e then LoopDelete else LoopGiveUp)\<rparr>) else None)
      | LoopRefresh \<Rightarrow> Some (k, e\<lparr>ee_loop := (if refresh r k then LoopSelect else LoopRefreshFailed)\<rparr>)
      | LoopRefreshFailed \<Rightarrow> Some (k, e\<lparr>ee_isLeader := False, ee_loop := LoopSelect\<rparr>)
      | LoopClear \<Rightarrow> Some (k, e\<lparr>ee_conceded := False, ee_loop := LoopSelect\<rparr>)
      | LoopCheck \<Rightarrow> Some (k, e\<lparr>ee_loop := (if ee_isLeader e then LoopSelect else LoopSet)\<rparr>)
      | LoopSet \<Rightarrow> (case set_new i r k of (k', ok) \<Rightarrow> Some (k', e\<lparr>ee_loop := (if ok then LoopStore else LoopSelect)\<rparr>))
      | LoopStore \<Rightarrow> Some (k, e\<lparr>ee_isLeader := True, ee_loop := LoopSelect\<rparr>)
      | LoopDelete \<Rightarrow> Some (delete_key r k, e\<lparr>ee_loop := LoopGiveUp\<rparr>)
      | LoopGiveUp \<Rightarrow> Some (k, e\<lparr>ee_isLeader := False, ee_loop := LoopEnded\<rparr>))"

text \<open>\<^verbatim>\<open>Next\<close> returns an event, an error after which the loop goes on, or that its context was cancelled.\<close>

definition Watch_step :: "watch_result \<Rightarrow> EtcdElection \<Rightarrow> EtcdElection option" where
  "Watch_step res e =
     (case ee_watch e of
        WatchNext \<Rightarrow>
          (case res of
             NextEvent \<Rightarrow> Some (e\<lparr>ee_watch := WatchSend\<rparr>)
           | NextError \<Rightarrow> Some e
           | NextCanceled \<Rightarrow> if ee_cancelled e then Some (e\<lparr>ee_watch := WatchEnded\<rparr>) else None)
      | _ \<Rightarrow> None)"

datatype action = Client nat client_call request_result | Loop nat loop_event request_result | Watch nat watch_result | Expire

definition update :: "nat \<Rightarrow> (nat option \<times> EtcdElection) option \<Rightarrow> etcd2 \<Rightarrow> etcd2 go option" where
  "update i res s = map_option (\<lambda>(k, e). Ret (s\<lparr>e2_key := k, e2_cands := (e2_cands s)[i := e]\<rparr>)) res"

fun etcd2_step :: "action \<Rightarrow> etcd2 \<Rightarrow> etcd2 go option" where
  "etcd2_step (Client i call r) s =
     (if i < length (e2_cands s) then update i (client_step i call r (e2_key s) (e2_cands s ! i)) s else None)"
| "etcd2_step (Loop i ev r) s =
     (if i < length (e2_cands s) then update i (loop_step i ev r (e2_key s) (e2_cands s ! i)) s else None)"
| "etcd2_step (Watch i res) s =
     (if i < length (e2_cands s) then update i (map_option (Pair (e2_key s)) (Watch_step res (e2_cands s ! i))) s else None)"
| "etcd2_step Expire s = Some (Ret (s\<lparr>e2_key := None\<rparr>))"

definition candidates :: "nat \<Rightarrow> etcd2" where
  "candidates n = \<lparr>e2_key = None, e2_cands =
     replicate n (snd (NewFromClient None \<lparr>e2c_Election = [], e2c_Candidate = [], e2c_TTL = 0\<rparr>))\<rparr>"

definition etcd2_reach :: "nat \<Rightarrow> etcd2 \<Rightarrow> bool" where
  "etcd2_reach n s \<longleftrightarrow> (can_step etcd2_step)\<^sup>*\<^sup>* (candidates n) s"

section \<open>At most one leader\<close>

text \<open>
  The key lives long enough when it does not expire while its creator counts on it: it is leader or about to
  become so, or about to delete the key.
\<close>

definition relies :: "EtcdElection \<Rightarrow> bool" where
  "relies e \<longleftrightarrow> ee_isLeader e \<or> ee_client e \<in> {StartStore, ConcedeFlag, ConcedeDelete} \<or> ee_loop e \<in> {LoopStore, LoopDelete}"

definition timely_step :: "action \<Rightarrow> etcd2 \<Rightarrow> etcd2 go option" where
  "timely_step a s =
     (if a = Expire \<and> (case e2_key s of None \<Rightarrow> False | Some i \<Rightarrow> i < length (e2_cands s) \<and> relies (e2_cands s ! i)) then None
      else etcd2_step a s)"

definition timely_reach :: "nat \<Rightarrow> etcd2 \<Rightarrow> bool" where
  "timely_reach n s \<longleftrightarrow> (can_step timely_step)\<^sup>*\<^sup>* (candidates n) s"

text \<open>A candidate has deleted the key and not yet cleared its flag.\<close>

definition giving_up :: "EtcdElection \<Rightarrow> bool" where
  "giving_up e \<longleftrightarrow> ee_client e = ConcedeStore \<or> ee_loop e = LoopGiveUp"

primrec client_inv :: "client_pc \<Rightarrow> nat option \<Rightarrow> nat \<Rightarrow> EtcdElection \<Rightarrow> bool" where
  "client_inv ClientIdle k i e = (\<not> ee_cancelled e)"
| "client_inv StartSet k i e = (\<not> ee_cancelled e \<and> ee_loop e = LoopNone)"
| "client_inv StartStore k i e = (\<not> ee_cancelled e \<and> ee_loop e = LoopNone \<and> k = Some i)"
| "client_inv ConcedeFlag k i e = (\<not> ee_cancelled e \<and> ee_loop e \<noteq> LoopStore \<and> k = Some i)"
| "client_inv ConcedeDelete k i e = (\<not> ee_cancelled e \<and> ee_loop e \<noteq> LoopStore \<and> k = Some i)"
| "client_inv ConcedeStore k i e = (\<not> ee_cancelled e)"
| "client_inv StopWait k i e = True"
| "client_inv Stopped k i e = True"

fun loop_inv :: "loop_pc \<Rightarrow> nat option \<Rightarrow> nat \<Rightarrow> EtcdElection \<Rightarrow> bool" where
  "loop_inv LoopNone k i e = (\<not> ee_isLeader e)"
| "loop_inv LoopSet k i e = (\<not> ee_isLeader e)"
| "loop_inv LoopStore k i e = (\<not> ee_isLeader e \<and> k = Some i)"
| "loop_inv LoopDelete k i e = (ee_cancelled e \<and> ee_isLeader e)"
| "loop_inv LoopGiveUp k i e = ee_cancelled e"
| "loop_inv pc k i e = True"

definition cand_inv :: "nat option \<Rightarrow> nat \<Rightarrow> EtcdElection \<Rightarrow> bool" where
  "cand_inv k i e \<longleftrightarrow> client_inv (ee_client e) k i e \<and> loop_inv (ee_loop e) k i e \<and>
     (ee_isLeader e \<longrightarrow> giving_up e \<or> k = Some i)"

text \<open>What a candidate may do to the key: create it, or delete its own.\<close>

definition key_change :: "nat \<Rightarrow> nat option \<Rightarrow> nat option \<Rightarrow> bool" where
  "key_change i k k' \<longleftrightarrow> k' = k \<or> k = None \<and> k' = Some i \<or> k = Some i \<and> k' = None"

lemmas cand_defs = cand_inv_def giving_up_def key_change_def set_new_def delete_key_def

lemma client_step_inv:
  assumes "cand_inv k i e" and "client_step i call r k e = Some (k', e')"
  shows "cand_inv k' i e' \<and> key_change i k k'"
  using assms by (cases "ee_client e"; cases call; cases "ee_loop e")
    (clarsimp simp: client_step_defs cand_defs split: if_splits)+

lemma loop_step_inv:
  assumes "cand_inv k i e" and "loop_step i ev r k e = Some (k', e')"
  shows "cand_inv k' i e' \<and> key_change i k k'"
  using assms by (cases "ee_loop e"; cases ev; cases "ee_client e")
    (clarsimp simp: loop_step_def cand_defs split: if_splits)+

lemma Watch_step_inv: "cand_inv k i e \<Longrightarrow> Watch_step res e = Some e' \<Longrightarrow> cand_inv k i e'"
  by (cases "ee_client e"; cases "ee_loop e"; cases "ee_watch e"; cases res)
    (clarsimp simp: Watch_step_def cand_defs split: if_splits)+

lemma other_inv: "cand_inv k j e \<Longrightarrow> key_change i k k' \<Longrightarrow> i \<noteq> j \<Longrightarrow> cand_inv k' j e"
  by (cases "ee_client e"; cases "ee_loop e") (simp_all add: cand_defs, blast+)

lemma expire_inv: "cand_inv k j e \<Longrightarrow> k = Some j \<longrightarrow> \<not> relies e \<Longrightarrow> cand_inv None j e"
  by (cases "ee_client e"; cases "ee_loop e") (simp_all add: cand_defs relies_def, blast+)

definition etcd2_inv :: "etcd2 \<Rightarrow> bool" where
  "etcd2_inv s \<longleftrightarrow> (\<forall>i < length (e2_cands s). cand_inv (e2_key s) i (e2_cands s ! i))"

lemma etcd2_inv_update:
  assumes "etcd2_inv s" and "cand_inv k i e" and "key_change i (e2_key s) k"
  shows "etcd2_inv (s\<lparr>e2_key := k, e2_cands := (e2_cands s)[i := e]\<rparr>)"
proof -
  have "cand_inv k j ((e2_cands s)[i := e] ! j)" if "j < length (e2_cands s)" for j
    using assms other_inv [of "e2_key s" j _ i k] that by (cases "i = j") (simp_all add: etcd2_inv_def)
  then show ?thesis by (simp add: etcd2_inv_def)
qed

interpretation ee: invariant_system "can_step timely_step" etcd2_inv
proof
  fix s s' assume inv: "etcd2_inv s" and "can_step timely_step s s'"
  then obtain a where step: "timely_step a s = Some (Ret s')" by (auto simp: can_step_def)
  have cand: "cand_inv (e2_key s) i (e2_cands s ! i)" if "i < length (e2_cands s)" for i
    using inv that by (simp add: etcd2_inv_def)
  show "etcd2_inv s'"
  proof (cases a)
    case (Client i call r)
    then show ?thesis using step client_step_inv [OF cand] etcd2_inv_update [OF inv]
      by (auto simp: timely_step_def update_def split: if_splits)
  next
    case (Loop i ev r)
    then show ?thesis using step loop_step_inv [OF cand] etcd2_inv_update [OF inv]
      by (auto simp: timely_step_def update_def split: if_splits)
  next
    case (Watch i res)
    then show ?thesis using step Watch_step_inv [OF cand] etcd2_inv_update [OF inv, of "e2_key s"]
      by (auto simp: timely_step_def update_def key_change_def split: if_splits)
  next
    case Expire
    have "s' = s\<lparr>e2_key := None\<rparr>" using step Expire by (auto simp: timely_step_def split: if_splits)
    moreover have "e2_key s = Some i \<longrightarrow> \<not> relies (e2_cands s ! i)" if "i < length (e2_cands s)" for i
      using step Expire that by (auto simp: timely_step_def)
    ultimately show ?thesis using expire_inv [OF cand] by (simp add: etcd2_inv_def)
  qed
qed

text \<open>
  C22: as long as the key of an election does not expire while its creator counts on it, at most one candidate
  is leader, whatever the interleaving of any number of candidates, lost answers and failed requests: if two are,
  then one of them has deleted the key and is about to clear its flag.
\<close>

theorem EtcdElection_one_leader:
  assumes "timely_reach n s" and "i < n" and "j < n" and "i \<noteq> j"
    and "ee_isLeader (e2_cands s ! i)" and "ee_isLeader (e2_cands s ! j)"
  shows "giving_up (e2_cands s ! i) \<or> giving_up (e2_cands s ! j)"
proof -
  have "etcd2_inv (candidates n)"
    by (simp add: etcd2_inv_def candidates_def NewFromClient_def cand_inv_def giving_up_def Let_def)
  then have inv: "etcd2_inv s" using ee.inv_steps assms(1) by (simp add: timely_reach_def)
  have "length (e2_cands s) = n" using assms(1) unfolding timely_reach_def
  proof (induction rule: rtranclp_induct)
    case base
    show ?case by (simp add: candidates_def)
  next
    case (step s s')
    then obtain a where "timely_step a s = Some (Ret s')" by (auto simp: can_step_def)
    then show ?case using step.IH by (cases a) (auto simp: timely_step_def update_def split: if_splits)
  qed
  then have "cand_inv (e2_key s) i (e2_cands s ! i)" "cand_inv (e2_key s) j (e2_cands s ! j)"
    using inv assms(2,3) by (simp_all add: etcd2_inv_def)
  then show ?thesis using assms(4-) unfolding cand_inv_def by force
qed

text \<open>Two candidates; the first wins, and the second wins while the first is between the steps of \<^verbatim>\<open>Concede\<close>.\<close>

definition ex_concede :: "action list" where
  "ex_concede = [Client 0 CallStart Done, Client 0 CallStart Done, Client 0 CallStart Done, Client 0 CallConcede Done,
     Client 0 CallConcede Done, Client 0 CallConcede Done, Client 1 CallStart Done, Client 1 CallStart Done, Client 1 CallStart Done]"

theorem EtcdElection_one_leader_witness:
  "\<exists>s. timely_reach 2 s \<and> ee_isLeader (e2_cands s ! 0) \<and> ee_isLeader (e2_cands s ! 1) \<and>
     (giving_up (e2_cands s ! 0) \<or> giving_up (e2_cands s ! 1))"
proof -
  have "schedule_yields timely_step ex_concede (candidates 2)
      (\<lambda>s. ee_isLeader (e2_cands s ! 0) \<and> ee_isLeader (e2_cands s ! 1))"
    by code_simp
  from schedule_yields_state [OF this] obtain s
    where s: "timely_reach 2 s" "ee_isLeader (e2_cands s ! 0)" "ee_isLeader (e2_cands s ! 1)"
    unfolding timely_reach_def by blast
  from EtcdElection_one_leader [OF s(1), of 0 1] s show ?thesis by auto
qed

section \<open>Flaws\<close>

definition two_leaders :: etcd2 where
  "two_leaders = \<lparr>e2_key = Some 1, e2_cands = replicate 2 \<lparr>ee_isLeader = True, ee_conceded = False, ee_cancelled = False,
     ee_client = ClientIdle, ee_loop = LoopSelect, ee_watch = WatchNext\<rparr>\<rparr>"

text \<open>
  C23: when the key expires while its creator is slow, two candidates are leaders for good: the second one creates the
  key, and as a refresh does not look at the value, the refreshes of both succeed and leave everything as it is.
\<close>

theorem EtcdElection_split_brain:
  "\<exists>s. etcd2_reach 2 s \<and> list_all (\<lambda>i. ee_isLeader (e2_cands s ! i) \<and> \<not> giving_up (e2_cands s ! i) \<and>
     run_schedule etcd2_step [Loop i Tick Done, Loop i Tick Done] s = Some (Ret s)) [0, 1]"
proof -
  have "schedule_yields etcd2_step [Client 0 CallStart Done, Client 0 CallStart Done, Client 0 CallStart Done, Expire,
      Client 1 CallStart Done, Client 1 CallStart Done, Client 1 CallStart Done] (candidates 2) (\<lambda>s. s = two_leaders)"
    by code_simp
  from schedule_yields_state [OF this] have "etcd2_reach 2 two_leaders" unfolding etcd2_reach_def by blast
  moreover have "list_all (\<lambda>i. ee_isLeader (e2_cands two_leaders ! i) \<and> \<not> giving_up (e2_cands two_leaders ! i) \<and>
     run_schedule etcd2_step [Loop i Tick Done, Loop i Tick Done] two_leaders = Some (Ret two_leaders)) [0, 1]"
    by code_simp
  ultimately show ?thesis by blast
qed

lemma etcd2_step_cases:
  assumes "etcd2_step a s = Some (Ret s')"
  shows "e2_cands s' = e2_cands s \<or>
    (\<exists>i k e. e2_cands s' = (e2_cands s)[i := e] \<and>
      ((\<exists>call r. client_step i call r (e2_key s) (e2_cands s ! i) = Some (k, e)) \<or>
       (\<exists>ev r. loop_step i ev r (e2_key s) (e2_cands s ! i) = Some (k, e)) \<or>
       (\<exists>res. Watch_step res (e2_cands s ! i) = Some e)))"
proof (cases a)
  case (Client i call r)
  then show ?thesis using assms by (intro disjI2 exI [of _ i]) (auto 5 5 simp: update_def split: if_splits)
next
  case (Loop i ev r)
  then show ?thesis using assms by (intro disjI2 exI [of _ i]) (auto 5 5 simp: update_def split: if_splits)
next
  case (Watch i res)
  then show ?thesis using assms by (intro disjI2 exI [of _ i] exI [of _ "e2_key s"]) (auto simp: update_def split: if_splits)
qed (use assms in auto)

text \<open>
  \<^verbatim>\<open>Stop\<close> can wait for ever: the channel from \<^verbatim>\<open>Watch\<close> to the loop of \<^verbatim>\<open>Start\<close> has no buffer, and when an event comes
  in as the loop ends, nobody receives it; then the goroutine of \<^verbatim>\<open>Watch\<close> never ends and \<^verbatim>\<open>Stop\<close> never returns, whatever
  happens next.
\<close>

theorem EtcdElection_Stop_hangs:
  assumes "etcd2_reach n s" and "i < n" and "ee_client (e2_cands s ! i) = StopWait"
    and "ee_loop (e2_cands s ! i) = LoopEnded" and "ee_watch (e2_cands s ! i) = WatchSend"
    and "(can_step etcd2_step)\<^sup>*\<^sup>* s s'"
  shows "ee_client (e2_cands s' ! i) = StopWait"
proof -
  have "e2_cands s' ! i = e2_cands s ! i" using assms(6)
  proof (induction rule: rtranclp_induct)
    case (step t t')
    then obtain a where a: "etcd2_step a t = Some (Ret t')" by (auto simp: can_step_def)
    have "client_step i call r k (e2_cands t ! i) = None" "loop_step i ev r k (e2_cands t ! i) = None" "Watch_step res (e2_cands t ! i) = None"
      for call r k ev res using step.IH assms(3-5) by (cases call; simp add: client_step_defs loop_step_def Watch_step_def)+
    then have "e2_cands t' ! i = e2_cands t ! i" using etcd2_step_cases [OF a] by (metis nth_list_update_neq option.distinct(1))
    then show ?case using step.IH by simp
  qed simp
  then show ?thesis using assms(3) by simp
qed

definition ex_stop_hang :: "action list" where
  "ex_stop_hang = [Client 0 CallStart Done, Client 0 CallStart Done, Client 0 CallStart Done, Watch 0 NextEvent,
     Client 0 CallStop Done, Loop 0 CtxDone Done, Loop 0 CtxDone Done, Loop 0 CtxDone Done]"

theorem EtcdElection_Stop_hangs_witness:
  "\<exists>s. etcd2_reach 1 s \<and> (\<forall>s'. (can_step etcd2_step)\<^sup>*\<^sup>* s s' \<longrightarrow> ee_client (e2_cands s' ! 0) = StopWait)"
proof -
  have "schedule_yields etcd2_step ex_stop_hang (candidates 1)
      (\<lambda>s. ee_client (e2_cands s ! 0) = StopWait \<and> ee_loop (e2_cands s ! 0) = LoopEnded \<and> ee_watch (e2_cands s ! 0) = WatchSend)"
    by code_simp
  from schedule_yields_state [OF this] obtain s where s: "etcd2_reach 1 s" "ee_client (e2_cands s ! 0) = StopWait"
    "ee_loop (e2_cands s ! 0) = LoopEnded" "ee_watch (e2_cands s ! 0) = WatchSend"
    unfolding etcd2_reach_def by blast
  have "ee_client (e2_cands s' ! 0) = StopWait" if "(can_step etcd2_step)\<^sup>*\<^sup>* s s'" for s'
    using EtcdElection_Stop_hangs [OF s(1) _ s(2-4) that] by simp
  then show ?thesis using s(1) by blast
qed

end
