(* ===== verification/Go_Duration.thy ===== *)
theory Go_Duration
  imports Go_Strings
begin

text \<open>
  The text form of \<^verbatim>\<open>time.Duration\<close> in the standard library of Go 1.12: \<^verbatim>\<open>Duration.String\<close> and \<^verbatim>\<open>ParseDuration\<close>. The only
  floating point operation, the fraction of a unit, is a parameter; what IEEE arithmetic promises of it is
  that it is exact where no rounding is needed.
\<close>

section \<open>Printing\<close>

text \<open>The loop of \<^verbatim>\<open>fmtFrac\<close> from the last digit on, without trailing zeros, and the rest of the number.\<close>

primrec fmtFrac :: "nat \<Rightarrow> bool \<Rightarrow> string \<Rightarrow> nat \<Rightarrow> string \<times> nat" where
  "fmtFrac 0 print acc v = (if print then CHR ''.'' # acc else acc, v)"
| "fmtFrac (Suc prec) print acc v =
     (let print' = (print \<or> v mod 10 \<noteq> 0)
      in fmtFrac prec print' (if print' then digit_char (v mod 10) # acc else acc) (v div 10))"

definition micro_sign :: string where
  "micro_sign = [CHR 0xC2, CHR 0xB5]"

definition fmt_unit :: "nat \<Rightarrow> string \<Rightarrow> nat \<Rightarrow> string" where
  "fmt_unit prec u v = (case fmtFrac prec False u v of (t, w) \<Rightarrow> nat_digits w @ t)"

definition duration_abs_String :: "nat \<Rightarrow> string" where
  "duration_abs_String u =
     (if u = 0 then ''0s''
      else if u < 10 ^ 3 then fmt_unit 0 ''ns'' u
      else if u < 10 ^ 6 then fmt_unit 3 (micro_sign @ ''s'') u
      else if u < 10 ^ 9 then fmt_unit 6 ''ms'' u
      else case fmtFrac 9 False ''s'' u of (t, secs) \<Rightarrow>
        let s1 = nat_digits (secs mod 60) @ t; mins = secs div 60
        in if mins = 0 then s1
           else let s2 = nat_digits (mins mod 60) @ ''m'' @ s1; hours = mins div 60
                in if hours = 0 then s2 else nat_digits hours @ ''h'' @ s2)"

definition Duration_String :: "int \<Rightarrow> string" where
  "Duration_String d = (if d < 0 then CHR ''-'' # duration_abs_String (nat (- d)) else duration_abs_String (nat d))"

section \<open>Parsing\<close>

fun leadingInt :: "nat \<Rightarrow> string \<Rightarrow> (nat \<times> string) option" where
  "leadingInt x [] = Some (x, [])"
| "leadingInt x (c # cs) =
     (case digit_val c of
        None \<Rightarrow> Some (x, c # cs)
      | Some d \<Rightarrow> if x > (2 ^ 63 - 1) div 10 \<or> 2 ^ 63 \<le> 10 * x + d then None else leadingInt (10 * x + d) cs)"

text \<open>The fraction, the number of its digits that count, and the rest.\<close>

fun leadingFraction :: "nat \<Rightarrow> nat \<Rightarrow> bool \<Rightarrow> string \<Rightarrow> nat \<times> nat \<times> string" where
  "leadingFraction x k overflow [] = (x, k, [])"
| "leadingFraction x k overflow (c # cs) =
     (case digit_val c of
        None \<Rightarrow> (x, k, c # cs)
      | Some d \<Rightarrow>
          if overflow \<or> x > (2 ^ 63 - 1) div 10 \<or> 2 ^ 63 \<le> 10 * x + d then leadingFraction x k True cs
          else leadingFraction (10 * x + d) (Suc k) False cs)"

definition unit_of :: "string \<Rightarrow> nat option" where
  "unit_of u =
     (if u = ''ns'' then Some 1
      else if u = ''us'' \<or> u = micro_sign @ ''s'' \<or> u = [CHR 0xCE, CHR 0xBC] @ ''s'' then Some (10 ^ 3)
      else if u = ''ms'' then Some (10 ^ 6)
      else if u = ''s'' then Some (10 ^ 9)
      else if u = ''m'' then Some (60 * 10 ^ 9)
      else if u = ''h'' then Some (3600 * 10 ^ 9)
      else None)"

definition number_char :: "char \<Rightarrow> bool" where
  "number_char c \<longleftrightarrow> c = CHR ''.'' \<or> digit_val c \<noteq> None"

text \<open>\<open>float_frac f unit k\<close> is \<^verbatim>\<open>int64(float64(f) * (float64(unit) / scale))\<close> with the scale ten to the power of \<open>k\<close>.\<close>

type_synonym float_fraction = "nat \<Rightarrow> nat \<Rightarrow> nat \<Rightarrow> nat"

definition parse_unit :: "float_fraction \<Rightarrow> nat \<Rightarrow> nat \<Rightarrow> nat \<Rightarrow> string \<Rightarrow> (nat \<times> string) option" where
  "parse_unit float_frac v f k s =
     (let u = takeWhile (\<lambda>c. \<not> number_char c) s; rest = dropWhile (\<lambda>c. \<not> number_char c) s
      in if u = [] then None
         else case unit_of u of
                None \<Rightarrow> None
              | Some unit \<Rightarrow>
                  if (2 ^ 63 - 1) div unit < v then None
                  else let w = v * unit + (if 0 < f then float_frac f unit k else 0)
                       in if 2 ^ 63 \<le> w then None else Some (w, rest))"

text \<open>One number with its unit.\<close>

definition parse_item :: "float_fraction \<Rightarrow> string \<Rightarrow> (nat \<times> string) option" where
  "parse_item float_frac s =
     (if s = [] \<or> \<not> number_char (hd s) then None
      else case leadingInt 0 s of
             None \<Rightarrow> None
           | Some (v, s1) \<Rightarrow>
               let pre = (length s1 \<noteq> length s)
               in if s1 \<noteq> [] \<and> hd s1 = CHR ''.'' then
                    case leadingFraction 0 0 False (tl s1) of (f, k, s2) \<Rightarrow>
                      if \<not> pre \<and> length s2 = length (tl s1) then None else parse_unit float_frac v f k s2
                  else if \<not> pre then None else parse_unit float_frac v 0 0 s1)"

lemma leadingInt_length: "leadingInt x s = Some (y, r) \<Longrightarrow> length r \<le> length s"
  by (induction x s rule: leadingInt.induct) (auto split: option.splits if_splits)

lemma leadingFraction_length: "leadingFraction x k ov s = (y, k', r) \<Longrightarrow> length r \<le> length s"
  by (induction x k ov s rule: leadingFraction.induct) (auto split: option.splits if_splits)

lemma parse_unit_length: "parse_unit ff v f k s = Some (w, r) \<Longrightarrow> length r < length s"
  by (auto simp: parse_unit_def Let_def split: option.splits if_splits)
    (metis add_diff_cancel_right' length_append length_greater_0_conv less_add_same_cancel2 takeWhile_dropWhile_id)+

lemma parse_item_length: "parse_item ff s = Some (w, r) \<Longrightarrow> length r < length s"
  by (auto simp: parse_item_def Let_def split: option.splits prod.splits if_splits
      dest!: parse_unit_length leadingInt_length leadingFraction_length)

function parse_items :: "float_fraction \<Rightarrow> nat \<Rightarrow> string \<Rightarrow> nat option" where
  "parse_items float_frac d s =
     (if s = [] then Some d
      else case parse_item float_frac s of
             None \<Rightarrow> None
           | Some (v, rest) \<Rightarrow> if 2 ^ 63 \<le> d + v then None else parse_items float_frac (d + v) rest)"
  by pat_completeness auto

termination
  by (relation "measure (\<lambda>(ff, d, s). length s)") (auto dest: parse_item_length)

declare parse_items.simps [simp del]

definition ParseDuration :: "float_fraction \<Rightarrow> string \<Rightarrow> int option" where
  "ParseDuration float_frac orig =
     (let neg = (orig \<noteq> [] \<and> hd orig = CHR ''-'');
          s = (if orig \<noteq> [] \<and> (hd orig = CHR ''-'' \<or> hd orig = CHR ''+'') then tl orig else orig)
      in if s = ''0'' then Some 0
         else if s = [] then None
         else map_option (\<lambda>d. if neg then - int d else int d) (parse_items float_frac 0 s))"

section \<open>Digits\<close>

text \<open>The value of a list of decimal digits.\<close>

primrec digits_value :: "nat list \<Rightarrow> nat" where
  "digits_value [] = 0"
| "digits_value (d # ds) = d * 10 ^ length ds + digits_value ds"

definition is_digits :: "nat list \<Rightarrow> bool" where
  "is_digits ds \<longleftrightarrow> (\<forall>d \<in> set ds. d < 10)"

lemma is_digits_simps [simp]: "is_digits []" "is_digits (d # ds) \<longleftrightarrow> d < 10 \<and> is_digits ds" "is_digits (xs @ ys) \<longleftrightarrow> is_digits xs \<and> is_digits ys"
  by (auto simp: is_digits_def)

lemma digits_value_append: "digits_value (xs @ ys) = digits_value xs * 10 ^ length ys + digits_value ys"
  by (induction xs) (simp_all add: algebra_simps power_add)

lemma digits_value_less: "is_digits ds \<Longrightarrow> digits_value ds < 10 ^ length ds"
proof (induction ds)
  case (Cons d ds)
  then have "d * 10 ^ length ds + digits_value ds < (d + 1) * 10 ^ length ds" by (simp add: algebra_simps)
  also have "\<dots> \<le> 10 * 10 ^ length ds" using Cons.prems by (intro mult_right_mono) simp_all
  finally show ?case by simp
qed simp

lemma nat_digits_list: "\<exists>ds. nat_digits n = map digit_char ds \<and> is_digits ds \<and> digits_value ds = n \<and> ds \<noteq> []"
proof (induction n rule: nat_digits.induct)
  case (1 n)
  show ?case
  proof (cases "n < 10")
    case True
    then show ?thesis by (intro exI [of _ "[n]"]) (simp add: nat_digits.simps [of n])
  next
    case False
    then obtain ds where "nat_digits (n div 10) = map digit_char ds" "is_digits ds" "digits_value ds = n div 10" using 1 by blast
    then show ?thesis using False
      by (intro exI [of _ "ds @ [n mod 10]"]) (simp add: nat_digits.simps [of n] digits_value_append)
  qed
qed

definition no_digit :: "string \<Rightarrow> bool" where
  "no_digit r \<longleftrightarrow> r = [] \<or> digit_val (hd r) = None"

lemma leadingInt_digits:
  assumes "is_digits ds" and "no_digit r" and "x * 10 ^ length ds + digits_value ds < 2 ^ 63"
  shows "leadingInt x (map digit_char ds @ r) = Some (x * 10 ^ length ds + digits_value ds, r)"
  using assms
proof (induction ds arbitrary: x)
  case Nil
  then show ?case by (cases r) (auto simp: no_digit_def)
next
  case (Cons d ds)
  have eq: "(10 * x + d) * 10 ^ length ds + digits_value ds = x * 10 ^ length (d # ds) + digits_value (d # ds)"
    by (simp add: algebra_simps)
  have "10 * x + d \<le> (10 * x + d) * 10 ^ length ds" by simp
  then have "10 * x + d < 2 ^ 63" using Cons.prems(3) eq by linarith
  then show ?case using Cons eq by (simp add: digit_val_char)
qed

lemma leadingFraction_digits:
  assumes "is_digits ds" and "no_digit r" and "x * 10 ^ length ds + digits_value ds < 2 ^ 63"
  shows "leadingFraction x k False (map digit_char ds @ r) = (x * 10 ^ length ds + digits_value ds, k + length ds, r)"
  using assms
proof (induction ds arbitrary: x k)
  case Nil
  then show ?case by (cases r) (auto simp: no_digit_def)
next
  case (Cons d ds)
  have eq: "(10 * x + d) * 10 ^ length ds + digits_value ds = x * 10 ^ length (d # ds) + digits_value (d # ds)"
    by (simp add: algebra_simps)
  have "10 * x + d \<le> (10 * x + d) * 10 ^ length ds" by simp
  then have "10 * x + d < 2 ^ 63" using Cons.prems(3) eq by linarith
  then show ?case using Cons eq by (simp add: digit_val_char)
qed

section \<open>Fractions\<close>

lemma fmtFrac_spec:
  assumes "is_digits ds" and "length ds \<le> m" and "print \<longleftrightarrow> ds \<noteq> []"
  shows "\<exists>es. fmtFrac n print (map digit_char ds @ r) v = ((if es = [] then r else CHR ''.'' # map digit_char es @ r), v div 10 ^ n) \<and>
    is_digits es \<and> length es \<le> n + m \<and>
    digits_value es * 10 ^ (n + m - length es) = v mod 10 ^ n * 10 ^ m + digits_value ds * 10 ^ (m - length ds)"
  using assms
proof (induction n arbitrary: print ds v m)
  case 0
  then show ?case by (intro exI [of _ ds]) auto
next
  case (Suc n)
  define print' where "print' = (print \<or> v mod 10 \<noteq> 0)"
  define ds' where "ds' = (if print' then v mod 10 # ds else ds)"
  have ds': "is_digits ds'" "length ds' \<le> Suc m" "print' \<longleftrightarrow> ds' \<noteq> []" using Suc.prems by (auto simp: ds'_def print'_def)
  have acc: "(if print' then digit_char (v mod 10) # map digit_char ds @ r else map digit_char ds @ r) = map digit_char ds' @ r"
    by (simp add: ds'_def)
  have val: "digits_value ds' * 10 ^ (Suc m - length ds') = v mod 10 * 10 ^ m + digits_value ds * 10 ^ (m - length ds)"
  proof (cases print')
    case True
    have "10 ^ length ds * 10 ^ (m - length ds) = (10 ^ m :: nat)" using Suc.prems(2) by (simp flip: power_add)
    then show ?thesis using True by (simp add: ds'_def algebra_simps)
  next
    case False
    then show ?thesis using Suc.prems(3) by (simp add: ds'_def print'_def)
  qed
  have "v mod 10 ^ Suc n * 10 ^ m = v div 10 mod 10 ^ n * 10 ^ Suc m + v mod 10 * 10 ^ m"
    using mod_mult2_eq [of v 10 "10 ^ n"] by (simp add: algebra_simps)
  moreover obtain es where "fmtFrac n print' (map digit_char ds' @ r) (v div 10) =
      ((if es = [] then r else CHR ''.'' # map digit_char es @ r), v div 10 div 10 ^ n)" "is_digits es" "length es \<le> n + Suc m"
    "digits_value es * 10 ^ (n + Suc m - length es) = v div 10 mod 10 ^ n * 10 ^ Suc m + digits_value ds' * 10 ^ (Suc m - length ds')"
    using Suc.IH [OF ds'] by blast
  moreover have "fmtFrac (Suc n) print (map digit_char ds @ r) v = fmtFrac n print' (map digit_char ds' @ r) (v div 10)"
    unfolding acc [symmetric] by (simp only: fmtFrac.simps Let_def print'_def)
  ultimately show ?case using val by (intro exI [of _ es]) (simp add: div_mult2_eq [symmetric] del: fmtFrac.simps)
qed

lemma fmtFrac_start:
  "\<exists>es. fmtFrac n False r v = ((if es = [] then r else CHR ''.'' # map digit_char es @ r), v div 10 ^ n) \<and>
    is_digits es \<and> length es \<le> n \<and> digits_value es * 10 ^ (n - length es) = v mod 10 ^ n"
  using fmtFrac_spec [of "[]" 0 False n r v] by simp

section \<open>The round trip\<close>

text \<open>What IEEE arithmetic promises: the fraction of a unit is exact when the scale divides the unit and the result is small.\<close>

definition exact_fractions :: "float_fraction \<Rightarrow> bool" where
  "exact_fractions ff \<longleftrightarrow> (\<forall>f unit k. 10 ^ k dvd unit \<and> f < 10 ^ k \<and> unit \<le> 2 ^ 52 \<longrightarrow> ff f unit k = f * (unit div 10 ^ k))"

definition starts_number :: "string \<Rightarrow> bool" where
  "starts_number r \<longleftrightarrow> r = [] \<or> number_char (hd r)"

lemma digit_number_char: "d < 10 \<Longrightarrow> number_char (digit_char d)"
  by (simp add: number_char_def digit_val_char)

lemma parse_unit_here:
  assumes "list_all (\<lambda>c. \<not> number_char c) u" and "u \<noteq> []" and "starts_number r" and "unit_of u = Some unit"
    and "v * unit + (if 0 < f then ff f unit k else 0) = w" and "w < 2 ^ 63" and "0 < unit"
  shows "parse_unit ff v f k (u @ r) = Some (w, r)"
proof -
  have "takeWhile (\<lambda>c. \<not> number_char c) (u @ r) = u" "dropWhile (\<lambda>c. \<not> number_char c) (u @ r) = r"
    using assms(1,3) by (cases r; simp add: list_all_iff starts_number_def takeWhile_append dropWhile_append)+
  moreover have "v * unit < 2 ^ 63" using assms(5,6) by linarith
  then have "v \<le> (2 ^ 63 - 1) div unit" using assms(7) by (simp add: less_eq_div_iff_mult_less_eq)
  ultimately show ?thesis using assms(2,4-6) by (simp add: parse_unit_def not_less)
qed

text \<open>A number, perhaps with a fraction, and its unit.\<close>

lemma parse_item_number:
  assumes ff: "exact_fractions ff" and u: "list_all (\<lambda>c. \<not> number_char c) u" "u \<noteq> []" and r: "starts_number r"
    and unit: "unit_of u = Some unit" "0 < unit" and es: "is_digits es" "es \<noteq> [] \<longrightarrow> 10 ^ length es dvd unit \<and> unit \<le> 2 ^ 52" "length es \<le> 9"
    and w: "n * unit + digits_value es * (unit div 10 ^ length es) = w" "w < 2 ^ 63"
  shows "parse_item ff (nat_digits n @ (if es = [] then u @ r else CHR ''.'' # map digit_char es @ u @ r)) = Some (w, r)"
proof -
  obtain ds where ds: "nat_digits n = map digit_char ds" "is_digits ds" "digits_value ds = n" "ds \<noteq> []" using nat_digits_list by blast
  have "n * 1 \<le> n * unit" using unit(2) by (intro mult_left_mono) simp_all
  then have n: "n < 2 ^ 63" using w by linarith
  have u_nodigit: "no_digit (u @ r)" using u by (cases u) (auto simp: no_digit_def number_char_def)
  have u_nodot: "hd (u @ r) \<noteq> CHR ''.''" using u by (cases u) (auto simp: number_char_def)
  have dot: "digit_val CHR ''.'' = None" by (simp add: digit_val_def)
  have hd: "number_char (hd (map digit_char ds @ x))" for x using ds(2,4) by (cases ds) (simp_all add: digit_number_char)
  show ?thesis
  proof (cases "es = []")
    case True
    have "leadingInt 0 (map digit_char ds @ u @ r) = Some (n, u @ r)"
      using leadingInt_digits [of ds "u @ r" 0] ds u_nodigit n by simp
    moreover have "parse_unit ff n 0 0 (u @ r) = Some (w, r)" using w True by (intro parse_unit_here [OF u r unit(1) _ _ unit(2)]) simp_all
    ultimately show ?thesis using True ds hd u u_nodot by (simp add: parse_item_def)
  next
    case False
    have val: "digits_value es < 10 ^ length es" by (rule digits_value_less [OF es(1)])
    moreover have "(10 :: nat) ^ length es \<le> 10 ^ 9" using es(3) by (intro power_increasing) simp_all
    ultimately have small: "digits_value es < 2 ^ 63" by simp
    let ?s = "CHR ''.'' # map digit_char es @ u @ r"
    have "leadingInt 0 (map digit_char ds @ ?s) = Some (n, ?s)"
      using leadingInt_digits [of ds ?s 0] ds n dot by (simp add: no_digit_def)
    moreover have "leadingFraction 0 0 False (map digit_char es @ u @ r) = (digits_value es, length es, u @ r)"
      using leadingFraction_digits [of es "u @ r" 0 0] es(1) u_nodigit small by simp
    moreover have "ff (digits_value es) unit (length es) = digits_value es * (unit div 10 ^ length es)"
      using ff es(2) False val by (simp add: exact_fractions_def)
    then have "parse_unit ff n (digits_value es) (length es) (u @ r) = Some (w, r)"
      using w by (intro parse_unit_here [OF u r unit(1) _ _ unit(2)]) auto
    ultimately show ?thesis using False ds hd by (simp add: parse_item_def)
  qed
qed

text \<open>A value in a unit of a power of ten nanoseconds, as it is printed, is read as the number of nanoseconds.\<close>

lemma parse_item_fmt_unit:
  assumes "exact_fractions ff" and "list_all (\<lambda>c. \<not> number_char c) u" "u \<noteq> []" "starts_number r"
    and "unit_of u = Some (10 ^ prec)" and "prec \<le> 9" and "v < 2 ^ 63"
  shows "\<exists>t. fmtFrac prec False (u @ r) v = (t, v div 10 ^ prec) \<and> parse_item ff (nat_digits (v div 10 ^ prec) @ t) = Some (v, r) \<and>
    (m * 10 ^ prec + v mod 10 ^ prec = w \<longrightarrow> w < 2 ^ 63 \<longrightarrow> parse_item ff (nat_digits m @ t) = Some (w, r))"
proof -
  obtain es where es: "fmtFrac prec False (u @ r) v = ((if es = [] then u @ r else CHR ''.'' # map digit_char es @ u @ r), v div 10 ^ prec)"
    "is_digits es" "length es \<le> prec" "digits_value es * 10 ^ (prec - length es) = v mod 10 ^ prec"
    using fmtFrac_start [of prec "u @ r" v] by blast
  have "(10 :: nat) ^ length es dvd 10 ^ prec" using es(3) by (intro le_imp_power_dvd)
  moreover have "(10 :: nat) ^ prec \<le> 10 ^ 9" using assms(6) by (intro power_increasing) simp_all
  moreover have "(10 :: nat) ^ prec div 10 ^ length es = 10 ^ (prec - length es)" using es(3) by (simp add: power_diff)
  ultimately have item: "parse_item ff (nat_digits m @ (if es = [] then u @ r else CHR ''.'' # map digit_char es @ u @ r)) = Some (w, r)"
    if "m * 10 ^ prec + v mod 10 ^ prec = w" "w < 2 ^ 63" for m w
    using es assms that by (intro parse_item_number [where unit = "10 ^ prec"]) auto
  have "v div 10 ^ prec * 10 ^ prec + v mod 10 ^ prec = v" by (rule div_mult_mod_eq)
  then show ?thesis using es(1) item assms(7) by blast
qed

lemma parse_items_cons: "parse_item ff s = Some (v, r) \<Longrightarrow> d + v < 2 ^ 63 \<Longrightarrow> parse_items ff d s = parse_items ff (d + v) r"
  by (subst parse_items.simps) (auto simp: parse_item_def)

lemma parse_items_Nil [simp]: "parse_items ff d [] = Some d"
  by (simp add: parse_items.simps)

lemma starts_number_digits: "starts_number (nat_digits n @ r)"
proof -
  obtain ds where "nat_digits n = map digit_char ds" "is_digits ds" "ds \<noteq> []" using nat_digits_list by blast
  then show ?thesis by (cases ds) (simp_all add: starts_number_def digit_number_char)
qed

lemma units_plain: "list_all (\<lambda>c. \<not> number_char c) u" if "u \<in> {''ns'', micro_sign @ ''s'', ''ms'', ''s'', ''m'', ''h''}"
  using that by (auto simp: number_char_def digit_val_def micro_sign_def)

lemma parse_items_unit:
  assumes "exact_fractions ff" and "u \<in> {''ns'', micro_sign @ ''s'', ''ms'', ''s''}" and "unit_of u = Some (10 ^ prec)" and "prec \<le> 9" and "v < 2 ^ 63"
  shows "parse_items ff 0 (fmt_unit prec u v) = Some v"
proof -
  have "list_all (\<lambda>c. \<not> number_char c) u" "u \<noteq> []" "starts_number []" using assms(2) units_plain by (auto simp: starts_number_def micro_sign_def)
  from parse_item_fmt_unit [OF assms(1) this assms(3-5)] obtain t where
    "fmtFrac prec False u v = (t, v div 10 ^ prec)" "parse_item ff (nat_digits (v div 10 ^ prec) @ t) = Some (v, [])" by auto
  then show ?thesis using assms(5) parse_items_cons [of ff _ v "[]" 0] by (simp add: fmt_unit_def)
qed

text \<open>A whole number of minutes or hours in front.\<close>

lemma parse_items_whole:
  assumes "exact_fractions ff" and "u \<in> {''m'', ''h''}" and "unit_of u = Some unit" and "d + n * unit < 2 ^ 63" and "starts_number r"
  shows "parse_items ff d (nat_digits n @ u @ r) = parse_items ff (d + n * unit) r"
proof -
  have "list_all (\<lambda>c. \<not> number_char c) u" using assms(2) by (intro units_plain) auto
  moreover have "u \<noteq> []" "0 < unit" using assms(2,3) by (auto simp: unit_of_def micro_sign_def)
  ultimately have "parse_item ff (nat_digits n @ u @ r) = Some (n * unit, r)"
    using parse_item_number [of ff u r unit "[]" n "n * unit"] assms by simp
  then show ?thesis using assms(4) parse_items_cons by blast
qed

lemma parse_items_String:
  assumes ff: "exact_fractions ff" and u: "u < 2 ^ 63"
  shows "parse_items ff 0 (duration_abs_String u) = Some u"
proof -
  consider (zero) "u = 0" | (ns) "0 < u" "u < 10 ^ 3" | (us) "10 ^ 3 \<le> u" "u < 10 ^ 6" | (ms) "10 ^ 6 \<le> u" "u < 10 ^ 9" | (s) "10 ^ 9 \<le> u"
    by linarith
  then show ?thesis
  proof cases
    case zero
    have "parse_items ff 0 (fmt_unit 9 ''s'' 0) = Some 0" by (rule parse_items_unit [OF ff]) (simp_all add: unit_of_def micro_sign_def)
    moreover have "fmt_unit 9 ''s'' 0 = ''0s''" by code_simp
    ultimately show ?thesis using zero by (simp add: duration_abs_String_def)
  next
    case ns
    then show ?thesis using parse_items_unit [OF ff, of "''ns''" 0 u] u by (simp add: duration_abs_String_def unit_of_def)
  next
    case us
    then show ?thesis using parse_items_unit [OF ff, of "micro_sign @ ''s''" 3 u] u by (simp add: duration_abs_String_def unit_of_def micro_sign_def)
  next
    case ms
    then show ?thesis using parse_items_unit [OF ff, of "''ms''" 6 u] u by (simp add: duration_abs_String_def unit_of_def micro_sign_def)
  next
    case s
    define secs where "secs = u div 10 ^ 9"
    define mins where "mins = secs div 60"
    define w where "w = secs mod 60 * 10 ^ 9 + u mod 10 ^ 9"
    have total: "mins * (60 * 10 ^ 9) + w = u"
      unfolding w_def mins_def secs_def by (metis (no_types, lifting) add.assoc add_mult_distrib div_mult_mod_eq mult.assoc)
    then have "w < 2 ^ 63" using u by linarith
    obtain t where t: "fmtFrac 9 False ''s'' u = (t, secs)" "parse_item ff (nat_digits (secs mod 60) @ t) = Some (w, [])"
      using parse_item_fmt_unit [OF ff, of "''s''" "[]" 9 u "secs mod 60" w] u \<open>w < 2 ^ 63\<close> units_plain [of "''s''"]
      by (auto simp: starts_number_def unit_of_def micro_sign_def secs_def w_def)
    have seconds: "parse_items ff d (nat_digits (secs mod 60) @ t) = Some (d + w)" if "d + w < 2 ^ 63" for d
      using parse_items_cons [OF t(2) that] by simp
    have minutes: "parse_items ff d (nat_digits m @ ''m'' @ nat_digits (secs mod 60) @ t) = Some (d + m * (60 * 10 ^ 9) + w)"
      if "d + m * (60 * 10 ^ 9) + w < 2 ^ 63" for d m
      using parse_items_whole [OF ff, of "''m''" "60 * 10 ^ 9" d m] seconds that starts_number_digits by (simp add: unit_of_def micro_sign_def)
    have hours: "mins div 60 * (3600 * 10 ^ 9) + mins mod 60 * (60 * 10 ^ 9) = mins * (60 * 10 ^ 9)"
    proof -
      have "a * (3600 * x) + b * (60 * x) = (a * 60 + b) * (60 * x)" for a b x :: nat by (simp add: algebra_simps)
      then show ?thesis by (metis div_mult_mod_eq)
    qed
    have "parse_items ff 0 (nat_digits (mins div 60) @ ''h'' @ nat_digits (mins mod 60) @ ''m'' @ nat_digits (secs mod 60) @ t) = Some u"
      using parse_items_whole [OF ff, of "''h''" "3600 * 10 ^ 9" 0 "mins div 60"] minutes hours total u starts_number_digits
      by (simp add: unit_of_def micro_sign_def)
    moreover have "mins div 60 = 0 \<longrightarrow> mins mod 60 = mins" by (simp add: div_eq_0_iff)
    ultimately show ?thesis using s t(1) total u seconds [of 0] minutes [of 0 mins]
      by (cases "mins = 0"; cases "mins div 60 = 0") (simp_all add: duration_abs_String_def mins_def [symmetric] Let_def del: div_eq_0_iff)
  qed
qed

lemma duration_abs_String_shape:
  assumes "exact_fractions ff" and "u < 2 ^ 63"
  shows "duration_abs_String u \<noteq> []" "number_char (hd (duration_abs_String u))" "duration_abs_String u \<noteq> ''0''"
proof -
  show ne: "duration_abs_String u \<noteq> []"
    by (auto simp: duration_abs_String_def fmt_unit_def Let_def split: prod.splits)
  have parsed: "parse_items ff 0 (duration_abs_String u) = Some u" by (rule parse_items_String [OF assms])
  then show "number_char (hd (duration_abs_String u))"
    using ne by (subst (asm) parse_items.simps) (auto simp: parse_item_def split: if_splits)
  show "duration_abs_String u \<noteq> ''0''"
  proof
    assume "duration_abs_String u = ''0''"
    then have "parse_items ff 0 ''0'' \<noteq> None" using parsed by simp
    moreover have "parse_item ff ''0'' = None"
      by (simp add: parse_item_def number_char_def digit_val_def parse_unit_def)
    ultimately show False by (simp add: parse_items.simps)
  qed
qed

lemma ParseDuration_String:
  assumes ff: "exact_fractions ff" and d: "- (2 ^ 63) < d" "d < 2 ^ 63"
  shows "ParseDuration ff (Duration_String d) = Some d"
proof -
  let ?u = "nat \<bar>d\<bar>"
  have u: "?u < 2 ^ 63" using d by (simp add: nat_less_iff)
  note shape = duration_abs_String_shape [OF ff u] and parse = parse_items_String [OF ff u]
  have "\<not> number_char CHR ''-''" "\<not> number_char CHR ''+''" by (simp_all add: number_char_def digit_val_def)
  then have "hd (duration_abs_String ?u) \<noteq> CHR ''-''" "hd (duration_abs_String ?u) \<noteq> CHR ''+''" using shape(2) by auto
  then show ?thesis using shape parse by (cases "d < 0") (simp_all add: Duration_String_def ParseDuration_def Let_def)
qed

end
