(* ===== verification/Etcd_Config.thy ===== *)
theory Etcd_Config
  imports Go_Duration
begin

text \<open>
  \<^verbatim>\<open>etcdutil/config.go\<close> (\<^verbatim>\<open>v3/etcdutil/config.go\<close> has the same code): the configuration of an etcd client from what the
  caller gives and the environment. Environment variables, files and the loading of certificates are
  parameters. A slice or pointer that may be nil is an option; \<^verbatim>\<open>SetDefault\<close> replaces a string that is empty, a number
  that is zero and a pointer or slice that is nil.
\<close>

record TLSConfig =
  tls_RootCAs :: "string option"
  tls_Certificates :: "string list option"
  tls_InsecureSkipVerify :: bool

record EtcdClientConfig =
  cf_Endpoints :: "string list option"
  cf_DialTimeout :: duration
  cf_TLS :: "TLSConfig option"
  cf_Username :: string
  cf_Password :: string

record system =
  sys_Getenv :: "string \<Rightarrow> string"
  sys_ReadFile :: "string \<Rightarrow> string + string"
  sys_LoadX509KeyPair :: "string \<Rightarrow> string \<Rightarrow> string + string"
  sys_float :: float_fraction

datatype config_error = NotADuration string | LoadingCA string string | LoadingCert string string string

definition localEtcdEndpoint :: string where
  "localEtcdEndpoint = ''127.0.0.1:2379''"

definition empty_TLS :: TLSConfig where
  "empty_TLS = \<lparr>tls_RootCAs = None, tls_Certificates = None, tls_InsecureSkipVerify = False\<rparr>"

definition empty_config :: EtcdClientConfig where
  "empty_config = \<lparr>cf_Endpoints = None, cf_DialTimeout = 0, cf_TLS = None, cf_Username = [], cf_Password = []\<rparr>"

definition default_string :: "string \<Rightarrow> string \<Rightarrow> string" where
  "default_string s d = (if s = [] then d else s)"

definition default_pointer :: "'a option \<Rightarrow> 'a option \<Rightarrow> 'a option" where
  "default_pointer p d = (case p of None \<Rightarrow> d | Some x \<Rightarrow> Some x)"

text \<open>The TLS configuration, made when there is none.\<close>

definition with_TLS :: "(TLSConfig \<Rightarrow> TLSConfig) \<Rightarrow> EtcdClientConfig \<Rightarrow> EtcdClientConfig" where
  "with_TLS f cfg = cfg\<lparr>cf_TLS := Some (f (case cf_TLS cfg of None \<Rightarrow> empty_TLS | Some t \<Rightarrow> t))\<rparr>"

text \<open>The parts of \<^verbatim>\<open>NewConfig\<close>, in order; an error ends it.\<close>

definition config_timeout :: "system \<Rightarrow> EtcdClientConfig \<Rightarrow> config_error + EtcdClientConfig" where
  "config_timeout sys cfg =
     (let cfg1 = cfg\<lparr>cf_DialTimeout := (if cf_DialTimeout cfg = 0 then 5 * Second else cf_DialTimeout cfg)\<rparr>;
          timeout = sys_Getenv sys ''ETCD3_DIAL_TIMEOUT''
      in if timeout = [] then Inr cfg1
         else case ParseDuration (sys_float sys) timeout of
                None \<Rightarrow> Inl (NotADuration timeout)
              | Some d \<Rightarrow> Inr (cfg1\<lparr>cf_DialTimeout := d\<rparr>))"

definition config_CA :: "system \<Rightarrow> EtcdClientConfig \<Rightarrow> config_error + EtcdClientConfig" where
  "config_CA sys cfg =
     (let tlsCAFile = sys_Getenv sys ''ETCD3_CA''
      in if tlsCAFile = [] then Inr cfg
         else case sys_ReadFile sys tlsCAFile of
                Inl err \<Rightarrow> Inl (LoadingCA tlsCAFile err)
              | Inr pemBytes \<Rightarrow>
                  Inr (with_TLS (\<lambda>t. t\<lparr>tls_RootCAs := default_pointer (tls_RootCAs t) (Some pemBytes), tls_InsecureSkipVerify := False\<rparr>) cfg))"

definition config_cert :: "system \<Rightarrow> EtcdClientConfig \<Rightarrow> config_error + EtcdClientConfig" where
  "config_cert sys cfg =
     (let tlsCertFile = sys_Getenv sys ''ETCD3_TLS_CERT''; tlsKeyFile = sys_Getenv sys ''ETCD3_TLS_KEY''
      in if tlsCertFile = [] \<or> tlsKeyFile = [] then Inr cfg
         else case sys_LoadX509KeyPair sys tlsCertFile tlsKeyFile of
                Inl err \<Rightarrow> Inl (LoadingCert tlsCertFile tlsKeyFile err)
              | Inr tlsCert \<Rightarrow> Inr (with_TLS (\<lambda>t. t\<lparr>tls_Certificates := default_pointer (tls_Certificates t) (Some [tlsCert])\<rparr>) cfg))"

definition config_endpoints :: "system \<Rightarrow> EtcdClientConfig \<Rightarrow> EtcdClientConfig" where
  "config_endpoints sys cfg =
     (let envEndpoint = default_string (sys_Getenv sys ''ETCD3_ENDPOINT'') localEtcdEndpoint
      in cfg\<lparr>cf_Endpoints := default_pointer (cf_Endpoints cfg) (Some (strings_Split (CHR '','') envEndpoint))\<rparr>)"

definition config_flags :: "system \<Rightarrow> EtcdClientConfig \<Rightarrow> EtcdClientConfig" where
  "config_flags sys cfg =
     (let cfg1 = (if sys_Getenv sys ''ETCD3_SKIP_VERIFY'' \<noteq> [] then with_TLS (\<lambda>t. t\<lparr>tls_InsecureSkipVerify := True\<rparr>) cfg else cfg)
      in if sys_Getenv sys ''ETCD3_ENABLE_TLS'' \<noteq> [] then with_TLS id cfg1 else cfg1)"

definition result_bind :: "'e + 'a \<Rightarrow> ('a \<Rightarrow> 'e + 'b) \<Rightarrow> 'e + 'b" where
  "result_bind r f = (case r of Inl e \<Rightarrow> Inl e | Inr x \<Rightarrow> f x)"

definition NewConfig :: "system \<Rightarrow> EtcdClientConfig option \<Rightarrow> config_error + EtcdClientConfig" where
  "NewConfig sys config =
     (let cfg = (case config of None \<Rightarrow> empty_config | Some c \<Rightarrow> c);
          cfg1 = cfg\<lparr>cf_Username := default_string (cf_Username cfg) (sys_Getenv sys ''ETCD3_USER''),
                     cf_Password := default_string (cf_Password cfg) (sys_Getenv sys ''ETCD3_PASSWORD'')\<rparr>
      in result_bind (config_timeout sys cfg1) (\<lambda>cfg2.
         result_bind (config_CA sys cfg2) (\<lambda>cfg3.
         result_bind (config_cert sys cfg3) (\<lambda>cfg4.
         Inr (config_flags sys (config_endpoints sys cfg4))))))"

text \<open>\<^verbatim>\<open>NewClient\<close>: \<open>etcd_New\<close> is the third-party constructor.\<close>

datatype client_error = BuildConfig config_error | CreateClient string

definition NewClient :: "(EtcdClientConfig \<Rightarrow> string + 'c) \<Rightarrow> system \<Rightarrow> EtcdClientConfig option \<Rightarrow> client_error + 'c" where
  "NewClient etcd_New sys config =
     (case NewConfig sys config of
        Inl err \<Rightarrow> Inl (BuildConfig err)
      | Inr cfg \<Rightarrow> (case etcd_New cfg of Inl err \<Rightarrow> Inl (CreateClient err) | Inr c \<Rightarrow> Inr c))"

section \<open>Correctness\<close>

text \<open>What asks for an encrypted connection.\<close>

definition wants_TLS :: "system \<Rightarrow> EtcdClientConfig \<Rightarrow> bool" where
  "wants_TLS sys cfg \<longleftrightarrow> cf_TLS cfg \<noteq> None \<or> sys_Getenv sys ''ETCD3_CA'' \<noteq> [] \<or>
     sys_Getenv sys ''ETCD3_TLS_CERT'' \<noteq> [] \<and> sys_Getenv sys ''ETCD3_TLS_KEY'' \<noteq> [] \<or>
     sys_Getenv sys ''ETCD3_SKIP_VERIFY'' \<noteq> [] \<or> sys_Getenv sys ''ETCD3_ENABLE_TLS'' \<noteq> []"

definition insecure :: "EtcdClientConfig \<Rightarrow> bool" where
  "insecure cfg \<longleftrightarrow> (\<exists>t. cf_TLS cfg = Some t \<and> tls_InsecureSkipVerify t)"

lemma config_timeout_keeps:
  assumes "config_timeout sys cfg = Inr cfg'"
  shows "cf_Username cfg' = cf_Username cfg" "cf_Endpoints cfg' = cf_Endpoints cfg" "cf_TLS cfg' = cf_TLS cfg"
    "sys_Getenv sys ''ETCD3_DIAL_TIMEOUT'' \<noteq> [] \<longrightarrow> ParseDuration (sys_float sys) (sys_Getenv sys ''ETCD3_DIAL_TIMEOUT'') = Some (cf_DialTimeout cfg')"
  using assms by (auto simp: config_timeout_def Let_def split: if_splits option.splits)

lemma config_CA_keeps:
  assumes "config_CA sys cfg = Inr cfg'"
  shows "cf_Username cfg' = cf_Username cfg" "cf_Endpoints cfg' = cf_Endpoints cfg" "cf_DialTimeout cfg' = cf_DialTimeout cfg"
    "cf_TLS cfg' \<noteq> None \<longleftrightarrow> cf_TLS cfg \<noteq> None \<or> sys_Getenv sys ''ETCD3_CA'' \<noteq> []"
    "insecure cfg' \<longleftrightarrow> insecure cfg \<and> sys_Getenv sys ''ETCD3_CA'' = []"
  using assms by (auto simp: config_CA_def with_TLS_def insecure_def Let_def split: if_splits sum.splits)

lemma config_cert_keeps:
  assumes "config_cert sys cfg = Inr cfg'"
  shows "cf_Username cfg' = cf_Username cfg" "cf_Endpoints cfg' = cf_Endpoints cfg" "cf_DialTimeout cfg' = cf_DialTimeout cfg"
    "cf_TLS cfg' \<noteq> None \<longleftrightarrow> cf_TLS cfg \<noteq> None \<or> sys_Getenv sys ''ETCD3_TLS_CERT'' \<noteq> [] \<and> sys_Getenv sys ''ETCD3_TLS_KEY'' \<noteq> []"
    "insecure cfg' \<longleftrightarrow> insecure cfg"
  using assms by (auto simp: config_cert_def with_TLS_def insecure_def empty_TLS_def Let_def split: if_splits sum.splits option.splits)

lemma config_flags_keeps:
  "cf_Username (config_flags sys cfg) = cf_Username cfg" "cf_Endpoints (config_flags sys cfg) = cf_Endpoints cfg"
  "cf_DialTimeout (config_flags sys cfg) = cf_DialTimeout cfg"
  "cf_TLS (config_flags sys cfg) \<noteq> None \<longleftrightarrow> cf_TLS cfg \<noteq> None \<or> sys_Getenv sys ''ETCD3_SKIP_VERIFY'' \<noteq> [] \<or> sys_Getenv sys ''ETCD3_ENABLE_TLS'' \<noteq> []"
  "insecure (config_flags sys cfg) \<longleftrightarrow> insecure cfg \<or> sys_Getenv sys ''ETCD3_SKIP_VERIFY'' \<noteq> []"
  by (auto simp: config_flags_def with_TLS_def insecure_def empty_TLS_def Let_def split: option.splits)

lemma config_endpoints_keeps:
  "cf_Username (config_endpoints sys cfg) = cf_Username cfg" "cf_DialTimeout (config_endpoints sys cfg) = cf_DialTimeout cfg"
  "cf_TLS (config_endpoints sys cfg) = cf_TLS cfg" "insecure (config_endpoints sys cfg) = insecure cfg"
  by (simp_all add: config_endpoints_def insecure_def Let_def)

lemma localEtcdEndpoint_Split: "strings_Split (CHR '','') localEtcdEndpoint = [''127.0.0.1:2379'']"
  by (simp add: localEtcdEndpoint_def)


definition ex_system :: system where
  "ex_system = \<lparr>sys_Getenv = (\<lambda>v. if v = ''ETCD3_ENDPOINT'' then ''a:1,b:2'' else if v = ''ETCD3_CA'' then ''ca.pem''
       else if v = ''ETCD3_SKIP_VERIFY'' then ''1'' else []),
     sys_ReadFile = (\<lambda>_. Inr ''pem''), sys_LoadX509KeyPair = (\<lambda>_ _. Inl ''none''), sys_float = (\<lambda>f unit k. f * unit div 10 ^ k)\<rparr>"


end
