(* ===== verification/Durations.thy ===== *)
theory Durations
  imports Go_Duration Etcd_Session Complex_Main
begin

text \<open>
  \<^verbatim>\<open>clock/duration.go\<close> (\<^verbatim>\<open>v3/clock/duration.go\<close> has the same code): a duration in JSON. The decoder of \<^verbatim>\<open>encoding/json\<close>,
  which gives a value of a dynamic type, is a parameter. A \<^verbatim>\<open>float64\<close> is the rational number it stands for.
\<close>

datatype dynamic =
    OfDuration duration
  | OfFloat64 rat
  | OfInt64 int
  | OfInt int
  | OfBytes string
  | OfString string
  | OfOther string

datatype duration_error = WhileParsingBytes string | WhileParsingString string | BadType string | JSONError string

definition float64_to_int64 :: "rat \<Rightarrow> int" where
  "float64_to_int64 x = float_to_int64 (if x < 0 then \<lceil>x\<rceil> else \<lfloor>x\<rfloor>)"

definition NewDurationJSON :: "float_fraction \<Rightarrow> dynamic \<Rightarrow> duration_error + duration" where
  "NewDurationJSON ff v =
     (case v of
        OfDuration d \<Rightarrow> Inr d
      | OfFloat64 x \<Rightarrow> Inr (float64_to_int64 x)
      | OfInt64 i \<Rightarrow> Inr i
      | OfInt i \<Rightarrow> Inr i
      | OfBytes b \<Rightarrow> (case ParseDuration ff b of None \<Rightarrow> Inl (WhileParsingBytes b) | Some d \<Rightarrow> Inr d)
      | OfString s \<Rightarrow> (case ParseDuration ff s of None \<Rightarrow> Inl (WhileParsingString s) | Some d \<Rightarrow> Inr d)
      | OfOther t \<Rightarrow> Inl (BadType t))"

definition NewDurationJSONOrPanic :: "float_fraction \<Rightarrow> dynamic \<Rightarrow> duration go" where
  "NewDurationJSONOrPanic ff v = (case NewDurationJSON ff v of Inl err \<Rightarrow> Panic (UserPanic ''duration'') | Inr d \<Rightarrow> Ret d)"

text \<open>A string without characters to escape, as JSON.\<close>

definition json_quote :: "string \<Rightarrow> string" where
  "json_quote s = [CHR 0x22] @ s @ [CHR 0x22]"

definition MarshalJSON :: "duration \<Rightarrow> string" where
  "MarshalJSON d = json_quote (Duration_String d)"

definition DurationJSON_String :: "duration \<Rightarrow> string" where
  "DurationJSON_String d = Duration_String d"

text \<open>The value that the receiver points to is assigned also when the conversion fails.\<close>

definition UnmarshalJSON ::
  "(string \<Rightarrow> string + dynamic) \<Rightarrow> float_fraction \<Rightarrow> string \<Rightarrow> duration \<Rightarrow> duration \<times> duration_error option" where
  "UnmarshalJSON json_Unmarshal ff b d =
     (case json_Unmarshal b of
        Inl err \<Rightarrow> (d, Some (JSONError err))
      | Inr v \<Rightarrow> (case NewDurationJSON ff v of Inl err \<Rightarrow> (0, Some err) | Inr d' \<Rightarrow> (d', None)))"

text \<open>What the code relies on: a JSON string with nothing to escape decodes to its characters.\<close>



definition decodes_strings :: "(string \<Rightarrow> string + dynamic) \<Rightarrow> bool" where
  "decodes_strings json_Unmarshal \<longleftrightarrow>
     (\<forall>d. json_Unmarshal (json_quote (Duration_String d)) = Inr (OfString (Duration_String d)))"

text \<open>
  C32: a duration survives JSON: whatever the duration, what \<^verbatim>\<open>MarshalJSON\<close> writes is read back by \<^verbatim>\<open>UnmarshalJSON\<close> as
  the same number of nanoseconds, and \<^verbatim>\<open>NewDurationJSON\<close> accepts the text form as a string and as bytes. The one
  exception is the smallest duration.
\<close>

theorem Duration_JSON_roundtrip:
  assumes "exact_fractions ff" and "decodes_strings json_Unmarshal" and "- (2 ^ 63) < d" and "d < 2 ^ 63"
  shows "UnmarshalJSON json_Unmarshal ff (MarshalJSON d) d0 = (d, None) \<and>
    NewDurationJSON ff (OfString (Duration_String d)) = Inr d \<and> NewDurationJSON ff (OfBytes (Duration_String d)) = Inr d"
  using ParseDuration_String [OF assms(1,3,4)] assms(2)
  by (simp add: UnmarshalJSON_def MarshalJSON_def NewDurationJSON_def decodes_strings_def)

definition floor_fraction :: float_fraction where
  "floor_fraction f unit k = f * unit div 10 ^ k"

lemma floor_fraction_exact: "exact_fractions floor_fraction"
  by (auto simp: exact_fractions_def floor_fraction_def div_mult_swap [symmetric])

definition unquote :: "string \<Rightarrow> string + dynamic" where
  "unquote s = Inr (OfString (butlast (tl s)))"

lemma unquote_decodes: "decodes_strings unquote"
  by (simp add: decodes_strings_def json_quote_def unquote_def)

lemma fmtFrac_numeral:
  "fmtFrac (numeral n) print acc v =
     (let print' = (print \<or> v mod 10 \<noteq> 0)
      in fmtFrac (pred_numeral n) print' (if print' then digit_char (v mod 10) # acc else acc) (v div 10))"
  by (subst numeral_eq_Suc [of n]) (rule fmtFrac.simps(2))

lemmas String_simps = Duration_String_def duration_abs_String_def fmt_unit_def fmtFrac_numeral nat_digits.simps digit_char_def char_of_def bit_0

theorem Duration_JSON_roundtrip_witness:
  "MarshalJSON (- 5415000000) = json_quote ''-5.415s'' \<and> UnmarshalJSON unquote floor_fraction (json_quote ''-5.415s'') 7 = (- 5415000000, None)"
proof -
  have "MarshalJSON (- 5415000000) = json_quote ''-5.415s''" by (simp add: MarshalJSON_def String_simps)
  then show ?thesis using Duration_JSON_roundtrip [OF floor_fraction_exact unquote_decodes, of "- 5415000000" 7] by simp
qed

text \<open>The smallest duration has a text that \<^verbatim>\<open>ParseDuration\<close> rejects: its magnitude does not fit an \<^verbatim>\<open>int64\<close>.\<close>

lemma smallest_duration_rejected: "ParseDuration floor_fraction (Duration_String (- (2 ^ 63))) = None"
proof -
  have "Duration_String (- (2 ^ 63)) = ''-2562047h47m16.854775808s''" by (simp add: String_simps)
  moreover have "ParseDuration floor_fraction ''-2562047h47m16.854775808s'' = None"
    by (simp add: ParseDuration_def parse_items.simps parse_item_def parse_unit_def number_char_def digit_val_def unit_of_def
        micro_sign_def floor_fraction_def)
  ultimately show ?thesis by simp
qed

end
