(* ===== verification/Go_Time.thy ===== *)
theory Go_Time
  imports Go_Duration
begin

text \<open>
  What the sources use of Go's package \<^verbatim>\<open>time\<close> on calendar times (Go 1.12): the proleptic Gregorian calendar as \<^verbatim>\<open>absDate\<close> and
  \<^verbatim>\<open>Date\<close> compute it, \<^verbatim>\<open>Format\<close> with the layout RFC1123, and \<^verbatim>\<open>Parse\<close> with RFC1123 and RFC1123Z. A time is its number of
  seconds since 1970 in UTC, its nanoseconds and its location; integers are unbounded, the times in question are far
  from the bounds of 64 bits. The local zone of the machine is a parameter.
\<close>

section \<open>The calendar\<close>

definition absoluteZeroYear :: int where
  "absoluteZeroYear = - 292277022399"

text \<open>Seconds from January 1 of that year to January 1, 1970.\<close>

definition unixToAbsolute :: int where
  "unixToAbsolute = (719162 + 730692556 * 146097) * 86400"

definition isLeap :: "int \<Rightarrow> bool" where
  "isLeap year \<longleftrightarrow> year mod 4 = 0 \<and> (year mod 100 \<noteq> 0 \<or> year mod 400 = 0)"

definition daysBefore :: "int list" where
  "daysBefore = [0, 31, 59, 90, 120, 151, 181, 212, 243, 273, 304, 334, 365]"

definition daysIn :: "nat \<Rightarrow> int \<Rightarrow> int" where
  "daysIn m year = (if m = 2 \<and> isLeap year then 29 else daysBefore ! m - daysBefore ! (m - 1))"

text \<open>\<^verbatim>\<open>absDate\<close>: the years since the absolute zero year and the day of the year, then month and day.\<close>

definition abs_years :: "int \<Rightarrow> int \<times> int" where
  "abs_years d0 =
     (let n400 = d0 div 146097; d1 = d0 - 146097 * n400;
          m100 = d1 div 36524; n100 = m100 - m100 div 4; d2 = d1 - 36524 * n100;
          n4 = d2 div 1461; d3 = d2 - 1461 * n4;
          m1 = d3 div 365; n1 = m1 - m1 div 4
      in (400 * n400 + 100 * n100 + 4 * n4 + n1, d3 - 365 * n1))"

definition month_day :: "bool \<Rightarrow> int \<Rightarrow> nat \<times> int" where
  "month_day leap yday =
     (if leap \<and> yday = 59 then (2, 29)
      else let day = (if leap \<and> 59 < yday then yday - 1 else yday);
               month = nat (day div 31);
               end_day = daysBefore ! (month + 1)
           in if end_day \<le> day then (month + 2, day - end_day + 1)
              else (month + 1, day - daysBefore ! month + 1))"

definition absDate :: "int \<Rightarrow> int \<times> nat \<times> int" where
  "absDate secs =
     (case abs_years (secs div 86400) of (y, yday) \<Rightarrow>
        let year = y + absoluteZeroYear
        in case month_day (isLeap year) yday of (month, day) \<Rightarrow> (year, month, day))"

definition absClock :: "int \<Rightarrow> nat \<times> nat \<times> nat" where
  "absClock secs =
     (let sec = secs mod 86400; hour = sec div 3600; sec' = sec - hour * 3600; minute = sec' div 60
      in (nat hour, nat minute, nat (sec' - minute * 60)))"

definition absWeekday :: "int \<Rightarrow> nat" where
  "absWeekday secs = nat ((secs + 86400) mod (7 * 86400) div 86400)"

text \<open>\<^verbatim>\<open>Date\<close> in UTC for fields in their ranges, as \<^verbatim>\<open>Parse\<close> calls it.\<close>

definition days_before_year :: "int \<Rightarrow> int" where
  "days_before_year y0 =
     (let n400 = y0 div 400; y1 = y0 - 400 * n400; n100 = y1 div 100; y2 = y1 - 100 * n100; n4 = y2 div 4; y3 = y2 - 4 * n4
      in 146097 * n400 + 36524 * n100 + 1461 * n4 + 365 * y3)"

definition Date_UTC :: "int \<Rightarrow> nat \<Rightarrow> int \<Rightarrow> nat \<Rightarrow> nat \<Rightarrow> nat \<Rightarrow> int" where
  "Date_UTC year month day hour minute sec =
     (let d = days_before_year (year - absoluteZeroYear) + daysBefore ! (month - 1)
            + (if isLeap year \<and> 3 \<le> month then 1 else 0) + (day - 1)
      in d * 86400 + (int hour * 3600 + int minute * 60 + int sec) - unixToAbsolute)"

section \<open>Calendar laws\<close>

text \<open>Four units of a cycle, the last of which may be one day longer; and a unit that divides another.\<close>

lemma clipped_div:
  fixes d :: int
  assumes "0 \<le> d" and "d \<le> 4 * l" and "0 < l" and n: "n = d div l - d div l div 4"
  shows "0 \<le> n" "n \<le> 3" "0 \<le> d - l * n" "d - l * n \<le> l" "n < 3 \<Longrightarrow> d - l * n < l"
proof -
  have "0 \<le> n \<and> n \<le> 3 \<and> 0 \<le> d - l * n \<and> d - l * n \<le> l \<and> (n < 3 \<longrightarrow> d - l * n < l)"
  proof (cases "d = 4 * l")
    case True
    then show ?thesis using assms(3) by (simp add: n)
  next
    case False
    have "d div l * l \<le> d" using assms(3) by (simp add: div_mult_mod_eq [symmetric] minus_mod_eq_div_mult [symmetric])
    then have "d div l * l < 4 * l" using assms(2) False by linarith
    then have "d div l < 4" using assms(3) by (simp add: mult_less_cancel_right)
    moreover have "0 \<le> d div l" using assms by (simp add: pos_imp_zdiv_nonneg_iff)
    ultimately have "d div l div 4 = 0" by simp
    then have "n = d div l" by (simp add: n)
    moreover have "d - l * n = d mod l" by (simp add: \<open>n = d div l\<close> minus_mult_div_eq_mod)
    ultimately show ?thesis using \<open>d div l < 4\<close> \<open>0 \<le> d div l\<close> pos_mod_bound [OF assms(3), of d] pos_mod_sign [OF assms(3), of d]
      by linarith
  qed
  then show "0 \<le> n" "n \<le> 3" "0 \<le> d - l * n" "d - l * n \<le> l" "n < 3 \<Longrightarrow> d - l * n < l" by blast+
qed

lemma split_unit:
  fixes s :: int
  assumes "0 \<le> s" and "s < a * b" and "0 < b"
  shows "0 \<le> s div b" "s div b < a" "0 \<le> s - s div b * b" "s - s div b * b < b"
proof -
  show "0 \<le> s div b" using assms by (simp add: pos_imp_zdiv_nonneg_iff)
  show r: "0 \<le> s - s div b * b" "s - s div b * b < b" using assms(3) by (simp_all add: minus_div_mult_eq_mod)
  then have "s div b * b < a * b" using assms(2) by linarith
  then show "s div b < a" using assms(3) by (simp add: mult_less_cancel_right)
qed

lemma isLeap_cycle:
  assumes "1 \<le> b" and "b \<le> 25" and "b = 25 \<longrightarrow> a = 3"
  shows "isLeap (400 * k + 100 * a + 4 * b)"
proof (cases "b = 25")
  case True
  then have "400 * k + 100 * a + 4 * b = 400 * (k + 1)" using assms(3) by simp
  then show ?thesis by (simp only: isLeap_def mod_eq_0_iff_dvd dvd_triv_left dvd_mult2) simp
next
  case False
  have "(400 * k + 100 * a + 4 * b) mod 100 = (4 * b + 100 * (4 * k + a)) mod 100" by (simp add: algebra_simps)
  also have "\<dots> = 4 * b" using assms(1,2) False by (simp only: mod_mult_self2) simp
  finally have "(400 * k + 100 * a + 4 * b) mod 100 \<noteq> 0" using assms(1) by simp
  moreover have "(400 * k + 100 * a + 4 * b) mod 4 = 0" by (simp add: mod_eq_0_iff_dvd dvd_mult2)
  ultimately show ?thesis by (simp add: isLeap_def)
qed

lemma abs_years_inverse:
  assumes "abs_years d = (y, yday)"
  shows "days_before_year y + yday = d" "0 \<le> yday" "yday < (if isLeap (y + absoluteZeroYear) then 366 else 365)"
proof -
  define n400 where "n400 = d div 146097"
  define d1 where "d1 = d - 146097 * n400"
  define n100 where "n100 = d1 div 36524 - d1 div 36524 div 4"
  define d2 where "d2 = d1 - 36524 * n100"
  define n4 where "n4 = d2 div 1461"
  define d3 where "d3 = d2 - 1461 * n4"
  define n1 where "n1 = d3 div 365 - d3 div 365 div 4"
  have y: "y = 400 * n400 + 100 * n100 + 4 * n4 + n1" and yday: "yday = d3 - 365 * n1"
    using assms unfolding abs_years_def Let_def n400_def [symmetric] d1_def [symmetric] n100_def [symmetric] d2_def [symmetric]
      n4_def [symmetric] d3_def [symmetric] n1_def [symmetric] by simp_all
  have d1: "0 \<le> d1" "d1 < 146097" by (simp_all add: d1_def n400_def minus_mult_div_eq_mod)
  have n100: "0 \<le> n100" "n100 \<le> 3" "0 \<le> d2" "d2 \<le> 36524" "n100 < 3 \<longrightarrow> d2 < 36524"
    using clipped_div [OF d1(1) _ _ n100_def] d1(2) unfolding d2_def by simp_all
  have d3: "0 \<le> d3" "d3 < 1461" by (simp_all add: d3_def n4_def minus_mult_div_eq_mod)
  have n4: "0 \<le> n4" "n4 \<le> 24" using split_unit [OF n100(3), of 25 1461] n100(4) unfolding n4_def by simp_all
  have n1: "0 \<le> n1" "n1 \<le> 3" "0 \<le> yday" "yday \<le> 365" "n1 < 3 \<longrightarrow> yday < 365"
    using clipped_div [OF d3(1) _ _ n1_def] d3(2) unfolding yday by simp_all
  have div_of: "(b * n + r) div b = n" if "0 \<le> r" "r < b" for b n r :: int using that by simp
  have "y div 400 = n400" using div_of [of "100 * n100 + (4 * n4 + n1)" 400 n400] n100 n4 n1 by (simp add: y)
  moreover have "(y - 400 * n400) div 100 = n100" using div_of [of "4 * n4 + n1" 100 n100] n4 n1 by (simp add: y)
  moreover have "(y - 400 * n400 - 100 * n100) div 4 = n4" using div_of [of n1 4 n4] n1 by (simp add: y)
  ultimately have "days_before_year y = 146097 * n400 + 36524 * n100 + 1461 * n4 + 365 * n1"
    by (simp add: days_before_year_def Let_def) (simp add: y)
  then show "days_before_year y + yday = d" by (simp add: yday d3_def d2_def d1_def)
  show "0 \<le> yday" by (rule n1(3))
  have "isLeap (y + absoluteZeroYear)" if "yday = 365"
  proof -
    have "n1 = 3" using that n1 by linarith
    then have "y + absoluteZeroYear = 400 * (n400 - 730692556) + 100 * n100 + 4 * (n4 + 1)" by (simp add: y absoluteZeroYear_def)
    moreover have "n4 = 24 \<longrightarrow> n100 = 3" using n100 that \<open>n1 = 3\<close> yday d3_def by linarith
    ultimately show ?thesis using isLeap_cycle [of "n4 + 1" n100 "n400 - 730692556"] n4 by simp
  qed
  then show "yday < (if isLeap (y + absoluteZeroYear) then 366 else 365)" using n1(4) by force
qed

definition month_ok :: "bool \<Rightarrow> int \<Rightarrow> bool" where
  "month_ok leap yday =
     (case month_day leap yday of (m, day) \<Rightarrow>
        1 \<le> m \<and> m \<le> 12 \<and> 1 \<le> day \<and> day \<le> (if m = 2 \<and> leap then 29 else daysBefore ! m - daysBefore ! (m - 1)) \<and>
        daysBefore ! (m - 1) + (if leap \<and> 3 \<le> m then 1 else 0) + (day - 1) = yday)"

text \<open>The estimate of 31 days per month is the month itself or the one before it.\<close>

lemma month_estimate:
  assumes "m < 12" and "daysBefore ! m \<le> d" and "d < daysBefore ! Suc m"
  shows "nat (d div 31) = m \<or> 0 < m \<and> nat (d div 31) = m - 1" "nat (d div 31) < 12"
proof -
  have "m \<in> {0, 1, 2, 3, 4, 5, 6, 7, 8, 9, 10, 11}" unfolding insert_iff empty_iff using assms(1) by presburger
  then show "nat (d div 31) = m \<or> 0 < m \<and> nat (d div 31) = m - 1" "nat (d div 31) < 12"
    using assms(2,3) by (auto simp: daysBefore_def)
qed

lemma month_exists:
  assumes "0 \<le> d" and "d < 365"
  obtains m where "m < 12" "daysBefore ! m \<le> d" "d < daysBefore ! Suc m"
proof -
  have "\<exists>m < n. daysBefore ! m \<le> d \<and> d < daysBefore ! Suc m" if "d < daysBefore ! n" for n
    using that
  proof (induction n)
    case 0
    then show ?case using assms(1) by (simp add: daysBefore_def)
  next
    case (Suc n)
    then show ?case by (cases "d < daysBefore ! n") (auto intro: less_SucI)
  qed
  moreover have "d < daysBefore ! 12" using assms(2) by (simp add: daysBefore_def)
  ultimately show ?thesis using that by blast
qed

lemma month_day_inverse:
  assumes "0 \<le> yday" and "yday < (if leap then 366 else 365)"
  shows "month_ok leap yday"
proof (cases "leap \<and> yday = 59")
  case True
  then show ?thesis by (simp add: month_ok_def month_day_def daysBefore_def)
next
  case False
  define d where "d = (if leap \<and> 59 < yday then yday - 1 else yday)"
  have "0 \<le> d" "d < 365" using assms False by (auto simp: d_def split: if_splits)
  then obtain m where m: "m < 12" "daysBefore ! m \<le> d" "d < daysBefore ! Suc m" by (rule month_exists)
  have "month_day leap yday = (m + 1, d - daysBefore ! m + 1)"
    unfolding month_day_def d_def [symmetric] Let_def using False month_estimate(1) [OF m] m(2,3) by auto
  moreover have "59 \<le> d \<longleftrightarrow> 2 \<le> m"
  proof (cases "m < 2")
    case True
    then have "m = 0 \<or> m = 1" by linarith
    then show ?thesis using m(3) by (auto simp: daysBefore_def)
  next
    case ge: False
    have "daysBefore ! 2 \<le> daysBefore ! m" using ge m(1) by (intro sorted_nth_mono) (simp_all add: daysBefore_def)
    then show ?thesis using ge m(2) by (simp add: daysBefore_def)
  qed
  moreover have "daysBefore ! Suc 0 = 31" by (simp add: daysBefore_def)
  ultimately show ?thesis using m False unfolding month_ok_def
    by (auto simp: d_def split: if_splits)
qed

lemma absClock_fields:
  assumes "absClock secs = (hour, minute, sec)"
  shows "int hour * 3600 + int minute * 60 + int sec = secs mod 86400" "hour < 24" "minute < 60" "sec < 60"
proof -
  define s where "s = secs mod 86400"
  define h where "h = s div 3600"
  define s' where "s' = s - h * 3600"
  define m where "m = s' div 60"
  have f: "hour = nat h" "minute = nat m" "sec = nat (s' - m * 60)"
    using assms unfolding absClock_def Let_def s_def [symmetric] h_def [symmetric] s'_def [symmetric] m_def [symmetric] by simp_all
  have s: "0 \<le> s" "s < 86400" by (simp_all add: s_def)
  have h: "0 \<le> h" "h < 24" "0 \<le> s'" "s' < 3600" using split_unit [OF s(1), of 24 3600] s(2) unfolding s'_def h_def by simp_all
  have m: "0 \<le> m" "m < 60" "0 \<le> s' - m * 60" "s' - m * 60 < 60" using split_unit [OF h(3), of 60 60] h(4) unfolding m_def by simp_all
  show "int hour * 3600 + int minute * 60 + int sec = secs mod 86400" using h m by (simp add: f s'_def flip: s_def)
  show "hour < 24" "minute < 60" "sec < 60" using h m by (simp_all add: f)
qed

text \<open>\<^verbatim>\<open>Date\<close> gives back the second from which the fields were read.\<close>

lemma Date_UTC_absDate:
  assumes date: "absDate secs = (year, month, day)" and clock: "absClock secs = (hour, minute, sec)"
  shows "Date_UTC year month day hour minute sec = secs - unixToAbsolute"
    and "1 \<le> month" "month \<le> 12" "1 \<le> day" "day \<le> daysIn month year" "hour < 24" "minute < 60" "sec < 60"
proof -
  obtain y yday where y: "abs_years (secs div 86400) = (y, yday)" by fastforce
  have year: "year = y + absoluteZeroYear" and md: "month_day (isLeap year) yday = (month, day)"
    using date by (auto simp: absDate_def y Let_def split: prod.splits)
  note inv = abs_years_inverse [OF y]
  have ok: "month_ok (isLeap year) yday" using month_day_inverse inv(2,3) by (simp add: year)
  show "1 \<le> month" "month \<le> 12" "1 \<le> day" "day \<le> daysIn month year" using ok by (simp_all add: month_ok_def md daysIn_def)
  note hms = absClock_fields [OF clock]
  show "hour < 24" "minute < 60" "sec < 60" by (rule hms)+
  have "daysBefore ! (month - 1) + (if isLeap year \<and> 3 \<le> month then 1 else 0) + (day - 1) = yday"
    using ok unfolding month_ok_def md by simp
  then have "days_before_year (year - absoluteZeroYear) + daysBefore ! (month - 1) + (if isLeap year \<and> 3 \<le> month then 1 else 0) + (day - 1)
      = secs div 86400"
    using inv(1) year by simp
  then show "Date_UTC year month day hour minute sec = secs - unixToAbsolute"
    unfolding Date_UTC_def Let_def hms(1) by simp
qed

section \<open>Times\<close>

datatype location = UTC | FixedZone string int | Local

record wall_time =
  tm_sec :: int
  tm_nsec :: int
  tm_loc :: location

text \<open>The local zone of the machine: name and offset at a second, and the offset that a name stands for.\<close>

record local_zone =
  lz_lookup :: "int \<Rightarrow> string \<times> int"
  lz_lookupName :: "string \<Rightarrow> int \<Rightarrow> int option"

definition zone_at :: "local_zone \<Rightarrow> wall_time \<Rightarrow> string \<times> int" where
  "zone_at lz t = (case tm_loc t of UTC \<Rightarrow> (''UTC'', 0) | FixedZone name offset \<Rightarrow> (name, offset) | Local \<Rightarrow> lz_lookup lz (tm_sec t))"

definition time_abs :: "local_zone \<Rightarrow> wall_time \<Rightarrow> int" where
  "time_abs lz t = tm_sec t + snd (zone_at lz t) + unixToAbsolute"

definition Time_Year :: "local_zone \<Rightarrow> wall_time \<Rightarrow> int" where
  "Time_Year lz t = fst (absDate (time_abs lz t))"

definition zero_time :: wall_time where
  "zero_time = \<lparr>tm_sec = - 62135596800, tm_nsec = 0, tm_loc = UTC\<rparr>"

section \<open>Format\<close>

definition shortDayNames :: "string list" where
  "shortDayNames = [''Sun'', ''Mon'', ''Tue'', ''Wed'', ''Thu'', ''Fri'', ''Sat'']"

definition shortMonthNames :: "string list" where
  "shortMonthNames = [''Jan'', ''Feb'', ''Mar'', ''Apr'', ''May'', ''Jun'', ''Jul'', ''Aug'', ''Sep'', ''Oct'', ''Nov'', ''Dec'']"

definition appendInt :: "int \<Rightarrow> nat \<Rightarrow> string" where
  "appendInt x width =
     (let ds = nat_digits (nat \<bar>x\<bar>)
      in (if x < 0 then ''-'' else []) @ replicate (width - length ds) CHR ''0'' @ ds)"

text \<open>The element \<^verbatim>\<open>MST\<close>: the name of the zone, or its offset in hours and minutes; divisions truncate.\<close>

definition format_zone :: "string \<times> int \<Rightarrow> string" where
  "format_zone z =
     (case z of (name, offset) \<Rightarrow>
        if name \<noteq> [] then name
        else let m = \<bar>offset\<bar> div 60
             in (if offset \<le> - 60 then ''-'' else ''+'') @ appendInt (m div 60) 2 @ appendInt (m mod 60) 2)"

definition Format_RFC1123 :: "local_zone \<Rightarrow> wall_time \<Rightarrow> string" where
  "Format_RFC1123 lz t =
     (let s = time_abs lz t
      in case absDate s of (year, month, day) \<Rightarrow> case absClock s of (hour, minute, sec) \<Rightarrow>
        shortDayNames ! absWeekday s @ '', '' @ appendInt day 2 @ '' '' @ shortMonthNames ! (month - 1) @ '' '' @
        appendInt year 4 @ '' '' @ appendInt (int hour) 2 @ '':'' @ appendInt (int minute) 2 @ '':'' @ appendInt (int sec) 2 @
        '' '' @ format_zone (zone_at lz t))"

section \<open>Parse\<close>

datatype std = StdWeekDay | StdZeroDay | StdMonth | StdLongYear | StdHour | StdZeroMinute | StdZeroSecond | StdTZ | StdNumTZ

fun std_text :: "std \<Rightarrow> string" where
  "std_text StdWeekDay = ''Mon''" | "std_text StdZeroDay = ''02''" | "std_text StdMonth = ''Jan''"
| "std_text StdLongYear = ''2006''" | "std_text StdHour = ''15''" | "std_text StdZeroMinute = ''04''"
| "std_text StdZeroSecond = ''05''" | "std_text StdTZ = ''MST''" | "std_text StdNumTZ = ''-0700''"

text \<open>A layout as \<^verbatim>\<open>nextStdChunk\<close> cuts it: the text before each element, and the element.\<close>

definition date_layout :: "(string \<times> std) list" where
  "date_layout = [([], StdWeekDay), ('', '', StdZeroDay), ('' '', StdMonth), ('' '', StdLongYear), ('' '', StdHour),
     ('':'', StdZeroMinute), ('':'', StdZeroSecond)]"

definition RFC1123 :: "(string \<times> std) list" where
  "RFC1123 = date_layout @ [('' '', StdTZ)]"

definition RFC1123Z :: "(string \<times> std) list" where
  "RFC1123Z = date_layout @ [('' '', StdNumTZ)]"

fun cutspace :: "string \<Rightarrow> string" where
  "cutspace [] = []"
| "cutspace (c # cs) = (if c = CHR '' '' then cutspace cs else c # cs)"

lemma cutspace_length: "length (cutspace s) \<le> length s"
  by (induction s) auto

function skip_prefix :: "string \<Rightarrow> string \<Rightarrow> string option" where
  "skip_prefix v [] = Some v"
| "skip_prefix v (p # ps) =
     (if p = CHR '' '' then if v \<noteq> [] \<and> hd v \<noteq> CHR '' '' then None else skip_prefix (cutspace v) (cutspace ps)
      else if v = [] \<or> hd v \<noteq> p then None else skip_prefix (tl v) ps)"
  by pat_completeness auto
termination by (relation "measure (\<lambda>(v, p). length p)") (simp_all add: cutspace_length le_imp_less_Suc)

definition lower_bit :: "char \<Rightarrow> nat" where
  "lower_bit c = (let n = of_char c in if n div 32 mod 2 = 0 then n + 32 else n)"

definition match_char :: "char \<Rightarrow> char \<Rightarrow> bool" where
  "match_char c1 c2 \<longleftrightarrow> c1 = c2 \<or> lower_bit c1 = lower_bit c2 \<and> 97 \<le> lower_bit c1 \<and> lower_bit c1 \<le> 122"

fun lookup_name :: "string list \<Rightarrow> string \<Rightarrow> (nat \<times> string) option" where
  "lookup_name [] v = None"
| "lookup_name (name # names) v =
     (if length name \<le> length v \<and> list_all2 match_char (take (length name) v) name then Some (0, drop (length name) v)
      else map_option (\<lambda>(i, r). (Suc i, r)) (lookup_name names v))"

fun getnum :: "bool \<Rightarrow> string \<Rightarrow> (nat \<times> string) option" where
  "getnum fixed [] = None"
| "getnum fixed (c # cs) =
     (case digit_val c of
        None \<Rightarrow> None
      | Some d \<Rightarrow>
          (case (case cs of [] \<Rightarrow> None | c' # _ \<Rightarrow> digit_val c') of
             None \<Rightarrow> if fixed then None else Some (d, cs)
           | Some d' \<Rightarrow> Some (d * 10 + d', tl cs)))"

definition time_atoi :: "string \<Rightarrow> int option" where
  "time_atoi s =
     (let signed = (s \<noteq> [] \<and> (hd s = CHR ''-'' \<or> hd s = CHR ''+''));
          neg = (s \<noteq> [] \<and> hd s = CHR ''-'')
      in case leadingInt 0 (if signed then tl s else s) of
           Some (q, []) \<Rightarrow> Some (if neg then - int q else int q)
         | _ \<Rightarrow> None)"

text \<open>The length of a signed number of at most 23 hours, 0 if there is none.\<close>

definition parseSignedOffset :: "string \<Rightarrow> nat" where
  "parseSignedOffset v =
     (if v = [] \<or> (hd v \<noteq> CHR ''-'' \<and> hd v \<noteq> CHR ''+'') then 0
      else case leadingInt 0 (tl v) of
             None \<Rightarrow> 0
           | Some (x, rem) \<Rightarrow> if 23 < x then 0 else length v - length rem)"

definition is_upper :: "char \<Rightarrow> bool" where
  "is_upper c \<longleftrightarrow> 65 \<le> (of_char c :: nat) \<and> (of_char c :: nat) \<le> 90"

definition parseTimeZone :: "string \<Rightarrow> nat option" where
  "parseTimeZone v =
     (if length v < 3 then None
      else if take 4 v = ''ChST'' \<or> take 4 v = ''MeST'' then Some 4
      else if take 3 v = ''GMT'' then Some (3 + parseSignedOffset (drop 3 v))
      else if hd v = CHR ''+'' \<or> hd v = CHR ''-'' then
        (let l = parseSignedOffset v in if 0 < l then Some l else None)
      else let nUpper = length (takeWhile is_upper (take 6 v))
           in if nUpper = 5 then if v ! 4 = CHR ''T'' then Some 5 else None
              else if nUpper = 4 then if v ! 3 = CHR ''T'' \<or> take 4 v = ''WITA'' then Some 4 else None
              else if nUpper = 3 then Some 3 else None)"

record parsed =
  p_year :: int
  p_month :: nat
  p_day :: nat
  p_hour :: nat
  p_min :: nat
  p_sec :: nat
  p_nsec :: nat
  p_utc :: bool
  p_zoneName :: string
  p_zoneOffset :: "int option"

definition no_fields :: parsed where
  "no_fields = \<lparr>p_year = 0, p_month = 1, p_day = 1, p_hour = 0, p_min = 0, p_sec = 0, p_nsec = 0, p_utc = False, p_zoneName = [], p_zoneOffset = None\<rparr>"

text \<open>Seconds may be followed by a fraction that the layout does not have.\<close>

definition parse_fraction :: "string \<Rightarrow> (nat \<times> string) option" where
  "parse_fraction v =
     (if 2 \<le> length v \<and> hd v = CHR ''.'' \<and> digit_val (v ! 1) \<noteq> None
      then let ds = takeWhile (\<lambda>c. digit_val c \<noteq> None) (tl v)
           in case time_atoi ds of
                None \<Rightarrow> None
              | Some ns \<Rightarrow> if 1000000000 \<le> ns then None
                           else Some (nat ns * 10 ^ (9 - length ds), drop (1 + length ds) v)
      else Some (0, v))"

definition parse_numTZ :: "string \<Rightarrow> (int \<times> string) option" where
  "parse_numTZ v =
     (if length v < 5 then None
      else case (time_atoi (take 2 (drop 1 v)), time_atoi (take 2 (drop 3 v))) of
             (Some hr, Some mm) \<Rightarrow>
               let offset = (hr * 60 + mm) * 60
               in if hd v = CHR ''+'' then Some (offset, drop 5 v) else if hd v = CHR ''-'' then Some (- offset, drop 5 v) else None
           | _ \<Rightarrow> None)"

text \<open>One element; \<open>None\<close> is a malformed element or one out of range.\<close>

definition parse_std :: "std \<Rightarrow> string \<Rightarrow> parsed \<Rightarrow> (parsed \<times> string) option" where
  "parse_std std v p =
     (case std of
        StdWeekDay \<Rightarrow> map_option (\<lambda>(_, r). (p, r)) (lookup_name shortDayNames v)
      | StdZeroDay \<Rightarrow> map_option (\<lambda>(n, r). (p\<lparr>p_day := n\<rparr>, r)) (getnum True v)
      | StdMonth \<Rightarrow> map_option (\<lambda>(n, r). (p\<lparr>p_month := n + 1\<rparr>, r)) (lookup_name shortMonthNames v)
      | StdLongYear \<Rightarrow>
          if length v < 4 \<or> digit_val (hd v) = None then None
          else map_option (\<lambda>n. (p\<lparr>p_year := n\<rparr>, drop 4 v)) (time_atoi (take 4 v))
      | StdHour \<Rightarrow> (case getnum False v of None \<Rightarrow> None | Some (n, r) \<Rightarrow> if 24 \<le> n then None else Some (p\<lparr>p_hour := n\<rparr>, r))
      | StdZeroMinute \<Rightarrow> (case getnum True v of None \<Rightarrow> None | Some (n, r) \<Rightarrow> if 60 \<le> n then None else Some (p\<lparr>p_min := n\<rparr>, r))
      | StdZeroSecond \<Rightarrow>
          (case getnum True v of None \<Rightarrow> None
           | Some (n, r) \<Rightarrow> if 60 \<le> n then None
                            else map_option (\<lambda>(ns, r'). (p\<lparr>p_sec := n, p_nsec := ns\<rparr>, r')) (parse_fraction r))
      | StdTZ \<Rightarrow>
          if take 3 v = ''UTC'' then Some (p\<lparr>p_utc := True\<rparr>, drop 3 v)
          else map_option (\<lambda>n. (p\<lparr>p_zoneName := take n v\<rparr>, drop n v)) (parseTimeZone v)
      | StdNumTZ \<Rightarrow> map_option (\<lambda>(offset, r). (p\<lparr>p_zoneOffset := Some offset\<rparr>, r)) (parse_numTZ v))"

text \<open>The left result is the \<^verbatim>\<open>LayoutElem\<close> of the \<^verbatim>\<open>ParseError\<close>.\<close>

fun parse_layout :: "(string \<times> std) list \<Rightarrow> string \<Rightarrow> parsed \<Rightarrow> string + parsed" where
  "parse_layout [] v p = (if v \<noteq> [] then Inl [] else Inr p)"
| "parse_layout ((pre, std) # layout) v p =
     (case skip_prefix v pre of
        None \<Rightarrow> Inl pre
      | Some v' \<Rightarrow> (case parse_std std v' p of None \<Rightarrow> Inl (std_text std) | Some (p', v'') \<Rightarrow> parse_layout layout v'' p'))"

definition Parse_finish :: "local_zone \<Rightarrow> parsed \<Rightarrow> wall_time" where
  "Parse_finish lz p =
     (let sec = Date_UTC (p_year p) (p_month p) (int (p_day p)) (p_hour p) (p_min p) (p_sec p);
          at = (\<lambda>s loc. \<lparr>tm_sec = s, tm_nsec = int (p_nsec p), tm_loc = loc\<rparr>);
          name = p_zoneName p
      in if p_utc p then at sec UTC
         else case p_zoneOffset p of
           Some offset \<Rightarrow>
             if snd (lz_lookup lz (sec - offset)) = offset \<and> (name = [] \<or> fst (lz_lookup lz (sec - offset)) = name)
             then at (sec - offset) Local else at (sec - offset) (FixedZone name offset)
         | None \<Rightarrow>
             if name \<noteq> [] then
               (case lz_lookupName lz name sec of
                  Some offset \<Rightarrow> at (sec - offset) Local
                | None \<Rightarrow>
                    let offset = (if 3 < length name \<and> take 3 name = ''GMT''
                                  then (case time_atoi (drop 3 name) of None \<Rightarrow> 0 | Some h \<Rightarrow> h * 3600) else 0)
                    in at sec (FixedZone name offset))
             else at sec UTC)"

definition time_Parse :: "local_zone \<Rightarrow> (string \<times> std) list \<Rightarrow> string \<Rightarrow> string + wall_time" where
  "time_Parse lz layout v =
     (case parse_layout layout v no_fields of
        Inl elem \<Rightarrow> Inl elem
      | Inr p \<Rightarrow>
          if p_day p < 1 \<or> daysIn (p_month p) (p_year p) < int (p_day p) then Inl [] else Inr (Parse_finish lz p))"

section \<open>Parsing what was formatted\<close>

lemma length_nat_digits: "n < 10 ^ w \<Longrightarrow> 0 < w \<Longrightarrow> length (nat_digits n) \<le> w"
proof (induction w arbitrary: n)
  case (Suc w)
  show ?case
  proof (cases "n < 10")
    case False
    then have "0 < w" using Suc.prems(1) by (cases w) simp_all
    moreover have "n div 10 < 10 ^ w" using Suc.prems(1) by (simp add: less_mult_imp_div_less mult.commute)
    ultimately show ?thesis using Suc.IH [of "n div 10"] False by (simp add: nat_digits.simps [of n])
  qed (simp add: nat_digits.simps [of n])
qed simp

lemma digit_char_0: "digit_char 0 = CHR ''0''"
  by code_simp

lemma digits_value_zeros: "digits_value (replicate k 0 @ ds) = digits_value ds"
  by (induction k) simp_all

lemma appendInt_digits:
  assumes "n < 10 ^ w" and "0 < w"
  obtains ds where "appendInt (int n) w = map digit_char ds" "is_digits ds" "digits_value ds = n" "length ds = w"
proof -
  obtain ds where ds: "nat_digits n = map digit_char ds" "is_digits ds" "digits_value ds = n" using nat_digits_list by blast
  let ?ds = "replicate (w - length ds) 0 @ ds"
  have "length ds \<le> w" using length_nat_digits [OF assms] ds(1) by (metis length_map)
  moreover have "is_digits (replicate k 0)" for k by (induction k) simp_all
  moreover have "appendInt (int n) w = map digit_char ?ds" using ds(1) by (simp add: appendInt_def digit_char_0)
  ultimately show ?thesis using that [of ?ds] ds by (simp add: digits_value_zeros)
qed

lemma getnum_appendInt: "n < 100 \<Longrightarrow> getnum fixed (appendInt (int n) 2 @ r) = Some (n, r)"
proof -
  assume "n < 100"
  then obtain ds where ds: "appendInt (int n) 2 = map digit_char ds" "is_digits ds" "digits_value ds = n" "length ds = 2"
    using appendInt_digits [of n 2] by auto
  then obtain a b where "ds = [a, b]" by (auto simp: numeral_eq_Suc length_Suc_conv)
  then show ?thesis using ds by (simp add: digit_val_char)
qed

lemma time_atoi_digits:
  assumes "is_digits ds" and "digits_value ds < 2 ^ 63"
  shows "time_atoi (map digit_char ds) = Some (int (digits_value ds))"
proof -
  have "leadingInt 0 (map digit_char ds) = Some (digits_value ds, [])"
    using leadingInt_digits [of ds "[]" 0] assms by (simp add: no_digit_def)
  moreover have "ds \<noteq> [] \<Longrightarrow> hd (map digit_char ds) \<noteq> CHR ''-'' \<and> hd (map digit_char ds) \<noteq> CHR ''+''"
    using assms(1) digit_char_neq by (cases ds) simp_all
  ultimately show ?thesis by (auto simp: time_atoi_def Let_def)
qed

text \<open>Names of three letters, none of which matches an earlier one.\<close>

definition names_apart :: "string list \<Rightarrow> bool" where
  "names_apart names \<longleftrightarrow> list_all (\<lambda>name. length name = 3) names \<and>
     sorted_wrt (\<lambda>n1 n2. \<not> list_all2 match_char n2 n1) names"

lemma names_apart_tables: "names_apart shortDayNames" "names_apart shortMonthNames"
  by code_simp+

lemma lookup_name_nth: "names_apart names \<Longrightarrow> i < length names \<Longrightarrow> lookup_name names (names ! i @ r) = Some (i, r)"
proof (induction names arbitrary: i)
  case (Cons name names)
  have len: "length n = 3" if "n \<in> set (name # names)" for n using Cons.prems(1) that by (auto simp: names_apart_def list_all_iff)
  have apart: "names_apart names" using Cons.prems(1) by (simp add: names_apart_def)
  show ?case
  proof (cases i)
    case 0
    have "list_all2 match_char name name" by (simp add: list_all2_same match_char_def)
    then show ?thesis by (simp add: 0)
  next
    case (Suc j)
    then have j: "j < length names" using Cons.prems(2) by simp
    have "\<not> list_all2 match_char (names ! j) name" using Cons.prems(1) j by (simp add: names_apart_def)
    moreover have "length (names ! j) = 3" "length name = 3" using len j by simp_all
    ultimately show ?thesis using Cons.IH [OF apart j] by (simp add: Suc)
  qed
qed simp

lemma cutspace_id: "v \<noteq> [] \<Longrightarrow> hd v \<noteq> CHR '' '' \<Longrightarrow> cutspace v = v"
  by (cases v) simp_all

lemma digit_char_space: "d < 10 \<Longrightarrow> digit_char d \<noteq> CHR '' ''"
  using digit_val_char [of d] by (auto simp: digit_val_def)

lemma cutspace_appendInt: "n < 10 ^ w \<Longrightarrow> 0 < w \<Longrightarrow> cutspace (appendInt (int n) w @ r) = appendInt (int n) w @ r"
proof -
  assume "n < 10 ^ w" "0 < w"
  then obtain ds where ds: "appendInt (int n) w = map digit_char ds" "is_digits ds" "length ds = w" by (rule appendInt_digits)
  then obtain a ds' where "ds = a # ds'" "a < 10" using \<open>0 < w\<close> by (cases ds) auto
  then show ?thesis using ds digit_char_space by simp
qed

lemma cutspace_month: "i < 12 \<Longrightarrow> cutspace (shortMonthNames ! i @ r) = shortMonthNames ! i @ r"
proof -
  assume "i < 12"
  have "list_all (\<lambda>n. n \<noteq> [] \<and> hd n \<noteq> CHR '' '') shortMonthNames" "length shortMonthNames = 12" by code_simp+
  then have "shortMonthNames ! i \<noteq> [] \<and> hd (shortMonthNames ! i) \<noteq> CHR '' ''" using \<open>i < 12\<close> by (simp add: list_all_length)
  then show ?thesis by (simp add: cutspace_id)
qed

lemma skip_literals:
  "skip_prefix (CHR '' '' # v) '' '' = Some (cutspace v)" "skip_prefix (CHR '':'' # v) '':'' = Some v"
  "skip_prefix (CHR '','' # CHR '' '' # v) '', '' = Some (cutspace v)"
  by simp_all

lemma parse_year:
  assumes "y < 10000"
  shows "parse_std StdLongYear (appendInt (int y) 4 @ r) p = Some (p\<lparr>p_year := int y\<rparr>, r)"
proof -
  obtain ds where ds: "appendInt (int y) 4 = map digit_char ds" "is_digits ds" "digits_value ds = y" "length ds = 4"
    using appendInt_digits [of y 4] assms by auto
  then have "time_atoi (map digit_char ds) = Some (int y)" using time_atoi_digits [of ds] assms by simp
  moreover obtain a ds' where "ds = a # ds'" "a < 10" using ds by (cases ds) auto
  ultimately show ?thesis using ds digit_val_char [of a] by (simp add: parse_std_def)
qed

text \<open>The part of the layouts before the zone.\<close>

definition date_text :: "nat \<Rightarrow> nat \<Rightarrow> nat \<Rightarrow> nat \<Rightarrow> nat \<Rightarrow> nat \<Rightarrow> nat \<Rightarrow> string \<Rightarrow> string" where
  "date_text w year month day hour minute sec z =
     shortDayNames ! w @ '', '' @ appendInt (int day) 2 @ '' '' @ shortMonthNames ! (month - 1) @ '' '' @
     appendInt (int year) 4 @ '' '' @ appendInt (int hour) 2 @ '':'' @ appendInt (int minute) 2 @ '':'' @ appendInt (int sec) 2 @
     '' '' @ z"

lemma parse_date_text:
  assumes "w < 7" and "year < 10000" and month: "1 \<le> month" "month \<le> 12" and "day < 100" "hour < 24" "minute < 60" "sec < 60"
  shows "parse_layout (date_layout @ rest) (date_text w year month day hour minute sec z) p =
    parse_layout rest (CHR '' '' # z)
      (p\<lparr>p_day := day, p_month := month, p_year := int year, p_hour := hour, p_min := minute, p_sec := sec, p_nsec := 0\<rparr>)"
proof -
  have names: "lookup_name shortDayNames (shortDayNames ! w @ r) = Some (w, r)"
    "lookup_name shortMonthNames (shortMonthNames ! (month - 1) @ r) = Some (month - 1, r)" for r
    using lookup_name_nth [OF names_apart_tables(1), of w r] lookup_name_nth [OF names_apart_tables(2), of "month - 1" r] assms
    by (simp_all add: shortDayNames_def shortMonthNames_def)
  have nums: "getnum f (appendInt (int day) 2 @ r) = Some (day, r)" "getnum f (appendInt (int hour) 2 @ r) = Some (hour, r)"
    "getnum f (appendInt (int minute) 2 @ r) = Some (minute, r)" "getnum f (appendInt (int sec) 2 @ r) = Some (sec, r)" for f r
    using assms by (simp_all add: getnum_appendInt)
  have cuts: "cutspace (appendInt (int day) 2 @ r) = appendInt (int day) 2 @ r" "cutspace (appendInt (int hour) 2 @ r) = appendInt (int hour) 2 @ r"
    "cutspace (appendInt (int year) 4 @ r) = appendInt (int year) 4 @ r"
    "cutspace (shortMonthNames ! (month - 1) @ r) = shortMonthNames ! (month - 1) @ r" for r
    using assms by (simp_all add: cutspace_appendInt cutspace_month)
  have month': "month - 1 + 1 = month" using month by simp
  have fraction: "parse_fraction (CHR '' '' # z) = Some (0, CHR '' '' # z)" by (simp add: parse_fraction_def)
  note year = parse_year [OF assms(2)]
  have fields: "parse_std StdWeekDay (shortDayNames ! w @ r) q = Some (q, r)"
    "parse_std StdZeroDay (appendInt (int day) 2 @ r) q = Some (q\<lparr>p_day := day\<rparr>, r)"
    "parse_std StdMonth (shortMonthNames ! (month - 1) @ r) q = Some (q\<lparr>p_month := month\<rparr>, r)"
    "parse_std StdHour (appendInt (int hour) 2 @ r) q = Some (q\<lparr>p_hour := hour\<rparr>, r)"
    "parse_std StdZeroMinute (appendInt (int minute) 2 @ r) q = Some (q\<lparr>p_min := minute\<rparr>, r)"
    "parse_std StdZeroSecond (appendInt (int sec) 2 @ CHR '' '' # z) q = Some (q\<lparr>p_sec := sec, p_nsec := 0\<rparr>, CHR '' '' # z)" for r q
    using assms(6-) by (simp_all del: One_nat_def add: parse_std_def names nums month' fraction)
  show ?thesis unfolding date_layout_def date_text_def
    by (simp del: skip_prefix.simps(2) One_nat_def add: skip_literals cuts year fields)
qed

text \<open>The fields that a formatted time has before its zone is read.\<close>

definition date_of :: "int \<Rightarrow> parsed \<Rightarrow> bool" where
  "date_of s p \<longleftrightarrow> Date_UTC (p_year p) (p_month p) (int (p_day p)) (p_hour p) (p_min p) (p_sec p) = s \<and>
     1 \<le> p_day p \<and> int (p_day p) \<le> daysIn (p_month p) (p_year p) \<and>
     p_nsec p = 0 \<and> \<not> p_utc p \<and> p_zoneName p = [] \<and> p_zoneOffset p = None"

lemma daysIn_le: "1 \<le> month \<Longrightarrow> month \<le> 12 \<Longrightarrow> daysIn month year \<le> 31"
proof -
  assume "1 \<le> month" "month \<le> 12"
  then have "month \<in> {1, 2, 3, 4, 5, 6, 7, 8, 9, 10, 11, 12}" unfolding insert_iff empty_iff by presburger
  then show ?thesis by (auto simp: daysIn_def daysBefore_def)
qed

lemma absWeekday_less: "absWeekday s < 7"
proof -
  have "(s + 86400) mod (7 * 86400) div 86400 < 7" by (rule split_unit(2)) simp_all
  then show ?thesis unfolding absWeekday_def by linarith
qed

lemma parse_Format:
  assumes "0 \<le> Time_Year lz t" and "Time_Year lz t \<le> 9999"
  obtains p where "date_of (tm_sec t + snd (zone_at lz t)) p"
    and "\<And>rest. parse_layout (date_layout @ rest) (Format_RFC1123 lz t) no_fields =
      parse_layout rest (CHR '' '' # format_zone (zone_at lz t)) p"
proof -
  let ?s = "time_abs lz t"
  obtain year month day where date: "absDate ?s = (year, month, day)" by (cases "absDate ?s")
  obtain hour minute sec where clock: "absClock ?s = (hour, minute, sec)" by (cases "absClock ?s")
  note inv = Date_UTC_absDate [OF date clock]
  let ?p = "no_fields\<lparr>p_day := nat day, p_month := month, p_year := year, p_hour := hour, p_min := minute, p_sec := sec, p_nsec := 0\<rparr>"
  have year: "0 \<le> year" "nat year < 10000" using assms by (simp_all add: Time_Year_def date)
  have "day \<le> 31" using inv(5) daysIn_le [OF inv(2,3), of year] by linarith
  then have day: "nat day < 100" using inv(4) by linarith
  note w = absWeekday_less [of ?s]
  have "Format_RFC1123 lz t = date_text (absWeekday ?s) (nat year) month (nat day) hour minute sec (format_zone (zone_at lz t))"
    using year(1) inv(4) by (simp add: Format_RFC1123_def date_text_def date clock Let_def)
  then have "parse_layout (date_layout @ rest) (Format_RFC1123 lz t) no_fields =
      parse_layout rest (CHR '' '' # format_zone (zone_at lz t)) ?p" for rest
    using parse_date_text [OF w year(2) inv(2,3) day inv(6-8)] year(1) by simp
  moreover have "date_of (tm_sec t + snd (zone_at lz t)) ?p"
    using inv(1,4,5) by (simp add: date_of_def no_fields_def time_abs_def)
  ultimately show ?thesis by (rule that [rotated])
qed

lemma digits2:
  assumes "n < 100"
  obtains a b where "appendInt (int n) 2 = [digit_char a, digit_char b]" "a < 10" "b < 10" "n = 10 * a + b"
proof -
  obtain ds where ds: "appendInt (int n) 2 = map digit_char ds" "is_digits ds" "digits_value ds = n" "length ds = 2"
    using appendInt_digits [of n 2] assms by auto
  then obtain a b where "ds = [a, b]" by (auto simp: numeral_eq_Suc length_Suc_conv)
  then show ?thesis using ds by (intro that [of a b]) simp_all
qed

text \<open>The zone of a time without a zone name: RFC1123 rejects it at its last element, RFC1123Z reads it.\<close>

lemma parse_unnamed_zone:
  assumes "offset mod 60 = 0" and "24 * 60 \<le> \<bar>offset\<bar>" and "\<bar>offset\<bar> < 100 * 3600"
  shows "parseTimeZone (format_zone ([], offset)) = None" "take 3 (format_zone ([], offset)) \<noteq> ''UTC''"
    "parse_numTZ (format_zone ([], offset)) = Some (offset, [])" "hd (format_zone ([], offset)) \<noteq> CHR '' ''"
proof -
  define m where "m = nat (\<bar>offset\<bar> div 60)"
  have m: "\<bar>offset\<bar> = int m * 60" using assms(1) unfolding m_def by (simp add: mod_eq_0_iff_dvd pos_imp_zdiv_nonneg_iff)
  have bounds: "24 \<le> m" "m < 6000" using assms(2,3) m by linarith+
  obtain a b where ab: "appendInt (int (m div 60)) 2 = [digit_char a, digit_char b]" "a < 10" "b < 10" "m div 60 = 10 * a + b"
    by (rule digits2 [of "m div 60"]) (use bounds in simp)
  obtain c d where cd: "appendInt (int (m mod 60)) 2 = [digit_char c, digit_char d]" "c < 10" "d < 10" "m mod 60 = 10 * c + d"
    by (rule digits2 [of "m mod 60"]) simp
  let ?ds = "[a, b, c, d]"
  define sign where "sign = (if offset < 0 then CHR ''-'' else CHR ''+'')"
  have zt: "format_zone ([], offset) = sign # map digit_char ?ds"
  proof -
    have "\<bar>offset\<bar> div 60 = int m" by (simp add: m)
    moreover have "offset \<le> - 60 \<longleftrightarrow> offset < 0" using m bounds by linarith
    ultimately show ?thesis using ab(1) cd(1) by (simp add: format_zone_def sign_def zdiv_int zmod_int Let_def)
  qed
  have "m = 60 * (10 * a + b) + (10 * c + d)" using ab(4) cd(4) div_mult_mod_eq [of m 60] by simp
  then have "23 < digits_value ?ds" using bounds(1) by (cases "10 * a + b = 0") auto
  moreover have "leadingInt 0 (map digit_char ?ds) = Some (digits_value ?ds, [])"
    using leadingInt_digits [of ?ds "[]" 0] ab cd by (simp add: no_digit_def)
  ultimately have "parseSignedOffset (format_zone ([], offset)) = 0" unfolding zt by (simp add: parseSignedOffset_def sign_def)
  then show "parseTimeZone (format_zone ([], offset)) = None" unfolding zt
    by (cases "offset < 0") (simp_all add: parseTimeZone_def sign_def)
  show "take 3 (format_zone ([], offset)) \<noteq> ''UTC''" "hd (format_zone ([], offset)) \<noteq> CHR '' ''" unfolding zt by (simp_all add: sign_def)
  have "time_atoi [digit_char a, digit_char b] = Some (int (m div 60))" "time_atoi [digit_char c, digit_char d] = Some (int (m mod 60))"
    using time_atoi_digits [of "[a, b]"] time_atoi_digits [of "[c, d]"] ab cd by simp_all
  moreover have "int (m div 60) * 60 + int (m mod 60) = int m" by (simp add: zdiv_int zmod_int)
  then have "(int (m div 60) * 60 + int (m mod 60)) * 60 = \<bar>offset\<bar>" using m by simp
  ultimately show "parse_numTZ (format_zone ([], offset)) = Some (offset, [])"
    unfolding zt by (cases "offset < 0") (simp_all add: parse_numTZ_def sign_def Let_def)
qed

end
