(* ===== verification/Mail_Times.thy ===== *)
theory Mail_Times
  imports Go_Time
begin

text \<open>
  \<^verbatim>\<open>clock/rfc822.go\<close> (\<^verbatim>\<open>v3/clock/rfc822.go\<close> has the same code) and the older \<^verbatim>\<open>rfc/2822/time.go\<close>: times in JSON in the form of
  mail headers. Of \<^verbatim>\<open>strconv.Unquote\<close> the decoding of escapes is a parameter; the third-party encoder of BSON is one, too.
\<close>

section \<open>Quotes\<close>

text \<open>\<^verbatim>\<open>strconv.Quote\<close> of text without characters to escape.\<close>

definition strconv_Quote :: "string \<Rightarrow> string" where
  "strconv_Quote s = [CHR 0x22] @ s @ [CHR 0x22]"

definition strconv_Unquote :: "(char \<Rightarrow> string \<Rightarrow> string option) \<Rightarrow> string \<Rightarrow> string option" where
  "strconv_Unquote unescape s =
     (if length s < 2 \<or> hd s \<noteq> last s then None
      else let q = hd s; inner = butlast (tl s)
           in if q = CHR 0x60 then if q \<in> set inner then None else Some (filter (\<lambda>c. c \<noteq> CHR 13) inner)
              else if q \<noteq> CHR 0x22 \<and> q \<noteq> CHR 0x27 then None
              else if CHR 10 \<in> set inner then None
              else if q = CHR 0x22 \<and> CHR 0x5C \<notin> set inner \<and> q \<notin> set inner \<and> list_all (\<lambda>c. of_char c < (128 :: nat)) inner then Some inner
              else unescape q inner)"

section \<open>RFC822Time\<close>

datatype time_error = InvalidSyntax | BadElement string | BSONError string

text \<open>\<^verbatim>\<open>Truncate\<close> to seconds, and \<^verbatim>\<open>Unix(timestamp, 0).UTC()\<close>.\<close>

definition NewRFC822Time :: "wall_time \<Rightarrow> wall_time" where
  "NewRFC822Time t = t\<lparr>tm_nsec := 0\<rparr>"

definition NewRFC822TimeFromUnix :: "int \<Rightarrow> wall_time" where
  "NewRFC822TimeFromUnix timestamp = \<lparr>tm_sec = timestamp, tm_nsec = 0, tm_loc = UTC\<rparr>"

definition RFC822Time_MarshalJSON :: "local_zone \<Rightarrow> wall_time \<Rightarrow> string" where
  "RFC822Time_MarshalJSON lz t = strconv_Quote (Format_RFC1123 lz t)"

text \<open>\<^verbatim>\<open>t.Time\<close> is assigned also when \<^verbatim>\<open>Parse\<close> fails, the zero time then.\<close>

definition RFC822Time_UnmarshalJSON ::
  "(char \<Rightarrow> string \<Rightarrow> string option) \<Rightarrow> local_zone \<Rightarrow> string \<Rightarrow> wall_time \<Rightarrow> wall_time \<times> time_error option" where
  "RFC822Time_UnmarshalJSON unescape lz s t =
     (case strconv_Unquote unescape s of
        None \<Rightarrow> (t, Some InvalidSyntax)
      | Some q \<Rightarrow>
          (case time_Parse lz RFC1123 q of
             Inr t' \<Rightarrow> (t', None)
           | Inl elem \<Rightarrow>
               if elem \<noteq> ''MST'' then (zero_time, Some (BadElement elem))
               else (case time_Parse lz RFC1123Z q of
                       Inl elem' \<Rightarrow> (zero_time, Some (BadElement elem'))
                     | Inr t' \<Rightarrow> (t', None))))"

definition RFC822Time_String :: "local_zone \<Rightarrow> wall_time \<Rightarrow> string" where
  "RFC822Time_String lz t = Format_RFC1123 lz t"

section \<open>RFC2822Time\<close>

definition NewRFC2822Time :: "int \<Rightarrow> wall_time" where
  "NewRFC2822Time timestamp = \<lparr>tm_sec = timestamp, tm_nsec = 0, tm_loc = UTC\<rparr>"

definition RFC2822Time_Unix :: "wall_time \<Rightarrow> int" where
  "RFC2822Time_Unix t = tm_sec t"

definition RFC2822Time_IsZero :: "wall_time \<Rightarrow> bool" where
  "RFC2822Time_IsZero t \<longleftrightarrow> tm_sec t = - 62135596800 \<and> tm_nsec t = 0"

definition RFC2822Time_MarshalJSON :: "local_zone \<Rightarrow> wall_time \<Rightarrow> string" where
  "RFC2822Time_MarshalJSON lz t = strconv_Quote (Format_RFC1123 lz t)"

definition RFC2822Time_UnmarshalJSON ::
  "(char \<Rightarrow> string \<Rightarrow> string option) \<Rightarrow> local_zone \<Rightarrow> string \<Rightarrow> wall_time \<Rightarrow> wall_time \<times> time_error option" where
  "RFC2822Time_UnmarshalJSON unescape lz s t =
     (case strconv_Unquote unescape s of
        None \<Rightarrow> (t, Some InvalidSyntax)
      | Some q \<Rightarrow> (case time_Parse lz RFC1123 q of Inl elem \<Rightarrow> (zero_time, Some (BadElement elem)) | Inr t' \<Rightarrow> (t', None)))"

definition RFC2822Time_GetBSON :: "wall_time \<Rightarrow> wall_time" where
  "RFC2822Time_GetBSON t = t"

definition RFC2822Time_SetBSON :: "('raw \<Rightarrow> string + wall_time) \<Rightarrow> 'raw \<Rightarrow> wall_time \<Rightarrow> wall_time \<times> time_error option" where
  "RFC2822Time_SetBSON unmarshal raw t = (case unmarshal raw of Inl err \<Rightarrow> (t, Some (BSONError err)) | Inr r \<Rightarrow> (r, None))"

definition RFC2822Time_String :: "local_zone \<Rightarrow> wall_time \<Rightarrow> string" where
  "RFC2822Time_String lz t = Format_RFC1123 lz t"

section \<open>Round trip\<close>

text \<open>Text that needs no escapes: printable ASCII without quote or backslash.\<close>

definition plain_char :: "char \<Rightarrow> bool" where
  "plain_char c \<longleftrightarrow> c \<noteq> CHR 0x22 \<and> c \<noteq> CHR 0x5C \<and> 32 \<le> (of_char c :: nat) \<and> (of_char c :: nat) < 127"

lemma Unquote_Quote: "list_all plain_char s \<Longrightarrow> strconv_Unquote unescape (strconv_Quote s) = Some s"
proof -
  assume plain: "list_all plain_char s"
  have "\<not> plain_char CHR 0x22" "\<not> plain_char CHR 0x5C" "\<not> plain_char CHR 10" by code_simp+
  then have "CHR 0x22 \<notin> set s" "CHR 0x5C \<notin> set s" "CHR 10 \<notin> set s" using plain by (meson list_all_iff)+
  moreover have "list_all (\<lambda>c. of_char c < (128 :: nat)) s" by (rule list.pred_mono_strong [OF plain]) (simp add: plain_char_def)
  ultimately show ?thesis by (simp add: strconv_Unquote_def strconv_Quote_def Let_def)
qed

lemma plain_digit: "d < 10 \<Longrightarrow> plain_char (digit_char d)"
proof -
  assume "d < 10"
  then have "d \<in> {0, 1, 2, 3, 4, 5, 6, 7, 8, 9}" unfolding insert_iff empty_iff by presburger
  moreover have "list_all (\<lambda>d. plain_char (digit_char d)) [0, 1, 2, 3, 4, 5, 6, 7, 8, 9]" by code_simp
  ultimately show ?thesis by (auto simp: list_all_iff)
qed

lemma plain_appendInt: "list_all plain_char (appendInt x w)"
proof -
  have "plain_char CHR ''-''" "plain_char CHR ''0''" by code_simp+
  moreover have "list_all plain_char (nat_digits n)" for n using nat_digits_chars plain_digit by (fastforce simp: list_all_iff)
  ultimately show ?thesis by (simp add: appendInt_def list_all_append list_all_iff [of _ "replicate _ _"] Let_def)
qed

lemma plain_literals: "list_all plain_char '', ''" "list_all plain_char '' ''" "list_all plain_char '':''"
  "list_all plain_char ''+''" "list_all plain_char ''-''" "list_all plain_char ''UTC''"
  "list_all (list_all plain_char) shortDayNames" "list_all (list_all plain_char) shortMonthNames"
  by code_simp+

lemma plain_Format:
  assumes "list_all plain_char (fst (zone_at lz t))"
  shows "list_all plain_char (Format_RFC1123 lz t)"
proof -
  let ?s = "time_abs lz t"
  obtain year month day where date: "absDate ?s = (year, month, day)" by (cases "absDate ?s")
  obtain hour minute sec where clock: "absClock ?s = (hour, minute, sec)" by (cases "absClock ?s")
  have "month - 1 < 12" using Date_UTC_absDate(2,3) [OF date clock] by linarith
  then have "list_all plain_char (shortMonthNames ! (month - 1))" "list_all plain_char (shortDayNames ! absWeekday ?s)"
    using plain_literals(7,8) absWeekday_less [of ?s] by (simp_all add: list_all_length shortMonthNames_def shortDayNames_def)
  moreover have "list_all plain_char (format_zone (zone_at lz t))"
    using assms plain_literals plain_appendInt by (cases "zone_at lz t") (simp add: format_zone_def Let_def)
  ultimately show ?thesis
    using plain_literals plain_appendInt by (simp add: Format_RFC1123_def date clock Let_def)
qed

text \<open>
  Zones whose text is read back: UTC; a zone without name, of full minutes and at least 24 of them; and a name that
  \<^verbatim>\<open>Parse\<close> recognises and that the local zone knows with the same offset.
\<close>

definition readable_zone :: "local_zone \<Rightarrow> wall_time \<Rightarrow> bool" where
  "readable_zone lz t \<longleftrightarrow>
     (case zone_at lz t of (name, offset) \<Rightarrow>
        name = ''UTC'' \<and> offset = 0
        \<or> name = [] \<and> offset mod 60 = 0 \<and> 24 * 60 \<le> \<bar>offset\<bar> \<and> \<bar>offset\<bar> < 100 * 3600
        \<or> list_all plain_char name \<and> parseTimeZone name = Some (length name) \<and> take 3 name \<noteq> ''UTC'' \<and>
          lz_lookupName lz name (tm_sec t + offset) = Some offset)"

lemma parseTimeZone_hd: "parseTimeZone name = Some n \<Longrightarrow> name \<noteq> [] \<and> hd name \<noteq> CHR '' ''"
proof -
  assume some: "parseTimeZone name = Some n"
  then have "name \<noteq> []" by (auto simp: parseTimeZone_def)
  moreover have "hd name \<noteq> CHR '' ''"
  proof
    assume "hd name = CHR '' ''"
    then obtain r where name: "name = CHR '' '' # r" using \<open>name \<noteq> []\<close> by (cases name) auto
    have "parseTimeZone name = None" by (simp add: parseTimeZone_def name is_upper_def Let_def numeral_eq_Suc)
    then show False using some by simp
  qed
  ultimately show ?thesis by simp
qed

text \<open>The same second, without nanoseconds.\<close>

definition same_second :: "wall_time \<Rightarrow> string + wall_time \<Rightarrow> bool" where
  "same_second t r \<longleftrightarrow> (\<exists>t'. r = Inr t' \<and> tm_sec t' = tm_sec t \<and> tm_nsec t' = 0)"

lemma parse_last:
  assumes "z \<noteq> []" and "hd z \<noteq> CHR '' ''"
  shows "parse_layout [('' '', std)] (CHR '' '' # z) p =
    (case parse_std std z p of None \<Rightarrow> Inl (std_text std) | Some (p', v) \<Rightarrow> if v \<noteq> [] then Inl [] else Inr p')"
  using cutspace_id [OF assms] by (simp split: option.split)

lemma Parse_finished:
  assumes "parse_layout layout v no_fields = Inr (p\<lparr>p_utc := b, p_zoneName := n, p_zoneOffset := z\<rparr>)" and "date_of s p"
  shows "time_Parse lz layout v = Inr (Parse_finish lz (p\<lparr>p_utc := b, p_zoneName := n, p_zoneOffset := z\<rparr>))"
  using assms by (simp add: time_Parse_def date_of_def)

lemma Parse_finish_second:
  assumes "date_of (tm_sec t + offset) p"
  shows "offset = 0 \<Longrightarrow> same_second t (Inr (Parse_finish lz (p\<lparr>p_utc := True, p_zoneName := [], p_zoneOffset := None\<rparr>)))"
    and "same_second t (Inr (Parse_finish lz (p\<lparr>p_utc := False, p_zoneName := [], p_zoneOffset := Some offset\<rparr>)))"
    and "name \<noteq> [] \<Longrightarrow> lz_lookupName lz name (tm_sec t + offset) = Some offset \<Longrightarrow>
      same_second t (Inr (Parse_finish lz (p\<lparr>p_utc := False, p_zoneName := name, p_zoneOffset := None\<rparr>)))"
  using assms by (simp_all add: same_second_def Parse_finish_def date_of_def Let_def)


lemma Parse_Format_cases:
  assumes year: "0 \<le> Time_Year lz t" "Time_Year lz t \<le> 9999" and zone: "readable_zone lz t"
  shows "same_second t (time_Parse lz RFC1123 (Format_RFC1123 lz t)) \<or>
    time_Parse lz RFC1123 (Format_RFC1123 lz t) = Inl ''MST'' \<and> same_second t (time_Parse lz RFC1123Z (Format_RFC1123 lz t))"
proof -
  obtain name offset where z: "zone_at lz t = (name, offset)" by fastforce
  let ?z = "format_zone (name, offset)"
  obtain p where p: "date_of (tm_sec t + offset) p"
    and parse: "\<And>rest. parse_layout (date_layout @ rest) (Format_RFC1123 lz t) no_fields = parse_layout rest (CHR '' '' # ?z) p"
    using parse_Format [OF year] z by (metis snd_conv)
  have fields: "p_zoneName p = []" "p_zoneOffset p = None" "\<not> p_utc p" using p by (simp_all add: date_of_def)
  note second = Parse_finish_second [OF p, where lz = lz]
  consider "name = ''UTC''" "offset = 0"
    | "name = []" "offset mod 60 = 0" "24 * 60 \<le> \<bar>offset\<bar>" "\<bar>offset\<bar> < 100 * 3600"
    | "parseTimeZone name = Some (length name)" "take 3 name \<noteq> ''UTC''" "lz_lookupName lz name (tm_sec t + offset) = Some offset"
    using zone by (auto simp: readable_zone_def z)
  then show ?thesis
  proof cases
    case 1
    then have "parse_layout RFC1123 (Format_RFC1123 lz t) no_fields = Inr (p\<lparr>p_utc := True, p_zoneName := [], p_zoneOffset := None\<rparr>)"
      using fields unfolding RFC1123_def parse by (subst parse_last) (simp_all add: format_zone_def parse_std_def)
    from Parse_finished [OF this p] show ?thesis using second(1) 1 by simp
  next
    case 2
    note unnamed = parse_unnamed_zone [OF 2(2-4)]
    have "?z \<noteq> []" by (simp add: 2 format_zone_def Let_def)
    then have "parse_layout RFC1123 (Format_RFC1123 lz t) no_fields = Inl ''MST''"
      and "parse_layout RFC1123Z (Format_RFC1123 lz t) no_fields = Inr (p\<lparr>p_utc := False, p_zoneName := [], p_zoneOffset := Some offset\<rparr>)"
      using fields unnamed unfolding RFC1123_def RFC1123Z_def parse 2(1) by (simp_all add: parse_last parse_std_def del: parse_layout.simps)
    from this(1) Parse_finished [OF this(2) p] show ?thesis using second(2) by (simp add: time_Parse_def)
  next
    case 3
    have name: "name \<noteq> []" "hd name \<noteq> CHR '' ''" using parseTimeZone_hd [OF 3(1)] by simp_all
    then have "parse_layout RFC1123 (Format_RFC1123 lz t) no_fields = Inr (p\<lparr>p_utc := False, p_zoneName := name, p_zoneOffset := None\<rparr>)"
      using fields 3 unfolding RFC1123_def parse by (simp add: format_zone_def parse_last parse_std_def del: parse_layout.simps)
    from Parse_finished [OF this p] show ?thesis using second(3) name 3 by simp
  qed
qed

lemma NewRFC822Time_same:
  "Format_RFC1123 lz (NewRFC822Time t) = Format_RFC1123 lz t" "readable_zone lz (NewRFC822Time t) = readable_zone lz t"
  "zone_at lz (NewRFC822Time t) = zone_at lz t"
proof -
  show zone: "zone_at lz (NewRFC822Time t) = zone_at lz t" by (cases "tm_loc t") (simp_all add: NewRFC822Time_def zone_at_def)
  show "Format_RFC1123 lz (NewRFC822Time t) = Format_RFC1123 lz t" "readable_zone lz (NewRFC822Time t) = readable_zone lz t"
    unfolding Format_RFC1123_def readable_zone_def time_abs_def zone by (simp_all add: NewRFC822Time_def)
qed

lemma readable_plain: "readable_zone lz t \<Longrightarrow> list_all plain_char (fst (zone_at lz t))"
  using plain_literals(6) by (auto simp: readable_zone_def split: prod.splits)

text \<open>
  C33: times survive JSON in the form of mail headers: for a year of four digits and a zone that is UTC, has a name that the
  machine knows, or has no name and an offset of full minutes, at least 24, what \<^verbatim>\<open>MarshalJSON\<close> writes for an
  \<^verbatim>\<open>RFC822Time\<close> is read back by \<^verbatim>\<open>UnmarshalJSON\<close> as the same second, without the fraction that \<^verbatim>\<open>NewRFC822Time\<close> cuts off.
\<close>

theorem RFC822Time_roundtrip:
  assumes "0 \<le> Time_Year lz t" and "Time_Year lz t \<le> 9999" and "readable_zone lz t"
  shows "\<exists>t'. RFC822Time_UnmarshalJSON unescape lz (RFC822Time_MarshalJSON lz (NewRFC822Time t)) t0 = (t', None) \<and>
    tm_sec t' = tm_sec t \<and> tm_nsec t' = 0"
proof -
  let ?q = "Format_RFC1123 lz t"
  have unquote: "strconv_Unquote unescape (strconv_Quote ?q) = Some ?q"
    by (rule Unquote_Quote [OF plain_Format [OF readable_plain [OF assms(3)]]])
  consider t' where "time_Parse lz RFC1123 ?q = Inr t'" "tm_sec t' = tm_sec t" "tm_nsec t' = 0"
    | t' where "time_Parse lz RFC1123 ?q = Inl ''MST''" "time_Parse lz RFC1123Z ?q = Inr t'" "tm_sec t' = tm_sec t" "tm_nsec t' = 0"
    using Parse_Format_cases [OF assms] unfolding same_second_def by blast
  then show ?thesis
    by cases (simp_all add: RFC822Time_UnmarshalJSON_def RFC822Time_MarshalJSON_def NewRFC822Time_same unquote)
qed

definition moscow :: local_zone where
  "moscow = \<lparr>lz_lookup = (\<lambda>_. (''MSK'', 10800)), lz_lookupName = (\<lambda>name _. if name = ''MSK'' then Some 10800 else None)\<rparr>"

definition ex_time :: wall_time where
  "ex_time = \<lparr>tm_sec = 1567066807, tm_nsec = 123456789, tm_loc = Local\<rparr>"

lemma ex_time_ok: "Time_Year moscow ex_time = 2019" "readable_zone moscow ex_time"
proof -
  show "Time_Year moscow ex_time = 2019"
    by code_simp
  have "list_all plain_char ''MSK''" by code_simp
  moreover have "parseTimeZone ''MSK'' = Some (length ''MSK'')" by (simp add: parseTimeZone_def is_upper_def)
  ultimately show "readable_zone moscow ex_time" by (simp add: readable_zone_def zone_at_def moscow_def ex_time_def)
qed

theorem RFC822Time_roundtrip_witness:
  "\<exists>t'. RFC822Time_UnmarshalJSON (\<lambda>_ _. None) moscow (RFC822Time_MarshalJSON moscow (NewRFC822Time ex_time)) zero_time = (t', None) \<and>
     tm_sec t' = 1567066807 \<and> tm_nsec t' = 0"
  using RFC822Time_roundtrip [of moscow ex_time "\<lambda>_ _. None" zero_time] ex_time_ok by (simp add: ex_time_def)

section \<open>The older package\<close>

text \<open>A time of the older package is read back, too; a time in a zone without a name is not.\<close>

lemma RFC2822Time_roundtrip:
  assumes "0 \<le> Time_Year lz (NewRFC2822Time n)" and "Time_Year lz (NewRFC2822Time n) \<le> 9999"
  shows "\<exists>t'. RFC2822Time_UnmarshalJSON unescape lz (RFC2822Time_MarshalJSON lz (NewRFC2822Time n)) t0 = (t', None) \<and>
    RFC2822Time_Unix t' = n"
proof -
  let ?t = "NewRFC2822Time n"
  have zone: "zone_at lz ?t = (''UTC'', 0)" by (simp add: NewRFC2822Time_def zone_at_def)
  obtain p where p: "date_of (tm_sec ?t + 0) p" and parse: "\<And>rest. parse_layout (date_layout @ rest) (Format_RFC1123 lz ?t) no_fields =
      parse_layout rest (CHR '' '' # format_zone (''UTC'', 0)) p"
    using parse_Format [OF assms] zone by (metis snd_conv)
  have "parse_layout RFC1123 (Format_RFC1123 lz ?t) no_fields = Inr (p\<lparr>p_utc := True, p_zoneName := [], p_zoneOffset := None\<rparr>)"
    using p unfolding RFC1123_def parse by (subst parse_last) (simp_all add: format_zone_def parse_std_def date_of_def)
  from Parse_finished [OF this p] have "same_second ?t (time_Parse lz RFC1123 (Format_RFC1123 lz ?t))"
    using Parse_finish_second(1) [OF p] by simp
  moreover have "strconv_Unquote unescape (strconv_Quote (Format_RFC1123 lz ?t)) = Some (Format_RFC1123 lz ?t)"
    by (rule Unquote_Quote [OF plain_Format]) (use zone plain_literals(6) in simp)
  ultimately show ?thesis
    by (auto simp: RFC2822Time_UnmarshalJSON_def RFC2822Time_MarshalJSON_def RFC2822Time_Unix_def same_second_def NewRFC2822Time_def)
qed

lemma RFC2822Time_rejects_offsets:
  assumes "0 \<le> Time_Year lz t" and "Time_Year lz t \<le> 9999" and "zone_at lz t = ([], offset)"
    and "offset mod 60 = 0" and "24 * 60 \<le> \<bar>offset\<bar>" and "\<bar>offset\<bar> < 100 * 3600"
  shows "RFC2822Time_UnmarshalJSON unescape lz (RFC2822Time_MarshalJSON lz t) t0 = (zero_time, Some (BadElement ''MST''))"
proof -
  obtain p where parse: "\<And>rest. parse_layout (date_layout @ rest) (Format_RFC1123 lz t) no_fields =
      parse_layout rest (CHR '' '' # format_zone ([], offset)) p"
    using parse_Format [OF assms(1,2)] assms(3) by metis
  note unnamed = parse_unnamed_zone [OF assms(4-6)]
  have "format_zone ([], offset) \<noteq> []" by (simp add: format_zone_def Let_def)
  then have "parse_layout RFC1123 (Format_RFC1123 lz t) no_fields = Inl ''MST''"
    using unnamed unfolding RFC1123_def parse by (simp add: parse_last parse_std_def del: parse_layout.simps)
  moreover have "strconv_Unquote unescape (strconv_Quote (Format_RFC1123 lz t)) = Some (Format_RFC1123 lz t)"
    by (rule Unquote_Quote [OF plain_Format]) (simp add: assms(3))
  ultimately show ?thesis by (simp add: RFC2822Time_UnmarshalJSON_def RFC2822Time_MarshalJSON_def time_Parse_def)
qed

section \<open>Flaws\<close>

text \<open>
  A name that the machine does not know, such as the zones of the United States that RFC 822 lists, counts as UTC:
  the time read is off by the offset of the zone.
\<close>

lemma foreign_zone_ignored:
  assumes "0 \<le> Time_Year lz t" and "Time_Year lz t \<le> 9999" and "zone_at lz t = (name, offset)"
    and "parseTimeZone name = Some (length name)" and "take 3 name \<noteq> ''UTC''" and "take 3 name \<noteq> ''GMT''"
    and "lz_lookupName lz name (tm_sec t + offset) = None"
  shows "time_Parse lz RFC1123 (Format_RFC1123 lz t) = Inr \<lparr>tm_sec = tm_sec t + offset, tm_nsec = 0, tm_loc = FixedZone name 0\<rparr>"
proof -
  obtain p where p: "date_of (tm_sec t + offset) p" and parse: "\<And>rest. parse_layout (date_layout @ rest) (Format_RFC1123 lz t) no_fields =
      parse_layout rest (CHR '' '' # format_zone (name, offset)) p"
    using parse_Format [OF assms(1,2)] assms(3) by (metis snd_conv)
  have name: "name \<noteq> []" "hd name \<noteq> CHR '' ''" using parseTimeZone_hd [OF assms(4)] by simp_all
  then have "parse_layout RFC1123 (Format_RFC1123 lz t) no_fields = Inr (p\<lparr>p_utc := False, p_zoneName := name, p_zoneOffset := None\<rparr>)"
    using p assms(4,5) unfolding RFC1123_def parse by (simp add: format_zone_def parse_last parse_std_def date_of_def del: parse_layout.simps)
  from Parse_finished [OF this p] show ?thesis
    using p name assms(6,7) by (simp add: Parse_finish_def date_of_def Let_def)
qed

text \<open>So do offsets below 24 minutes: RFC1123 takes them for names, and RFC1123Z is not tried.\<close>

lemma small_offset_is_a_name: "parseTimeZone ''+0020'' = Some 5"
  by (simp add: parseTimeZone_def parseSignedOffset_def digit_val_def)

end
