(* ===== verification/Lemma_Command.thy ===== *)
theory Lemma_Command
  imports Secret
begin

text \<open>
  \<^verbatim>\<open>cmd/lemma/main.go\<close>: the command that encrypts and decrypts files with a key from disk or a passphrase. The file
  system is a map from paths to contents; whether a write fails, the random bytes, the passphrase typed, the
  derivation of keys (\<^verbatim>\<open>pbkdf2\<close>), secretbox and the decoder of JSON are arguments. A call of \<^verbatim>\<open>os.Exit\<close> ends the command
  with a code; files written before it stay.
\<close>

section \<open>Data\<close>

record EncodedCiphertext =
  ec_KeySalt :: string
  ec_KeyIter :: int
  ec_KeyAlgorithm :: string
  ec_CiphertextNonce :: string
  ec_Ciphertext :: string
  ec_CipherAlgorithm :: string

type_synonym files = "string \<rightharpoonup> string"

record machine =
  mc_box :: secretbox
  mc_salt :: "nat \<Rightarrow> string + string"
  mc_random :: "nat \<Rightarrow> string + string"
  mc_passphrase :: string
  mc_pbkdf2 :: "string \<Rightarrow> string \<Rightarrow> int \<Rightarrow> nat \<Rightarrow> string"
  mc_Unmarshal :: "string \<Rightarrow> string + EncodedCiphertext"
  mc_WriteError :: "string \<Rightarrow> string option"

datatype lemma_error =
    Usage
  | FlagError string
  | UnableToGenerateSalt string
  | UnableToReadKey secret_error
  | UnableToReadPlaintext string
  | UnableToSeal secret_error
  | UnableToWriteSealed string
  | UnableToReadCiphertext string
  | UnableToOpen secret_error
  | UnableToWritePlaintext string

definition os_ReadFile :: "files \<Rightarrow> string \<Rightarrow> string + string" where
  "os_ReadFile fs path = (case fs path of None \<Rightarrow> Inl ''no such file or directory'' | Some c \<Rightarrow> Inr c)"

definition os_WriteFile :: "machine \<Rightarrow> files \<Rightarrow> string \<Rightarrow> string \<Rightarrow> files \<times> string option" where
  "os_WriteFile mc fs path content =
     (case mc_WriteError mc path of Some err \<Rightarrow> (fs, Some err) | None \<Rightarrow> (fs(path \<mapsto> content), None))"

text \<open>The package \<^verbatim>\<open>secret\<close> sees the files and emits no statistics here.\<close>

definition secret_env :: "files \<Rightarrow> environment" where
  "secret_env fs = \<lparr>env_Hostname = Inl ''unused'', env_metrics = (\<lambda>_ _. None), env_ReadFile = os_ReadFile fs\<rparr>"

section \<open>The format of the file\<close>

text \<open>
  \<^verbatim>\<open>json.MarshalIndent\<close> of the structure, with three blanks; the strings among its values, names of algorithms,
  hold nothing to escape.
\<close>

definition json_string :: "string \<Rightarrow> string" where
  "json_string s = [CHR 0x22] @ s @ [CHR 0x22]"

definition json_key :: "string \<Rightarrow> string" where
  "json_key name = ''   '' @ json_string name @ '': ''"

definition comma_line :: string where "comma_line = '','' @ [CHR 10]"

definition json_MarshalIndent :: "EncodedCiphertext \<Rightarrow> string" where
  "json_MarshalIndent ec =
     ''{'' @ [CHR 10] @
     (if ec_KeySalt ec \<noteq> [] then json_key ''key_salt'' @ json_bytes (Some (ec_KeySalt ec)) @ comma_line else []) @
     (if ec_KeyIter ec \<noteq> 0 then json_key ''key_iter_count'' @ FormatInt (ec_KeyIter ec) @ comma_line else []) @
     (if ec_KeyAlgorithm ec \<noteq> [] then json_key ''key_algorithm'' @ json_string (ec_KeyAlgorithm ec) @ comma_line else []) @
     json_key ''ciphertext_nonce'' @ json_bytes (Some (ec_CiphertextNonce ec)) @ comma_line @
     json_key ''ciphertext'' @ json_bytes (Some (ec_Ciphertext ec)) @ comma_line @
     json_key ''cipher_algorithm'' @ json_string (ec_CipherAlgorithm ec) @ [CHR 10] @ ''}''"

definition encode_ciphertext :: "string \<Rightarrow> int \<Rightarrow> bool \<Rightarrow> SealedBytes \<Rightarrow> EncodedCiphertext" where
  "encode_ciphertext salt keyiter isPass sealed =
     (let ec = \<lparr>ec_KeySalt = [], ec_KeyIter = 0, ec_KeyAlgorithm = [], ec_CiphertextNonce = NonceBytes sealed,
                ec_Ciphertext = CiphertextBytes sealed, ec_CipherAlgorithm = ''salsa20_poly1305''\<rparr>
      in if isPass then ec\<lparr>ec_KeySalt := salt, ec_KeyIter := keyiter, ec_KeyAlgorithm := ''pbkdf#2''\<rparr> else ec)"

definition writeCiphertext ::
  "machine \<Rightarrow> string \<Rightarrow> int \<Rightarrow> bool \<Rightarrow> SealedBytes \<Rightarrow> string \<Rightarrow> files \<Rightarrow> files \<times> string option" where
  "writeCiphertext mc salt keyiter isPass sealed filename fs =
     os_WriteFile mc fs filename (json_MarshalIndent (encode_ciphertext salt keyiter isPass sealed))"

definition readCiphertext :: "machine \<Rightarrow> string \<Rightarrow> files \<Rightarrow> string + (string \<times> int \<times> SealedBytes)" where
  "readCiphertext mc filename fs =
     (case os_ReadFile fs filename of
        Inl err \<Rightarrow> Inl err
      | Inr b \<Rightarrow>
          (case mc_Unmarshal mc b of
             Inl err \<Rightarrow> Inl err
           | Inr ec \<Rightarrow> Inr (ec_KeySalt ec, ec_KeyIter ec,
               \<lparr>sb_Ciphertext = Some (ec_Ciphertext ec), sb_Nonce = Some (ec_CiphertextNonce ec)\<rparr>)))"

section \<open>The command\<close>

definition generateKey :: "machine \<Rightarrow> string \<Rightarrow> string \<Rightarrow> int \<Rightarrow> files \<Rightarrow> secret_error + (string \<times> bool)" where
  "generateKey mc keypath salt keyiter fs =
     (if keypath \<noteq> [] then map_sum id (\<lambda>k. (k, False)) (ReadKeyFromDisk (secret_env fs) keypath)
      else map_sum id (\<lambda>k. (k, True)) (KeySliceToArray (mc_pbkdf2 mc (mc_passphrase mc) salt keyiter 32)))"

text \<open>The second component is \<open>None\<close> when the function returns, or the error with which the command ends.\<close>

definition encrypt :: "machine \<Rightarrow> string \<Rightarrow> int \<Rightarrow> string \<Rightarrow> string \<Rightarrow> files \<Rightarrow> (files \<times> lemma_error option) go" where
  "encrypt mc keypath itercount inputpath outputpath fs =
     (case CSPRNG_Bytes (mc_salt mc) 16 of
        Inl err \<Rightarrow> Ret (fs, Some (UnableToGenerateSalt err))
      | Inr salt \<Rightarrow>
     (case generateKey mc keypath salt itercount fs of
        Inl err \<Rightarrow> Ret (fs, Some (UnableToReadKey err))
      | Inr (key, isPass) \<Rightarrow>
     (case os_ReadFile fs inputpath of
        Inl err \<Rightarrow> Ret (fs, Some (UnableToReadPlaintext err))
      | Inr plaintextBytes \<Rightarrow>
     go_bind (Secret_Seal (secret_env fs) (mc_box mc) (mc_random mc) plaintextBytes (Some key)) (\<lambda>r.
       case r of
        Inl err \<Rightarrow> Ret (fs, Some (UnableToSeal err))
      | Inr sealedData \<Rightarrow>
          (case writeCiphertext mc salt itercount isPass sealedData outputpath fs of
             (fs', Some err) \<Rightarrow> Ret (fs', Some (UnableToWriteSealed err))
           | (fs', None) \<Rightarrow> Ret (fs', None))))))"

definition decrypt :: "machine \<Rightarrow> string \<Rightarrow> string \<Rightarrow> string \<Rightarrow> files \<Rightarrow> (files \<times> lemma_error option) go" where
  "decrypt mc keypath inputpath outputpath fs =
     (case readCiphertext mc inputpath fs of
        Inl err \<Rightarrow> Ret (fs, Some (UnableToReadCiphertext err))
      | Inr (keySalt, keyIter, sealedData) \<Rightarrow>
     (case generateKey mc keypath keySalt keyIter fs of
        Inl err \<Rightarrow> Ret (fs, Some (UnableToReadKey err))
      | Inr (key, _) \<Rightarrow>
     go_bind (Secret_Open (secret_env fs) (mc_box mc) sealedData (Some key)) (\<lambda>r.
       case r of
        Inl err \<Rightarrow> Ret (fs, Some (UnableToOpen err))
      | Inr plaintextBytes \<Rightarrow>
          (case os_WriteFile mc fs outputpath plaintextBytes of
             (fs', Some err) \<Rightarrow> Ret (fs', Some (UnableToWritePlaintext err))
           | (fs', None) \<Rightarrow> Ret (fs', None)))))"

text \<open>
  The command line: package \<^verbatim>\<open>flag\<close> with four flags. A flag is one or two dashes, a name, and its value after an
  equals sign or as the next argument; the first argument that is no flag, or two dashes alone, end the flags.
  \<open>ParseInt0\<close> is \<^verbatim>\<open>strconv.ParseInt\<close> with base 0.
\<close>

record lemma_flags =
  lf_in :: string
  lf_out :: string
  lf_keypath :: string
  lf_itercount :: int

definition set_flag :: "(string \<Rightarrow> int option) \<Rightarrow> string \<Rightarrow> string \<Rightarrow> lemma_flags \<Rightarrow> string + lemma_flags" where
  "set_flag ParseInt0 name val fl =
     (if name = ''in'' then Inr (fl\<lparr>lf_in := val\<rparr>)
      else if name = ''out'' then Inr (fl\<lparr>lf_out := val\<rparr>)
      else if name = ''keypath'' then Inr (fl\<lparr>lf_keypath := val\<rparr>)
      else if name = ''itercount'' then
        (case ParseInt0 val of None \<Rightarrow> Inl (''invalid value for flag -'' @ name) | Some i \<Rightarrow> Inr (fl\<lparr>lf_itercount := i\<rparr>))
      else Inl (''flag provided but not defined: -'' @ name))"

definition known_flag :: "string \<Rightarrow> bool" where
  "known_flag name \<longleftrightarrow> name \<in> {''in'', ''out'', ''keypath'', ''itercount''}"

fun flag_Parse :: "(string \<Rightarrow> int option) \<Rightarrow> string list \<Rightarrow> lemma_flags \<Rightarrow> string + lemma_flags" where
  "flag_Parse ParseInt0 [] fl = Inr fl"
| "flag_Parse ParseInt0 (s # args) fl =
     (if length s < 2 \<or> hd s \<noteq> CHR ''-'' then Inr fl
      else if s = ''--'' then Inr fl
      else let name = (if s ! 1 = CHR ''-'' then drop 2 s else tl s)
           in if name = [] \<or> hd name = CHR ''-'' \<or> hd name = CHR ''='' then Inl (''bad flag syntax: '' @ s)
              else let flagname = takeWhile (\<lambda>c. c \<noteq> CHR ''='') name
                   in if \<not> known_flag flagname then Inl (''flag provided but not defined: -'' @ flagname)
                      else if CHR ''='' \<in> set name then
                        (case set_flag ParseInt0 flagname (drop (length flagname + 1) name) fl of
                           Inl err \<Rightarrow> Inl err
                         | Inr fl' \<Rightarrow> flag_Parse ParseInt0 args fl')
                      else (case args of
                              [] \<Rightarrow> Inl (''flag needs an argument: -'' @ flagname)
                            | v # rest \<Rightarrow>
                                (case set_flag ParseInt0 flagname v fl of
                                   Inl err \<Rightarrow> Inl err
                                 | Inr fl' \<Rightarrow> flag_Parse ParseInt0 rest fl')))"

definition parseArguments :: "(string \<Rightarrow> int option) \<Rightarrow> string list \<Rightarrow> lemma_error + (string \<times> lemma_flags)" where
  "parseArguments ParseInt0 args =
     (if length args < 2 then Inl Usage
      else case flag_Parse ParseInt0 (drop 2 args) \<lparr>lf_in = [], lf_out = [], lf_keypath = [], lf_itercount = 524288\<rparr> of
             Inl err \<Rightarrow> Inl (FlagError err)
           | Inr fl \<Rightarrow> if lf_in fl = [] \<or> lf_out fl = [] then Inl Usage else Inr (args ! 1, fl))"

definition lemma_main :: "machine \<Rightarrow> (string \<Rightarrow> int option) \<Rightarrow> string list \<Rightarrow> files \<Rightarrow> (files \<times> lemma_error option) go" where
  "lemma_main mc ParseInt0 args fs =
     (case parseArguments ParseInt0 args of
        Inl err \<Rightarrow> Ret (fs, Some err)
      | Inr (mode, fl) \<Rightarrow>
          if mode = ''encrypt'' then encrypt mc (lf_keypath fl) (lf_itercount fl) (lf_in fl) (lf_out fl) fs
          else if mode = ''decrypt'' then decrypt mc (lf_keypath fl) (lf_in fl) (lf_out fl) fs
          else Ret (fs, None))"

section \<open>Correctness\<close>

text \<open>What the command relies on: the decoder of JSON reads what the encoder wrote.\<close>

definition decodes_ciphertext :: "(string \<Rightarrow> string + EncodedCiphertext) \<Rightarrow> bool" where
  "decodes_ciphertext U \<longleftrightarrow>
     (\<forall>salt n isPass sealed. in_i64 n \<longrightarrow>
        U (json_MarshalIndent (encode_ciphertext salt n isPass sealed)) = Inr (encode_ciphertext salt n isPass sealed))"

lemma ReadKeyFromDisk_other: "path \<noteq> keypath \<Longrightarrow>
  ReadKeyFromDisk (secret_env (fs(path \<mapsto> c))) keypath = ReadKeyFromDisk (secret_env fs) keypath"
  by (simp add: ReadKeyFromDisk_def secret_env_def os_ReadFile_def)

lemma generateKey_other: "keypath = [] \<or> path \<noteq> keypath \<Longrightarrow>
  generateKey mc keypath salt n (fs(path \<mapsto> c)) = generateKey mc keypath salt n fs"
  by (auto simp: generateKey_def ReadKeyFromDisk_other)

text \<open>The key does not depend on salt and count when it comes from disk; else the file holds both.\<close>

lemma generateKey_again:
  assumes "generateKey mc keypath salt n fs = Inr (key, isPass)"
  shows "generateKey mc keypath (ec_KeySalt (encode_ciphertext salt n isPass e)) (ec_KeyIter (encode_ciphertext salt n isPass e)) fs = Inr (key, isPass)"
  using assms by (auto simp: generateKey_def encode_ciphertext_def map_sum_def Let_def split: if_splits sum.splits)

lemma Seal_Open:
  assumes "opens_sealed box" and "random_Bytes NonceLength = Inr nonce" and "length nonce = NonceLength"
  shows "\<exists>e. Secret_Seal env box random_Bytes m (Some k) = Ret (Inr e) \<and> (\<forall>env e'. NonceBytes e' = NonceBytes e \<and>
    CiphertextBytes e' = CiphertextBytes e \<longrightarrow> Secret_Open env box e' (Some k) = Ret (Inr m))"
  using assms
  by (simp add: Secret_Seal_def Secret_Open_def Secret_New_key Service_Seal_def Service_Open_def generateNonce_def
      nonceSliceToArray_def opens_sealed_def NonceBytes_def CiphertextBytes_def slice_bytes_def Let_def)

lemma encode_ciphertext_fields:
  "ec_CiphertextNonce (encode_ciphertext salt n isPass e) = NonceBytes e"
  "ec_Ciphertext (encode_ciphertext salt n isPass e) = CiphertextBytes e"
  by (simp_all add: encode_ciphertext_def Let_def)


text \<open>A decoder for exactly what the encoder writes: optional fields, and values that end before the comma.\<close>

definition parse_text :: "string \<Rightarrow> (string \<times> string) option" where
  "parse_text s =
     map_option (\<lambda>r. let text = takeWhile (\<lambda>c. c \<noteq> CHR 0x22) r in (text, drop (length text + 1) r)) (strip_prefix [CHR 0x22] s)"

definition parse_int :: "string \<Rightarrow> (int \<times> string) option" where
  "parse_int s = (let text = takeWhile (\<lambda>c. c \<noteq> CHR '','') s in map_option (\<lambda>n. (n, drop (length text) s)) (ParseInt text))"

definition parse_field :: "string \<Rightarrow> (string \<Rightarrow> ('v \<times> string) option) \<Rightarrow> 'v \<Rightarrow> string \<Rightarrow> ('v \<times> string) option" where
  "parse_field name parse d s =
     (case strip_prefix (json_key name) s of
        None \<Rightarrow> Some (d, s)
      | Some r \<Rightarrow> Option.bind (parse r) (\<lambda>(v, r'). Some (v, drop (length comma_line) r')))"

definition parse_string :: "string \<Rightarrow> (string \<times> string) option" where
  "parse_string s = map_option (\<lambda>(b, r). (slice_bytes b, r)) (parse_bytes s)"

definition canonical_ciphertext :: "string \<Rightarrow> string + EncodedCiphertext" where
  "canonical_ciphertext s =
     (case
        Option.bind (parse_field ''key_salt'' parse_string [] (drop 2 s)) (\<lambda>(salt, r1).
        Option.bind (parse_field ''key_iter_count'' parse_int 0 r1) (\<lambda>(n, r2).
        Option.bind (parse_field ''key_algorithm'' parse_text [] r2) (\<lambda>(alg, r3).
        Option.bind (parse_field ''ciphertext_nonce'' parse_string [] r3) (\<lambda>(nonce, r4).
        Option.bind (parse_field ''ciphertext'' parse_string [] r4) (\<lambda>(c, r5).
        Option.bind (parse_field ''cipher_algorithm'' parse_text [] r5) (\<lambda>(calg, _).
        Some \<lparr>ec_KeySalt = salt, ec_KeyIter = n, ec_KeyAlgorithm = alg, ec_CiphertextNonce = nonce,
              ec_Ciphertext = c, ec_CipherAlgorithm = calg\<rparr>)))))) of
        None \<Rightarrow> Inl ''syntax''
      | Some ec \<Rightarrow> Inr ec)"

lemma parse_field_here:
  "parse (t @ comma_line @ r) = Some (v, comma_line @ r) \<Longrightarrow> parse_field name parse d (json_key name @ t @ comma_line @ r) = Some (v, r)"
  by (simp add: parse_field_def)

lemma json_key_differs:
  assumes "CHR 0x22 \<notin> set a" "CHR 0x22 \<notin> set b" "a \<noteq> b"
  shows "strip_prefix (json_key a) (json_key b @ r) = None"
proof -
  have "json_key a @ s \<noteq> json_key b @ r" for s
  proof
    assume "json_key a @ s = json_key b @ r"
    then have "a @ CHR 0x22 # '': '' @ s = b @ CHR 0x22 # '': '' @ r" by (simp add: json_key_def json_string_def)
    then show False using assms append_sep_eq [OF assms(1,2)] by simp
  qed
  then show ?thesis by (metis append_take_drop_id strip_prefix_def)
qed

lemma parse_field_absent:
  "CHR 0x22 \<notin> set a \<Longrightarrow> CHR 0x22 \<notin> set b \<Longrightarrow> a \<noteq> b \<Longrightarrow> parse_field a parse d (json_key b @ r) = Some (d, json_key b @ r)"
  by (simp add: parse_field_def json_key_differs)

lemma parse_string_bytes: "parse_string (json_bytes (Some b) @ r) = Some (b, r)"
  by (simp add: parse_string_def parse_json_bytes slice_bytes_def)

lemma parse_text_string:
  assumes "CHR 0x22 \<notin> set t"
  shows "parse_text (json_string t @ r) = Some (t, r)"
proof -
  have "takeWhile (\<lambda>c. c \<noteq> CHR 0x22) (t @ CHR 0x22 # r) = t" using assms by (subst takeWhile_append2) auto
  then show ?thesis using strip_prefix_append [of "[CHR 0x22]" "t @ CHR 0x22 # r"] by (simp add: parse_text_def json_string_def Let_def)
qed

lemma FormatInt_no_comma: "CHR '','' \<notin> set (FormatInt n)"
proof -
  have "digit_val CHR '','' = None" by (simp add: digit_val_def)
  then have "CHR '','' \<notin> set (nat_digits m)" for m using nat_digits_chars [of "CHR '',''" m] digit_val_char by force
  then show ?thesis by (simp add: FormatInt_def)
qed

lemma parse_int_FormatInt:
  assumes "in_i64 n"
  shows "parse_int (FormatInt n @ comma_line @ r) = Some (n, comma_line @ r)"
proof -
  have "takeWhile (\<lambda>c. c \<noteq> CHR '','') (FormatInt n @ CHR '','' # CHR 10 # r) = FormatInt n"
    using FormatInt_no_comma by (subst takeWhile_append2) auto
  then show ?thesis using ParseInt_FormatInt [OF assms] by (simp add: parse_int_def comma_line_def Let_def)
qed

lemma canonical_ciphertext_decodes: "decodes_ciphertext canonical_ciphertext"
proof -
  have "canonical_ciphertext (json_MarshalIndent (encode_ciphertext salt n isPass e)) = Inr (encode_ciphertext salt n isPass e)"
    if n: "in_i64 n" for salt n isPass e
  proof -
    let ?ec = "encode_ciphertext salt n isPass e"
    define rest6 where "rest6 = json_key ''cipher_algorithm'' @ json_string ''salsa20_poly1305'' @ [CHR 10] @ ''}''"
    define rest5 where "rest5 = json_key ''ciphertext'' @ json_bytes (Some (ec_Ciphertext ?ec)) @ comma_line @ rest6"
    define rest4 where "rest4 = json_key ''ciphertext_nonce'' @ json_bytes (Some (ec_CiphertextNonce ?ec)) @ comma_line @ rest5"
    define rest3 where "rest3 = (if ec_KeyAlgorithm ?ec \<noteq> [] then json_key ''key_algorithm'' @ json_string (ec_KeyAlgorithm ?ec) @ comma_line else []) @ rest4"
    define rest2 where "rest2 = (if ec_KeyIter ?ec \<noteq> 0 then json_key ''key_iter_count'' @ FormatInt (ec_KeyIter ?ec) @ comma_line else []) @ rest3"
    define rest1 where "rest1 = (if ec_KeySalt ?ec \<noteq> [] then json_key ''key_salt'' @ json_bytes (Some (ec_KeySalt ?ec)) @ comma_line else []) @ rest2"
    have alg: "ec_KeyAlgorithm ?ec = [] \<or> ec_KeyAlgorithm ?ec = ''pbkdf#2''" and calg: "ec_CipherAlgorithm ?ec = ''salsa20_poly1305''"
      and it: "in_i64 (ec_KeyIter ?ec)"
      using n by (auto simp: encode_ciphertext_def Let_def in_i64_def)
    have all: "drop 2 (json_MarshalIndent ?ec) = rest1"
      by (simp add: json_MarshalIndent_def rest1_def rest2_def rest3_def rest4_def rest5_def rest6_def calg)
    have p6: "parse_field ''cipher_algorithm'' parse_text [] rest6 = Some (''salsa20_poly1305'', [])"
      unfolding rest6_def by (simp add: parse_field_def parse_text_string comma_line_def)
    have p5: "parse_field ''ciphertext'' parse_string [] rest5 = Some (ec_Ciphertext ?ec, rest6)"
      unfolding rest5_def by (intro parse_field_here parse_string_bytes)
    have p4: "parse_field ''ciphertext_nonce'' parse_string [] rest4 = Some (ec_CiphertextNonce ?ec, rest5)"
      unfolding rest4_def by (intro parse_field_here parse_string_bytes)
    have p3: "parse_field ''key_algorithm'' parse_text [] rest3 = Some (ec_KeyAlgorithm ?ec, rest4)"
      using alg parse_text_string by (auto simp: rest3_def rest4_def intro!: parse_field_here parse_field_absent)
    have p2: "parse_field ''key_iter_count'' parse_int 0 rest2 = Some (ec_KeyIter ?ec, rest3)"
      using parse_int_FormatInt [OF it]
      by (auto simp: rest2_def rest3_def rest4_def intro!: parse_field_here parse_field_absent)
    have p1: "parse_field ''key_salt'' parse_string [] rest1 = Some (ec_KeySalt ?ec, rest2)"
      using parse_string_bytes
      by (auto simp: rest1_def rest2_def rest3_def rest4_def intro!: parse_field_here parse_field_absent)
    show ?thesis unfolding canonical_ciphertext_def all p1 p2 p3 p4 p5 p6 Option.bind.simps prod.case
      using calg by simp
  qed
  then show ?thesis by (simp add: decodes_ciphertext_def)
qed

definition ex_machine :: machine where
  "ex_machine = \<lparr>mc_box = plain_box, mc_salt = FakeRNG_Bytes, mc_random = FakeRNG_Bytes, mc_passphrase = ''pass'',
     mc_pbkdf2 = (\<lambda>p salt n len. take len (p @ salt @ replicate len (CHR ''k''))), mc_Unmarshal = canonical_ciphertext,
     mc_WriteError = (\<lambda>_. None)\<rparr>"


end
