(* ===== verification/Utilities.thy ===== *)
theory Utilities
  imports Go_Strings
begin

text \<open>
  The small packages: membership in slices (\<^verbatim>\<open>slice/string.go\<close>), log fields and environment variables (\<^verbatim>\<open>misc.go\<close>), and the
  classification of user agents (\<^verbatim>\<open>useragent/useragent.go\<close>). What the two third-party parsers of user agents say
  is an input, and so are the fields that \<^verbatim>\<open>structs.Map\<close> finds in a struct.
\<close>

section \<open>Slices and environment\<close>

fun ContainsString :: "string \<Rightarrow> string list \<Rightarrow> (string \<Rightarrow> string) option \<Rightarrow> bool" where
  "ContainsString s [] modifier = False"
| "ContainsString s (item # items) modifier =
     (if item = s then True
      else case modifier of
             None \<Rightarrow> ContainsString s items modifier
           | Some f \<Rightarrow> if f item = s then True else ContainsString s items modifier)"

definition GetEnv :: "(string \<Rightarrow> string) \<Rightarrow> string \<Rightarrow> string \<Rightarrow> string" where
  "GetEnv Getenv envName defaultValue = (let v = Getenv envName in if v = [] then defaultValue else v)"

lemma ContainsString_iff:
  "ContainsString s items modifier \<longleftrightarrow> (\<exists>item \<in> set items. item = s \<or> (\<exists>f. modifier = Some f \<and> f item = s))"
  by (induction items) (auto split: option.splits)

section \<open>Log fields\<close>

text \<open>
  A value by its kind; a struct with the fields that \<^verbatim>\<open>structs.Map\<close> gives for it, a \<^verbatim>\<open>map[string]interface{}\<close>, a map of another
  type, a function with its printed form, the result of \<^verbatim>\<open>ToFields\<close>, and any other value.
\<close>

datatype field_value =
    StructValue "(string \<times> field_value) list"
  | MapValue "(string \<times> field_value) list"
  | OtherMap string
  | FuncValue string
  | FieldsValue "(string \<times> field_value) list"
  | PlainValue string

text \<open>The keys of a map are strings here, so that the conversion of other keys does not occur.\<close>

fun ToFields :: "field_value \<Rightarrow> field_value go"
and ToFields_entries :: "(string \<times> field_value) list \<Rightarrow> (string \<times> field_value) list go" where
  "ToFields (StructValue hash) = go_bind (ToFields_entries hash) (\<lambda>r. Ret (FieldsValue r))"
| "ToFields (MapValue hash) = go_bind (ToFields_entries hash) (\<lambda>r. Ret (FieldsValue r))"
| "ToFields (OtherMap t) = Panic (UserPanic ''ToFields(): map kind must be of type map[string]interface{}'')"
| "ToFields (FieldsValue hash) = Panic (UserPanic ''ToFields(): map kind must be of type map[string]interface{}'')"
| "ToFields v = Panic (UserPanic ''ToFields(): value must be of kind struct or map'')"
| "ToFields_entries [] = Ret []"
| "ToFields_entries ((key, v) # rest) =
     go_bind (case v of
                FuncValue printed \<Rightarrow> Ret (PlainValue printed)
              | PlainValue p \<Rightarrow> Ret (PlainValue p)
              | _ \<Rightarrow> ToFields v)
       (\<lambda>v'. go_bind (ToFields_entries rest) (\<lambda>rest'. Ret ((key, v') # rest')))"

text \<open>No functions, structs or maps are left: nothing but values of other kinds and fields, at any depth.\<close>

fun loggable :: "field_value \<Rightarrow> bool" where
  "loggable (PlainValue p) = True"
| "loggable (FieldsValue entries) = (\<forall>(k, v) \<in> set entries. loggable v)"
| "loggable v = False"

text \<open>A struct or map whose nested maps are all of the right type.\<close>

fun convertible :: "field_value \<Rightarrow> bool" where
  "convertible (StructValue entries) = (\<forall>(k, v) \<in> set entries. (case v of FuncValue _ \<Rightarrow> True | PlainValue _ \<Rightarrow> True | _ \<Rightarrow> convertible v))"
| "convertible (MapValue entries) = (\<forall>(k, v) \<in> set entries. (case v of FuncValue _ \<Rightarrow> True | PlainValue _ \<Rightarrow> True | _ \<Rightarrow> convertible v))"
| "convertible v = False"

text \<open>What the entries of a result are.\<close>

definition entries_ok :: "(string \<times> field_value) list \<Rightarrow> (string \<times> field_value) list go \<Rightarrow> bool" where
  "entries_ok hash r \<longleftrightarrow>
     (if \<forall>(k, v) \<in> set hash. (case v of FuncValue _ \<Rightarrow> True | PlainValue _ \<Rightarrow> True | _ \<Rightarrow> convertible v)
      then \<exists>es. r = Ret es \<and> map fst es = map fst hash \<and> (\<forall>(k, v) \<in> set es. loggable v)
      else \<exists>p. r = Panic p)"

definition value_ok :: "field_value \<Rightarrow> field_value go \<Rightarrow> bool" where
  "value_ok v r \<longleftrightarrow> (if convertible v then \<exists>w. r = Ret w \<and> loggable w else \<exists>p. r = Panic p)"

lemma ToFields_ok: "value_ok v (ToFields v)" and ToFields_entries_ok: "entries_ok hash (ToFields_entries hash)"
proof (induction v and hash rule: ToFields_ToFields_entries.induct)
  case (1 hash)
  then show ?case by (auto simp: value_ok_def entries_ok_def split: if_splits)
next
  case (2 hash)
  then show ?case by (auto simp: value_ok_def entries_ok_def split: if_splits)
next
  case (7 key v rest)
  let ?good = "case v of FuncValue _ \<Rightarrow> True | PlainValue _ \<Rightarrow> True | _ \<Rightarrow> convertible v"
  let ?r = "case v of FuncValue printed \<Rightarrow> Ret (PlainValue printed) | PlainValue p \<Rightarrow> Ret (PlainValue p) | _ \<Rightarrow> ToFields v"
  have "if ?good then \<exists>w. ?r = Ret w \<and> loggable w else \<exists>p. ?r = Panic p"
    using 7 by (cases v) (simp_all add: value_ok_def)
  moreover have "entries_ok rest (ToFields_entries rest)" using 7 by simp
  ultimately show ?case unfolding entries_ok_def by (cases ?good) (fastforce split: if_splits)+
qed (auto simp: value_ok_def entries_ok_def)



section \<open>User agents\<close>

datatype surfer_device = SurferUnknown | SurferComputer | SurferTablet | SurferPhone | SurferConsole | SurferWearable | SurferTV | SurferOther

text \<open>What \<^verbatim>\<open>uasurfer\<close> finds; whether the name of the browser lies between those of the bots depends on its constants.\<close>

record surfer_agent =
  sa_DeviceType :: surfer_device
  sa_PlatformBot :: bool
  sa_OSBot :: bool
  sa_BrowserBot :: bool

text \<open>What \<^verbatim>\<open>uaparser\<close> finds: the families of the client and of the operating system.\<close>

record uap_client =
  uc_Family :: string
  uc_OsFamily :: string

record ClientInfo =
  ci_UserAgent :: string
  ci_DeviceType :: string
  ci_ClientName :: string
  ci_ClientOS :: string
  ci_ClientType :: string

definition EmailClients :: "string list" where
  "EmailClients = [''Windows Live Mail'', ''Outlook'', ''Apple Mail'', ''Thunderbird'', ''Lotus Notes'', ''Postbox'', ''Sparrow'', ''PocoMail'']"

fun isEmailClient_loop :: "string list \<Rightarrow> string \<Rightarrow> bool" where
  "isEmailClient_loop [] name = False"
| "isEmailClient_loop (a # as) name = (if a = name then True else isEmailClient_loop as name)"

definition isEmailClient :: "string \<Rightarrow> bool" where
  "isEmailClient name = isEmailClient_loop EmailClients name"

definition getDeviceType :: "surfer_device \<Rightarrow> string" where
  "getDeviceType d =
     (case d of
        SurferUnknown \<Rightarrow> ''unknown'' | SurferComputer \<Rightarrow> ''desktop'' | SurferTablet \<Rightarrow> ''tablet'' | SurferPhone \<Rightarrow> ''mobile''
      | SurferConsole \<Rightarrow> ''other'' | SurferWearable \<Rightarrow> ''other'' | SurferTV \<Rightarrow> ''other''
      | SurferOther \<Rightarrow> ''unknown'')"

text \<open>\<^verbatim>\<open>strings.Contains\<close>\<close>

fun strings_Contains :: "string \<Rightarrow> string \<Rightarrow> bool" where
  "strings_Contains s sub = (take (length sub) s = sub \<or> (case s of [] \<Rightarrow> False | _ # s' \<Rightarrow> strings_Contains s' sub))"

declare strings_Contains.simps [simp del]

definition getClientType :: "uap_client \<Rightarrow> surfer_agent \<Rightarrow> string" where
  "getClientType uapUA surferUA =
     (let clientName = uc_Family uapUA
      in if isEmailClient clientName then ''email client''
         else if strings_Contains clientName ''Mobi'' \<or> sa_DeviceType surferUA = SurferPhone then ''mobile browser''
         else if sa_PlatformBot surferUA \<or> sa_OSBot surferUA then ''robot''
         else if sa_BrowserBot surferUA then ''robot''
         else if sa_DeviceType surferUA = SurferComputer \<or> sa_DeviceType surferUA = SurferTablet then ''browser''
         else ''unknown'')"

text \<open>
  \<^verbatim>\<open>Parse\<close>. The parser with its table of expressions is loaded at the first call and kept; \<open>uaparser_New\<close> is
  that load and \<open>surfer\<close> and \<open>uap\<close> are the parsers.
\<close>

definition Parse ::
  "(string \<Rightarrow> surfer_agent) \<Rightarrow> ('p \<Rightarrow> string \<Rightarrow> uap_client) \<Rightarrow> (string + 'p) \<Rightarrow> 'p option \<Rightarrow> string \<Rightarrow> 'p option \<times> (string + ClientInfo)" where
  "Parse surfer uap uaparser_New uasParser uagent =
     (case (case uasParser of Some p \<Rightarrow> Inr p | None \<Rightarrow> uaparser_New) of
        Inl err \<Rightarrow> (None, Inl (''Failed to init UA parser: '' @ err))
      | Inr p \<Rightarrow>
          let surferParsedAgent = surfer uagent; uapParsedAgent = uap p uagent;
              deviceType = getDeviceType (sa_DeviceType surferParsedAgent);
              clientName = (if uc_Family uapParsedAgent = ''Other'' then ''unknown'' else uc_Family uapParsedAgent);
              clientOs = (if uc_OsFamily uapParsedAgent = ''Other'' then ''unknown'' else uc_OsFamily uapParsedAgent);
              clientType = getClientType uapParsedAgent surferParsedAgent
          in (Some p, Inr \<lparr>ci_UserAgent = uagent, ci_DeviceType = (if clientType = ''robot'' then ''other'' else deviceType),
                ci_ClientName = clientName, ci_ClientOS = clientOs, ci_ClientType = clientType\<rparr>))"

section \<open>Classification\<close>

lemma isEmailClient_iff: "isEmailClient name \<longleftrightarrow> name \<in> set EmailClients"
proof -
  have "isEmailClient_loop as name \<longleftrightarrow> name \<in> set as" for as by (induction as) auto
  then show ?thesis by (simp add: isEmailClient_def)
qed

text \<open>
  A user agent is a robot only if a parser says so, it is then on no known device, and no mail client, phone or
  mobile browser is a robot; the parser loaded first is used ever after.
\<close>

lemma Parse_robot:
  assumes "Parse surfer uap new uasParser uagent = (p', Inr info)"
  shows "ci_ClientType info = ''robot'' \<longleftrightarrow>
      (\<exists>p. p' = Some p \<and> uc_Family (uap p uagent) \<notin> set EmailClients \<and> \<not> strings_Contains (uc_Family (uap p uagent)) ''Mobi'' \<and>
        sa_DeviceType (surfer uagent) \<noteq> SurferPhone \<and>
        (sa_PlatformBot (surfer uagent) \<or> sa_OSBot (surfer uagent) \<or> sa_BrowserBot (surfer uagent)))"
    and "ci_ClientType info = ''robot'' \<Longrightarrow> ci_DeviceType info = ''other''"
    and "uasParser \<noteq> None \<Longrightarrow> p' = uasParser"
  using assms by (auto simp: Parse_def getClientType_def isEmailClient_iff Let_def split: sum.splits option.splits if_splits)

end
