(* ===== verification/V3_Collections.thy ===== *)
theory V3_Collections
  imports Clock_Package TTL_Map Expire_Cache
begin

text \<open>
  \<^verbatim>\<open>v3/collections\<close>: the code of the collections is that of the root package, except that the clock is read by \<^verbatim>\<open>clock.Now()\<close> of
  the clock package, which a test may have frozen. A reading is the system's time and the state of the clock package at
  that moment; an operation with several readings takes several, since other goroutines may move the clock in between.
\<close>

section \<open>Operations\<close>

type_synonym moment = "time \<times> clock_package"

definition clock_at :: "moment \<Rightarrow> time" where
  "clock_at r = (case r of (system, ck) \<Rightarrow> clock_Now system ck)"

definition v3_TTLMap_toEpochSeconds :: "moment \<Rightarrow> int \<Rightarrow> ttl_error + int" where
  "v3_TTLMap_toEpochSeconds r ttlSeconds = TTLMap_toEpochSeconds (clock_at r) ttlSeconds"

definition v3_TTLMap_RemoveExpired :: "moment \<Rightarrow> TTLMap \<Rightarrow> int \<Rightarrow> (TTLMap \<times> nat) go" where
  "v3_TTLMap_RemoveExpired r m iterations = TTLMap_RemoveExpired (clock_at r) m iterations"

definition v3_TTLMap_set :: "moment \<Rightarrow> TTLMap \<Rightarrow> string \<Rightarrow> iface \<Rightarrow> int \<Rightarrow> TTLMap go" where
  "v3_TTLMap_set r m key value expiryTime = TTLMap_set (clock_at r) m key value expiryTime"

definition v3_TTLMap_Set :: "moment \<Rightarrow> moment \<Rightarrow> TTLMap \<Rightarrow> string \<Rightarrow> iface \<Rightarrow> int \<Rightarrow> (TTLMap \<times> ttl_error option) go" where
  "v3_TTLMap_Set r1 r2 m key value ttlSeconds =
     (case v3_TTLMap_toEpochSeconds r1 ttlSeconds of
        Inl err \<Rightarrow> Ret (m, Some err)
      | Inr expiryTime \<Rightarrow> go_bind (v3_TTLMap_set r2 m key value expiryTime) (\<lambda>m'. Ret (m', None)))"

definition v3_TTLMap_get :: "moment \<Rightarrow> TTLMap \<Rightarrow> string \<Rightarrow> (addr \<times> bool) option" where
  "v3_TTLMap_get r m key = TTLMap_get (clock_at r) m key"

definition v3_TTLMap_lockNGet :: "moment \<Rightarrow> TTLMap \<Rightarrow> string \<Rightarrow> iface \<times> addr option \<times> bool" where
  "v3_TTLMap_lockNGet r m key =
     (case v3_TTLMap_get r m key of
        None \<Rightarrow> (INil, None, False)
      | Some (a, expired) \<Rightarrow> (el_value (ttl_els m a), Some a, expired))"

definition v3_TTLMap_lockNDel :: "moment \<Rightarrow> TTLMap \<Rightarrow> addr \<Rightarrow> TTLMap go" where
  "v3_TTLMap_lockNDel r m mapEl = TTLMap_lockNDel (clock_at r) m mapEl"

definition v3_TTLMap_Get :: "moment \<Rightarrow> moment \<Rightarrow> TTLMap \<Rightarrow> string \<Rightarrow> (TTLMap \<times> iface option) go" where
  "v3_TTLMap_Get r1 r2 m key =
     (case v3_TTLMap_lockNGet r1 m key of
        (value, None, _) \<Rightarrow> Ret (m, None)
      | (value, Some a, expired) \<Rightarrow>
          if expired then go_bind (v3_TTLMap_lockNDel r2 m a) (\<lambda>m'. Ret (m', None)) else Ret (m, Some value))"

definition v3_TTLMap_Increment ::
  "moment \<Rightarrow> moment \<Rightarrow> moment \<Rightarrow> TTLMap \<Rightarrow> string \<Rightarrow> int \<Rightarrow> int \<Rightarrow> (TTLMap \<times> (ttl_error + int)) go" where
  "v3_TTLMap_Increment r1 r2 r3 m key value ttlSeconds =
     (case v3_TTLMap_toEpochSeconds r1 ttlSeconds of
        Inl err \<Rightarrow> Ret (m, Inl err)
      | Inr expiryTime \<Rightarrow>
          (case v3_TTLMap_get r2 m key of
             None \<Rightarrow> go_bind (v3_TTLMap_set r3 m key (IInt value) expiryTime) (\<lambda>m'. Ret (m', Inr value))
           | Some (a, True) \<Rightarrow> go_bind (v3_TTLMap_set r3 m key (IInt value) expiryTime) (\<lambda>m'. Ret (m', Inr value))
           | Some (a, False) \<Rightarrow>
               (case el_value (ttl_els m a) of
                  IInt currentValue \<Rightarrow>
                    let v = i64 (currentValue + value)
                    in go_bind (v3_TTLMap_set r3 m key (IInt v) expiryTime) (\<lambda>m'. Ret (m', Inr v))
                | other \<Rightarrow> Ret (m, Inl (NotIntegerError (type_name other))))))"

definition v3_TTLMap_GetInt :: "moment \<Rightarrow> moment \<Rightarrow> TTLMap \<Rightarrow> string \<Rightarrow> (TTLMap \<times> (ttl_error + int option)) go" where
  "v3_TTLMap_GetInt r1 r2 m key =
     go_bind (v3_TTLMap_Get r1 r2 m key) (\<lambda>(m', valueI).
       Ret (m', case valueI of
                  None \<Rightarrow> Inr None
                | Some (IInt value) \<Rightarrow> Inr (Some value)
                | Some other \<Rightarrow> Inl (NotIntegerError (type_name other))))"

definition v3_LRUCache_AddWithTTL :: "moment \<Rightarrow> 'k LRUCache \<Rightarrow> 'k \<Rightarrow> iface \<Rightarrow> duration \<Rightarrow> 'k LRUCache \<times> bool" where
  "v3_LRUCache_AddWithTTL r c key value TTL =
     addRecord c \<lparr>rec_key = key, rec_value = value, rec_expireAt = Some (time_Add (clock_at r) TTL)\<rparr>"

definition v3_LRUCache_Get :: "moment \<Rightarrow> 'k LRUCache \<Rightarrow> 'k \<Rightarrow> 'k LRUCache \<times> iface option" where
  "v3_LRUCache_Get r c key =
     (case map_of (lru_cache c) key of
        Some ele \<Rightarrow>
          if record_expired (clock_at r) (lru_recs c ele) then
            (let c' = removeElement c ele in (c'\<lparr>lru_stats := stats_miss (lru_stats c')\<rparr>, None))
          else
            (c\<lparr>lru_stats := stats_hit (lru_stats c), lru_ll := list_MoveToFront ele (lru_ll c)\<rparr>,
             Some (rec_value (lru_recs c ele)))
      | None \<Rightarrow> (c\<lparr>lru_stats := stats_miss (lru_stats c)\<rparr>, None))"

definition v3_ExpireCache_Get :: "moment \<Rightarrow> 'k ExpireCache \<Rightarrow> 'k \<Rightarrow> 'k ExpireCache \<times> iface option" where
  "v3_ExpireCache_Get r c key = ExpireCache_Get (clock_at r) c key"

definition v3_ExpireCache_Add :: "moment \<Rightarrow> 'k ExpireCache \<Rightarrow> 'k \<Rightarrow> iface \<Rightarrow> 'k ExpireCache" where
  "v3_ExpireCache_Add r c key value =
     c\<lparr>ec_recs := (ec_recs c)(ec_next c := \<lparr>er_Value = value, er_ExpireAt = time_Add (clock_at r) (ec_ttl c)\<rparr>),
       ec_next := Suc (ec_next c), ec_cache := AList.update key (ec_next c) (ec_cache c)\<rparr>"

definition v3_ExpireCache_Each ::
  "('k \<Rightarrow> iface \<Rightarrow> 'e option) \<Rightarrow> moment \<Rightarrow> 'k ExpireCache \<Rightarrow> 'k ExpireCache \<times> ('k, 'e) each_error list" where
  "v3_ExpireCache_Each callBack r c = each_tasks callBack (clock_at r) (ExpireCache_Keys c) c"

section \<open>As in the root package\<close>

lemma v3_ops:
  "v3_TTLMap_Set r1 r2 m key v s = TTLMap_Set (clock_at r1) (clock_at r2) m key v s"
  "v3_TTLMap_Get r1 r2 m key = TTLMap_Get (clock_at r1) (clock_at r2) m key"
  "v3_TTLMap_Increment r1 r2 r3 m key i s = TTLMap_Increment (clock_at r1) (clock_at r2) (clock_at r3) m key i s"
  "v3_TTLMap_GetInt r1 r2 m key = TTLMap_GetInt (clock_at r1) (clock_at r2) m key"
  "v3_LRUCache_AddWithTTL r c k v d = LRUCache_AddWithTTL (clock_at r) c k v d"
  "v3_LRUCache_Get r c k = LRUCache_Get (clock_at r) c k"
  "v3_ExpireCache_Add r ec k v = ExpireCache_Add (clock_at r) ec k v"
  "v3_ExpireCache_Each cb r ec = ExpireCache_Each cb (clock_at r) ec"
proof -
  show get: "v3_TTLMap_Get r1 r2 m key = TTLMap_Get (clock_at r1) (clock_at r2) m key"
    unfolding v3_TTLMap_Get_def TTLMap_Get_def v3_TTLMap_lockNGet_def TTLMap_lockNGet_def v3_TTLMap_get_def v3_TTLMap_lockNDel_def ..
  show "v3_TTLMap_GetInt r1 r2 m key = TTLMap_GetInt (clock_at r1) (clock_at r2) m key"
    unfolding v3_TTLMap_GetInt_def TTLMap_GetInt_def get ..
qed (unfold v3_TTLMap_Set_def TTLMap_Set_def v3_TTLMap_toEpochSeconds_def v3_TTLMap_set_def v3_TTLMap_Increment_def
    TTLMap_Increment_def v3_TTLMap_get_def v3_LRUCache_AddWithTTL_def LRUCache_AddWithTTL_def v3_LRUCache_Get_def LRUCache_Get_def
    v3_ExpireCache_Add_def ExpireCache_Add_def v3_ExpireCache_Each_def ExpireCache_Each_def, (rule refl)+)

section \<open>On a frozen clock\<close>

text \<open>
  What the three collections have in common: an entry is stored at one time and, looked up at another, found unless
  its life is over by then.
\<close>

locale expiring_store =
  fixes put :: "time \<Rightarrow> 's \<Rightarrow> 's"
    and fetch :: "time \<Rightarrow> 's \<Rightarrow> iface option"
    and ready :: "'s \<Rightarrow> bool"
    and over :: "time \<Rightarrow> time \<Rightarrow> bool"
    and v :: iface
  assumes fetch_put: "ready s \<Longrightarrow> fetch t' (put t s) = (if over t t' then None else Some v)"
begin

lemma frozen_fetch:
  assumes "inert fs" and "\<forall>x \<in> set (running_sums 0 ds). in_i64 x"
    and "clock_advances fs ds (clock_Freeze ck now) = Some (Ret (ck', rs))" and "ready s"
  shows "fetch (clock_at (sys', ck')) (put (clock_at (sys, clock_Freeze ck now)) s) =
    (if over now (now + sum_list ds) then None else Some v)"
proof -
  have "clock_at (sys', ck') = now + sum_list ds"
    using clock_Advance_elapsed [OF assms(1,2), of ck now sys'] assms(3) by (auto simp: clock_at_def)
  moreover have "clock_at (sys, clock_Freeze ck now) = now" by (simp add: clock_at_def clock_Now_def clock_Freeze_def Freeze_def)
  ultimately show ?thesis using fetch_put [OF assms(4)] by simp
qed

end

text \<open>The TTL map; the result of \<^verbatim>\<open>Set\<close> and \<^verbatim>\<open>Get\<close> when they return.\<close>

definition ttl_put :: "time \<Rightarrow> string \<Rightarrow> iface \<Rightarrow> int \<Rightarrow> time \<Rightarrow> TTLMap \<Rightarrow> TTLMap" where
  "ttl_put t2 key v s t m = (case TTLMap_Set t t2 m key v s of Ret (m', _) \<Rightarrow> m' | Panic _ \<Rightarrow> m)"

definition ttl_fetch :: "time \<Rightarrow> string \<Rightarrow> time \<Rightarrow> TTLMap \<Rightarrow> iface option" where
  "ttl_fetch t2 key t m = (case TTLMap_Get t t2 m key of Ret (_, r) \<Rightarrow> r | Panic _ \<Rightarrow> None)"

lemma ttl_put_fetch:
  assumes "ttl_inv m" and "0 < s" and "s \<le> 9223372036"
  shows "TTLMap_Set t t2 m key v s = Ret (ttl_put t2 key v s t m, None)"
    and "ttl_inv (ttl_put t2 key v s t m)"
    and "ttl_fetch t4 key t' (ttl_put t2 key v s t m) = (if time_Unix t + s \<le> time_Unix t' then None else Some v)"
proof -
  obtain m1 where m1: "TTLMap_Set t t2 m key v s = Ret (m1, None)" "ttl_inv m1" "ttl_abs m1 key = Some (v, time_Unix t + s)"
    using ttls.put_law [OF assms, of t t2 key v] by (auto dest: ttl_stored_at)
  have put: "ttl_put t2 key v s t m = m1" by (simp add: ttl_put_def m1(1))
  show "TTLMap_Set t t2 m key v s = Ret (ttl_put t2 key v s t m, None)" "ttl_inv (ttl_put t2 key v s t m)"
    by (simp_all add: put m1)
  show "ttl_fetch t4 key t' (ttl_put t2 key v s t m) = (if time_Unix t + s \<le> time_Unix t' then None else Some v)"
    using ttls.fetch_law [OF m1(2), of t' t4 key] m1(3) by (auto simp: put ttl_fetch_def ttl_live_def)
qed

interpretation ttl_clock: expiring_store "ttl_put t2 key v s" "ttl_fetch t4 key" "\<lambda>m. ttl_inv m \<and> 0 < s \<and> s \<le> 9223372036"
    "\<lambda>t t'. time_Unix t + s \<le> time_Unix t'" v for t2 key v s t4
  by unfold_locales (rule ttl_put_fetch(3), auto)

lemma lru_find_added:
  assumes "lru_wf c" and "0 \<le> lru_MaxEntries c"
  shows "map_option (lru_recs (fst (addRecord c r))) (map_of (lru_cache (fst (addRecord c r))) (rec_key r)) = Some r"
proof -
  obtain c' b where add: "addRecord c r = (c', b)" by (cases "addRecord c r")
  have c': "lru_wf c'" "lru_abs c' = fst (spec_add (lru_MaxEntries c) r (lru_abs c))"
    using addRecord_refines [OF assms(1), of r] add by (auto simp: lru_refines_def split: prod.splits)
  have "lru_kept {} (rec_key r) r (lru_abs c')" using spec_add_front [OF assms(2) lru_abs_keys [OF assms(1)], of r] c'(2) by simp
  then have "lru_find (rec_key r) (lru_abs c') = Some r" by (rule lru_kept_find)
  then show ?thesis using lru_find_abs [OF c'(1)] add by simp
qed

interpretation lru_clock: expiring_store "\<lambda>t c. fst (LRUCache_AddWithTTL t c key v d)" "\<lambda>t c. snd (LRUCache_Get t c key)"
    "\<lambda>c. lru_wf c \<and> 0 \<le> lru_MaxEntries c" "\<lambda>t t'. t + d < t'" v for key v d
proof
  fix c :: "'a LRUCache" and t t'
  let ?r = "\<lparr>rec_key = key, rec_value = v, rec_expireAt = Some (time_Add t d)\<rparr>"
  assume "lru_wf c \<and> 0 \<le> lru_MaxEntries c"
  then show "snd (LRUCache_Get t' (fst (LRUCache_AddWithTTL t c key v d)) key) = (if t + d < t' then None else Some v)"
    using lru_find_added [of c ?r]
    by (auto simp: LRUCache_AddWithTTL_def LRUCache_Get_def record_expired_def time_Before_def time_Add_def Let_def)
qed

interpretation expire_clock: expiring_store "\<lambda>t c. ExpireCache_Add t c key v" "\<lambda>t c. ExpireCache_Peek (fst (ExpireCache_Each cb t c)) key"
    "\<lambda>c. gomap_wf (ec_cache c) \<and> ec_ttl c = d \<and> cb key v = None" "\<lambda>t t'. t + d < t'" v for key v cb d
proof
  fix c :: "'a ExpireCache" and t t'
  assume c: "gomap_wf (ec_cache c) \<and> ec_ttl c = d \<and> cb key v = None"
  let ?c = "ExpireCache_Add t c key v"
  obtain c' errs where each: "ExpireCache_Each cb t' ?c = (c', errs)" by (cases "ExpireCache_Each cb t' ?c")
  have wf: "gomap_wf (ec_cache ?c)" using c by (simp add: ExpireCache_Add_def gomap_wf_def distinct_update)
  have "map_of (ec_cache ?c) key = Some (ec_next c)" "ec_recs ?c (ec_next c) = \<lparr>er_Value = v, er_ExpireAt = t + d\<rparr>"
    using c by (simp_all add: ExpireCache_Add_def update_conv' time_Add_def)
  then show "ExpireCache_Peek (fst (ExpireCache_Each cb t' ?c)) key = (if t + d < t' then None else Some v)"
    using ExpireCache_Each_exact [OF wf each] c each by (auto simp: ExpireCache_Peek_def)
qed

lemma lru_run_ready:
  assumes "0 \<le> k"
  shows "lru_wf (fst (lru_run ops (NewLRUCache store k))) \<and> 0 \<le> lru_MaxEntries (fst (lru_run ops (NewLRUCache store k)))"
proof -
  have n: "lru_wf (NewLRUCache store k)" "lru_MaxEntries (NewLRUCache store k) = k" by (simp_all add: lru_wf_def NewLRUCache_def)
  show ?thesis using lru_run_refines [OF n(1), of ops] n(2) assms by (auto simp: lru_refines_def split: prod.splits)
qed

text \<open>
  C26: on a clock that is frozen and moved by \<^verbatim>\<open>Advance\<close>, entries of the collections of version 3 live exactly as long as they
  should, whatever the system's time: after any history, a key set in the TTL map for \<open>s\<close> seconds is found until the
  clock has reached that second, one added to the LRU cache with a time to live is found until more than that time has
  been advanced, and one added to the expire cache is removed by \<^verbatim>\<open>Each\<close>, if its callback succeeds, once more
  than the time to live of the cache has been advanced.
\<close>

theorem V3_collections_frozen:
  fixes key :: string
  assumes "inert fs" and "\<forall>x \<in> set (running_sums 0 ds). in_i64 x"
    and "clock_advances fs ds (clock_Freeze ck now) = Some (Ret (ck', rs))"
    and "ttl_run ops (NewTTLMap n) = Ret m" and "0 < s" and "s \<le> 9223372036"
    and "c = fst (lru_run lops (NewLRUCache store k))" and "0 \<le> k"
    and "gomap_wf (ec_cache e)" and "cb key v = None"
    and before: "r = (sys, clock_Freeze ck now)" and after: "r' = (sys', ck')"
  shows "(\<exists>m1 m2. v3_TTLMap_Set r r m key v s = Ret (m1, None) \<and>
      v3_TTLMap_Get r' r' m1 key = Ret (m2, if time_Unix now + s \<le> time_Unix (now + sum_list ds) then None else Some v)) \<and>
    snd (v3_LRUCache_Get r' (fst (v3_LRUCache_AddWithTTL r c key v d)) key) = (if d < sum_list ds then None else Some v) \<and>
    ExpireCache_Peek (fst (v3_ExpireCache_Each cb r' (v3_ExpireCache_Add r e key v))) key =
      (if ec_ttl e < sum_list ds then None else Some v)"
proof (intro conjI)
  have inv: "ttl_inv m" using ttl_reachable [OF assms(4)] by simp
  let ?m1 = "ttl_put (clock_at r) key v s (clock_at r) m"
  note put = ttl_put_fetch(1,2) [OF inv assms(5,6), where t = "clock_at r" and ?t2.0 = "clock_at r" and key = key and v = v]
  obtain m2 where "TTLMap_Get (clock_at r') (clock_at r') ?m1 key = Ret (m2, ttl_fetch (clock_at r') key (clock_at r') ?m1)"
    using ttls.fetch_law [OF put(2), of "clock_at r'" "clock_at r'" key] by (auto simp: ttl_fetch_def)
  moreover have "ttl_fetch (clock_at r') key (clock_at r') ?m1 = (if time_Unix now + s \<le> time_Unix (now + sum_list ds) then None else Some v)"
    unfolding before after by (rule ttl_clock.frozen_fetch [OF assms(1-3)]) (use inv assms(5,6) in simp)
  ultimately show "\<exists>m1 m2. v3_TTLMap_Set r r m key v s = Ret (m1, None) \<and>
      v3_TTLMap_Get r' r' m1 key = Ret (m2, if time_Unix now + s \<le> time_Unix (now + sum_list ds) then None else Some v)"
    unfolding v3_ops using put(1) by auto
  have ready: "lru_wf c \<and> 0 \<le> lru_MaxEntries c" unfolding assms(7) by (rule lru_run_ready [OF assms(8)])
  show "snd (v3_LRUCache_Get r' (fst (v3_LRUCache_AddWithTTL r c key v d)) key) = (if d < sum_list ds then None else Some v)"
    unfolding v3_ops before after using lru_clock.frozen_fetch [OF assms(1-3) ready] by simp
  have "gomap_wf (ec_cache e) \<and> ec_ttl e = ec_ttl e \<and> cb key v = None" using assms(9,10) by simp
  then show "ExpireCache_Peek (fst (v3_ExpireCache_Each cb r' (v3_ExpireCache_Add r e key v))) key =
      (if ec_ttl e < sum_list ds then None else Some v)"
    unfolding v3_ops before after using expire_clock.frozen_fetch [OF assms(1-3)] by fastforce
qed

theorem V3_collections_frozen_witness:
  "\<exists>ck' m1 m2. clock_advances (\<lambda>_ ft. Ret ft) [Second, Second] (clock_Freeze clock_init 0) = Some (Ret (ck', [Second, 2 * Second])) \<and>
     v3_TTLMap_Set (7, clock_Freeze clock_init 0) (7, clock_Freeze clock_init 0) (NewTTLMap 5) ''a'' (IInt 1) 2 = Ret (m1, None) \<and>
     v3_TTLMap_Get (9, ck') (9, ck') m1 ''a'' = Ret (m2, None)"
proof -
  let ?fs = "\<lambda>_ ft. Ret ft" and ?ds = "[Second, Second]" and ?c = "NewLRUCache (\<lambda>_. \<lparr>rec_key = [], rec_value = INil, rec_expireAt = None\<rparr>) 3"
  have range: "\<forall>x \<in> set (running_sums 0 ?ds). in_i64 x" by (simp add: Second_def in_i64_def)
  obtain ck' where ck': "clock_advances ?fs ?ds (clock_Freeze clock_init 0) = Some (Ret (ck', [Second, 2 * Second]))"
    using clock_Advance_elapsed [OF inert_skip range, of clock_init 0 0] by auto
  have run: "ttl_run [] (NewTTLMap 5) = Ret (NewTTLMap 5)" "?c = fst (lru_run [] ?c)" by simp_all
  have "gomap_wf (ec_cache (NewExpireCache 1 :: string ExpireCache))" by (simp add: NewExpireCache_def gomap_wf_def)
  from V3_collections_frozen [OF inert_skip range ck' run(1) _ _ run(2) _ this, where cb = "\<lambda>_ _. None" and s = 2 and v = "IInt 1"
      and key = "''a''" and r = "(7, clock_Freeze clock_init 0)" and r' = "(9, ck')" and sys = 7 and sys' = 9 and d = 5]
  show ?thesis using ck' by (simp add: time_Unix_def Second_def) blast
qed

end
