(* ===== verification/Auth_Curl.thy ===== *)
theory Auth_Curl
  imports HTTP_Sign
begin

text \<open>
  \<^verbatim>\<open>cmd/auth-curl/main.go\<close>: the command that sends one signed GET request. The file system, the parser of URLs and the HTTP
  client are parameters, as are the clock and the random bytes of the signer.
\<close>

section \<open>The command line\<close>

text \<open>Package \<^verbatim>\<open>flag\<close> with one boolean flag, \<^verbatim>\<open>status\<close>: its value may follow an equals sign and is true without one.\<close>

definition ParseBool :: "string \<Rightarrow> bool option" where
  "ParseBool s =
     (if s \<in> {''1'', ''t'', ''T'', ''true'', ''TRUE'', ''True''} then Some True
      else if s \<in> {''0'', ''f'', ''F'', ''false'', ''FALSE'', ''False''} then Some False
      else None)"

fun curl_flags :: "string list \<Rightarrow> bool \<Rightarrow> string + bool \<times> string list" where
  "curl_flags [] status = Inr (status, [])"
| "curl_flags (s # args) status =
     (if length s < 2 \<or> hd s \<noteq> CHR ''-'' then Inr (status, s # args)
      else if s = ''--'' then Inr (status, args)
      else let name = (if s ! 1 = CHR ''-'' then drop 2 s else tl s)
           in if name = [] \<or> hd name = CHR ''-'' \<or> hd name = CHR ''='' then Inl (''bad flag syntax: '' @ s)
              else let flagname = takeWhile (\<lambda>c. c \<noteq> CHR ''='') name
                   in if flagname \<noteq> ''status'' then Inl (''flag provided but not defined: -'' @ flagname)
                      else if CHR ''='' \<in> set name then
                        (case ParseBool (drop (length flagname + 1) name) of
                           None \<Rightarrow> Inl (''invalid boolean value for -'' @ flagname)
                         | Some b \<Rightarrow> curl_flags args b)
                      else curl_flags args True)"

section \<open>The command\<close>

text \<open>
  What the command finds: \<^verbatim>\<open>os.Stat\<close>, the rest of the file system, the code of the signer with its clock and random
  bytes, the request URI of a URL or why it is none, and the answer to a request, its status and its body.
\<close>

record web =
  web_Stat :: "string \<Rightarrow> string option"
  web_env :: environment
  web_hmac :: "string \<Rightarrow> string \<Rightarrow> string"
  web_now :: time
  web_hexDigest :: "string + string"
  web_ParseURL :: "string \<Rightarrow> string + string"
  web_Do :: "request \<Rightarrow> string + string \<times> string"

record curl_outcome =
  co_sent :: "request list"
  co_out :: string
  co_exit :: int

definition curl_config :: "string \<Rightarrow> Config" where
  "curl_config keypath =
     \<lparr>cfg_KeyPath = keypath, cfg_KeyBytes = None, cfg_HeadersToSign = [], cfg_SignVerbAndURI = True,
      cfg_NonceCacheCapacity = 0, cfg_NonceCacheTimeout = 0, cfg_EmitStats = False, cfg_StatsdHost = [],
      cfg_StatsdPort = 0, cfg_StatsdPrefix = [], cfg_NonceHeaderName = [], cfg_TimestampHeaderName = [],
      cfg_SignatureHeaderName = [], cfg_SignatureVersionHeaderName = []\<rparr>"

definition get_request :: "string \<Rightarrow> request" where
  "get_request uri = \<lparr>req_Method = ''GET'', req_RequestURI = uri, req_Header = [], req_ContentLength = 0, req_Body = NoBody\<rparr>"

text \<open>Nothing was sent; \<^verbatim>\<open>checkErr\<close> and the usage message exit with 1, package \<^verbatim>\<open>flag\<close> with 2.\<close>

definition curl_fails :: "int \<Rightarrow> curl_outcome" where
  "curl_fails code = \<lparr>co_sent = [], co_out = [], co_exit = code\<rparr>"

definition curl_main :: "web \<Rightarrow> string list \<Rightarrow> curl_outcome go" where
  "curl_main w args =
     (case curl_flags (tl args) False of
        Inl err \<Rightarrow> Ret (curl_fails 2)
      | Inr (status, rest) \<Rightarrow>
          if length rest \<noteq> 2 then Ret (curl_fails 1)
          else if web_Stat w (rest ! 0) \<noteq> None then Ret (curl_fails 1)
          else go_bind (New (web_env w) (Some (curl_config (rest ! 0)))) (\<lambda>(_, res).
            case res of
              Inl err \<Rightarrow> Ret (curl_fails 1)
            | Inr svc \<Rightarrow>
                (case web_ParseURL w (rest ! 1) of
                   Inl err \<Rightarrow> Ret (curl_fails 1)
                 | Inr uri \<Rightarrow>
                     go_bind (SignRequest (web_hmac w) (web_now w) (web_hexDigest w) svc (get_request uri)) (\<lambda>(req, err).
                       if err \<noteq> None then Ret (curl_fails 1)
                       else case web_Do w req of
                              Inl err \<Rightarrow> Ret \<lparr>co_sent = [req], co_out = [], co_exit = 1\<rparr>
                            | Inr (st, body) \<Rightarrow>
                                Ret \<lparr>co_sent = [req], co_out = (if status then st @ [CHR 10] else []) @ body, co_exit = 0\<rparr>))))"

section \<open>What it sends is accepted\<close>

lemma curl_config_distinct: "headers_distinct (set_defaults (curl_config keypath))"
proof -
  have "signature_keys (set_defaults (curl_config keypath)) = signature_keys (set_defaults (curl_config []))"
    "cfg_HeadersToSign (set_defaults (curl_config keypath)) = []"
    by (simp_all add: signature_keys_def set_defaults_def curl_config_def)
  moreover have "distinct (signature_keys (set_defaults (curl_config [])))" by code_simp
  ultimately show ?thesis by (simp add: headers_distinct_def)
qed

lemma curl_service:
  assumes "New env (Some (curl_config keypath)) = Ret (c, Inr svc)"
  shows "svc_config svc = set_defaults (curl_config keypath)" "nc_cacheTTL (svc_nonceCache svc) = 100"
    "nc_inv (svc_nonceCache svc)" "ttl_abs (nc_cache (svc_nonceCache svc)) = Map.empty" "\<exists>key. svc_secretKey svc = Some key"
proof -
  have svc: "NewWithProviders env (Some (curl_config keypath)) = (c, Inr svc)" using assms by (simp add: New_def)
  show conf: "svc_config svc = set_defaults (curl_config keypath)" "nc_cacheTTL (svc_nonceCache svc) = 100"
    using svc by (auto simp: NewWithProviders_def Let_def NewNonceCache_def set_defaults_def curl_config_def CacheTimeout_def
        split: sum.splits option.splits if_splits)
  show "nc_inv (svc_nonceCache svc)" "ttl_abs (nc_cache (svc_nonceCache svc)) = Map.empty" "\<exists>key. svc_secretKey svc = Some key"
    using NewWithProviders_usable [where env = env and config = "curl_config keypath"] svc by (auto simp: curl_config_def)
qed


text \<open>An example.\<close>

definition ex_web :: web where
  "ex_web = \<lparr>web_Stat = (\<lambda>_. None), web_env = \<lparr>env_Hostname = Inl [], env_metrics = (\<lambda>_ _. None), env_ReadFile = (\<lambda>_. Inr ''k'')\<rparr>,
     web_hmac = (\<lambda>k m. CHR ''m'' # k @ m), web_now = 0, web_hexDigest = Inr ''ab'', web_ParseURL = Inr,
     web_Do = (\<lambda>r. Inr (''200 OK'', ''hello''))\<rparr>"

lemma ex_curl_runs: "\<exists>out. curl_main ex_web [''auth-curl'', ''-status'', ''key'', ''/x''] = Ret out \<and> co_exit out = 0"
  by (simp add: curl_main_def ex_web_def New_def NewWithProviders_def curl_config_def set_defaults_def metrics_client_def
      readKeyFromDisk_def SignRequest_def SignRequestWithKey_def get_request_def readBody_def Let_def)


end
