(* ===== verification/Root_Session.thy ===== *)
theory Root_Session
  imports Etcd_Session
begin

text \<open>
  \<^verbatim>\<open>etcdutil/session.go\<close>, the session of the root module. It differs from the one of \<^verbatim>\<open>v3\<close> in what it keeps (the
  configuration instead of the time to live), in the time to live that it asks etcd for, and in its back off counter,
  \<^verbatim>\<open>holster.BackOffCounter\<close>, which the repository does not hold: it is a parameter, of which nothing is assumed.
\<close>

section \<open>Session\<close>

text \<open>The counter's constructor and methods, with states of type \<open>'b\<close>.\<close>

record 'b back_off_code =
  boc_New :: "duration \<Rightarrow> duration \<Rightarrow> nat \<Rightarrow> 'b"
  boc_Next :: "'b \<Rightarrow> 'b \<times> duration"
  boc_Reset :: "'b \<Rightarrow> 'b"

text \<open>\<open>rss_told\<close> are the calls of the observer, \<open>rss_revoked\<close> the leases revoked, \<open>rss_asked\<close> the arguments of \<^verbatim>\<open>Grant\<close>.\<close>

record 'b RootSession =
  rss_keepAlive :: bool
  rss_lease :: "lease_id option"
  rss_backOff :: 'b
  rss_cancelled :: bool
  rss_conf_TTL :: int
  rss_timeout :: duration
  rss_lastKeepAlive :: time
  rss_isRunning :: bool
  rss_told :: "(lease_id \<times> string option) list"
  rss_revoked :: "lease_id list"
  rss_asked :: "int list"

definition root_tell :: "lease_id \<Rightarrow> string option \<Rightarrow> 'b RootSession \<Rightarrow> 'b RootSession" where
  "root_tell l err s = s\<lparr>rss_told := rss_told s @ [(l, err)]\<rparr>"

definition RootSession_run :: "time \<Rightarrow> 'b RootSession \<Rightarrow> 'b RootSession go" where
  "RootSession_run now s =
     (if rss_timeout s \<le> 0 then Panic (UserPanic ''non-positive interval for NewTicker'')
      else Ret (s\<lparr>rss_cancelled := False, rss_lastKeepAlive := now, rss_isRunning := True\<rparr>))"

definition root_NewSession ::
  "'b back_off_code \<Rightarrow> time \<Rightarrow> bool \<Rightarrow> bool \<Rightarrow> int \<Rightarrow> (session_error + 'b RootSession) go" where
  "root_NewSession bo now has_observer has_client conf_TTL =
     (let TTL = (if conf_TTL = 0 then 30 else conf_TTL)
      in if \<not> has_observer then Ret (Inl NoObserver)
         else if \<not> has_client then Ret (Inl NoClient)
         else go_bind (RootSession_run now
           \<lparr>rss_keepAlive = False, rss_lease = None, rss_backOff = boc_New bo 500000000 (i64 (TTL * Second)) 2,
            rss_cancelled = False, rss_conf_TTL = TTL, rss_timeout = i64 (Second * TTL), rss_lastKeepAlive = 0,
            rss_isRunning = False, rss_told = [], rss_revoked = [], rss_asked = []\<rparr>)
           (\<lambda>s. Ret (Inr s)))"

definition root_gainLease :: "string + lease_id \<Rightarrow> string option \<Rightarrow> 'b RootSession \<Rightarrow> 'b RootSession \<times> string option" where
  "root_gainLease Grant KeepAlive s0 =
     (let s = s0\<lparr>rss_asked := rss_asked s0 @ [rss_conf_TTL s0]\<rparr>
      in case Grant of
           Inl err \<Rightarrow> (s\<lparr>rss_lease := None\<rparr>, Some (''during grant lease: '' @ err))
         | Inr l \<Rightarrow>
             (case KeepAlive of
                Some err \<Rightarrow> (s\<lparr>rss_lease := Some l, rss_keepAlive := False\<rparr>, Some err)
              | None \<Rightarrow> (root_tell l None (s\<lparr>rss_lease := Some l, rss_keepAlive := True\<rparr>), None)))"

text \<open>The callback of \<^verbatim>\<open>run\<close>.\<close>

definition root_session_callback :: "'b back_off_code \<Rightarrow> session_input \<Rightarrow> 'b RootSession \<Rightarrow> 'b RootSession \<times> bool" where
  "root_session_callback bo inp s0 =
     (let (s, err) = (if \<not> rss_keepAlive s0 then root_gainLease (in_Grant inp) (in_KeepAlive inp) s0 else (s0, None))
      in case err of
           Some e \<Rightarrow>
             let s1 = root_tell NoLease (Some (''while attempting to gain new lease: '' @ e)) s;
                 s2 = s1\<lparr>rss_backOff := fst (boc_Next bo (rss_backOff s1))\<rparr>
             in if in_ctxDone inp then (s2\<lparr>rss_isRunning := False\<rparr>, False) else (s2, True)
         | None \<Rightarrow>
             let s1 = s\<lparr>rss_backOff := boc_Reset bo (rss_backOff s)\<rparr>
             in (case in_select inp of
                   KeepAliveReceived ok now \<Rightarrow>
                     let s2 = (if \<not> ok then s1\<lparr>rss_keepAlive := False\<rparr> else s1\<lparr>rss_lastKeepAlive := now\<rparr>)
                     in (if \<not> rss_keepAlive s2 then root_tell NoLease None s2 else s2, True)
                 | TickerFired now \<Rightarrow>
                     let s2 = (if now - rss_lastKeepAlive s1 > rss_timeout s1 then s1\<lparr>rss_keepAlive := False\<rparr> else s1)
                     in (if \<not> rss_keepAlive s2 then root_tell NoLease None s2 else s2, True)
                 | DoneClosed revoke \<Rightarrow>
                     let s2 = s1\<lparr>rss_keepAlive := False\<rparr>;
                         s3 = (case rss_lease s2 of
                                 None \<Rightarrow> s2
                               | Some l \<Rightarrow>
                                   (case revoke of
                                      None \<Rightarrow> s2\<lparr>rss_revoked := rss_revoked s2 @ [l]\<rparr>
                                    | Some e \<Rightarrow> root_tell NoLease (Some (''while revoking our lease during shutdown: '' @ e)) s2))
                     in (s3\<lparr>rss_isRunning := False\<rparr>, False)))"

fun root_session_loop :: "'b back_off_code \<Rightarrow> session_input list \<Rightarrow> 'b RootSession \<Rightarrow> 'b RootSession \<times> bool" where
  "root_session_loop bo [] s = (s, False)"
| "root_session_loop bo (inp # ins) s =
     (let (s', again) = root_session_callback bo inp s in if again then root_session_loop bo ins s' else (s', True))"

definition RootSession_Close :: "'b back_off_code \<Rightarrow> session_input list \<Rightarrow> 'b RootSession \<Rightarrow> 'b RootSession option" where
  "RootSession_Close bo ins s =
     (if \<not> rss_isRunning s then Some s
      else case root_session_loop bo ins (s\<lparr>rss_cancelled := True\<rparr>) of
             (s', ended) \<Rightarrow> if ended then Some (root_tell NoLease None s') else None)"

definition RootSession_Reset :: "'b back_off_code \<Rightarrow> time \<Rightarrow> session_input list \<Rightarrow> 'b RootSession \<Rightarrow> 'b RootSession go option" where
  "RootSession_Reset bo now ins s =
     (if \<not> rss_isRunning s then Some (Ret s) else map_option (RootSession_run now) (RootSession_Close bo ins s))"

section \<open>Refinement of the session of version 3\<close>

text \<open>The session of \<^verbatim>\<open>v3\<close> that a session of the root module stands for, with any counter.\<close>

definition v3_session_of :: "backOffCounter \<Rightarrow> 'b RootSession \<Rightarrow> Session" where
  "v3_session_of b s =
     \<lparr>se_keepAlive = rss_keepAlive s, se_lease = rss_lease s, se_backOff = b, se_cancelled = rss_cancelled s,
      se_ttl = rss_timeout s, se_lastKeepAlive = rss_lastKeepAlive s, se_isRunning = rss_isRunning s,
      se_told = rss_told s, se_revoked = rss_revoked s\<rparr>"

text \<open>Every request for a lease asked for the configured time to live.\<close>

definition asked_TTL :: "int \<Rightarrow> 'b RootSession \<Rightarrow> bool" where
  "asked_TTL ttl s \<longleftrightarrow> rss_conf_TTL s = ttl \<and> rss_timeout s = i64 (Second * ttl) \<and> set (rss_asked s) \<subseteq> {ttl}"

lemma v3_session_of_sel [simp]:
  "se_keepAlive (v3_session_of b s) = rss_keepAlive s" "se_isRunning (v3_session_of b s) = rss_isRunning s"
  "se_lease (v3_session_of b s) = rss_lease s" "se_told (v3_session_of b s) = rss_told s"
  "se_backOff (v3_session_of b s) = b" "se_ttl (v3_session_of b s) = rss_timeout s"
  "se_lastKeepAlive (v3_session_of b s) = rss_lastKeepAlive s" "se_revoked (v3_session_of b s) = rss_revoked s"
  by (simp_all add: v3_session_of_def)

lemma gainLease_sim:
  "gainLease g k (v3_session_of b s) = (case root_gainLease g k s of (s', err) \<Rightarrow> (v3_session_of b s', err))"
  by (simp add: gainLease_def root_gainLease_def v3_session_of_def tell_def root_tell_def split: sum.splits option.splits)

lemma gainLease_asked: "asked_TTL ttl s \<Longrightarrow> asked_TTL ttl (fst (root_gainLease g k s))"
  by (auto simp: asked_TTL_def root_gainLease_def root_tell_def Let_def split: sum.splits option.splits)

lemma callback_sim:
  "\<exists>b'. session_callback inp (v3_session_of b s) =
     (case root_session_callback bo inp s of (s', again) \<Rightarrow> (v3_session_of b' s', again))"
proof -
  obtain s1 err where gain: "(if \<not> rss_keepAlive s then root_gainLease (in_Grant inp) (in_KeepAlive inp) s else (s, None)) = (s1, err)"
    by fastforce
  then have gain': "(if \<not> se_keepAlive (v3_session_of b s) then gainLease (in_Grant inp) (in_KeepAlive inp) (v3_session_of b s)
      else (v3_session_of b s, None)) = (v3_session_of b s1, err)"
    by (auto simp: gainLease_sim split: if_splits)
  show ?thesis
    unfolding session_callback_def root_session_callback_def gain gain'
    by (intro exI [of _ "case err of None \<Rightarrow> backOff_Reset b | Some _ \<Rightarrow> fst (backOff_Next b)"])
      (auto simp: Let_def v3_session_of_def tell_def root_tell_def split: option.splits session_select.splits)
qed

lemma callback_asked:
  assumes "asked_TTL ttl s"
  shows "asked_TTL ttl (fst (root_session_callback bo inp s))"
proof -
  obtain s1 err where gain: "(if \<not> rss_keepAlive s then root_gainLease (in_Grant inp) (in_KeepAlive inp) s else (s, None)) = (s1, err)"
    by fastforce
  then have "asked_TTL ttl s1" using gainLease_asked [OF assms, of "in_Grant inp" "in_KeepAlive inp"] assms by (auto split: if_splits)
  then show ?thesis unfolding root_session_callback_def gain
    by (auto simp: Let_def asked_TTL_def root_tell_def split: option.splits session_select.splits)
qed

lemma loop_sim:
  "\<exists>b'. session_loop ins (v3_session_of b s) =
     (case root_session_loop bo ins s of (s', ended) \<Rightarrow> (v3_session_of b' s', ended))"
proof (induction ins arbitrary: b s)
  case (Cons inp ins)
  obtain s' again where cb: "root_session_callback bo inp s = (s', again)" by fastforce
  obtain b' where cb': "session_callback inp (v3_session_of b s) = (v3_session_of b' s', again)"
    using callback_sim [of inp b s bo] cb by auto
  show ?case using Cons [of b' s'] by (auto simp: cb cb')
qed auto

lemma loop_asked: "asked_TTL ttl s \<Longrightarrow> asked_TTL ttl (fst (root_session_loop bo ins s))"
proof (induction ins arbitrary: s)
  case (Cons inp ins)
  then show ?case using callback_asked [OF Cons.prems, of bo inp] by (auto split: prod.split)
qed simp

lemma NewSession_sim:
  "\<exists>b. NewSession now obs cl ttl = (case root_NewSession bo now obs cl ttl of
     Panic p \<Rightarrow> Panic p | Ret (Inl err) \<Rightarrow> Ret (Inl err) | Ret (Inr s) \<Rightarrow> Ret (Inr (v3_session_of b s)))"
  by (auto simp: NewSession_def root_NewSession_def Session_start_def RootSession_run_def v3_session_of_def Let_def)

lemma NewSession_asked:
  "root_NewSession bo now obs cl ttl = Ret (Inr s) \<Longrightarrow> asked_TTL (if ttl = 0 then 30 else ttl) s"
  by (auto simp: root_NewSession_def RootSession_run_def Let_def asked_TTL_def go_bind_Ret_iff split: if_splits)

lemma Close_sim:
  "\<exists>b'. Session_Close ins (v3_session_of b s) = map_option (v3_session_of b') (RootSession_Close bo ins s)"
proof -
  have cancel: "(v3_session_of b s)\<lparr>se_cancelled := True\<rparr> = v3_session_of b (s\<lparr>rss_cancelled := True\<rparr>)"
    by (simp add: v3_session_of_def)
  obtain s' ended where loop: "root_session_loop bo ins (s\<lparr>rss_cancelled := True\<rparr>) = (s', ended)" by fastforce
  obtain b' where loop': "session_loop ins (v3_session_of b (s\<lparr>rss_cancelled := True\<rparr>)) = (v3_session_of b' s', ended)"
    using loop_sim [of ins b "s\<lparr>rss_cancelled := True\<rparr>" bo] loop by auto
  have "tell NoLease None (v3_session_of b' s') = v3_session_of b' (root_tell NoLease None s')"
    by (simp add: tell_def root_tell_def v3_session_of_def)
  then show ?thesis by (cases "rss_isRunning s") (auto simp: Session_Close_def RootSession_Close_def cancel loop loop')
qed

text \<open>\<^verbatim>\<open>v3\<close> asks for the time to live in whole seconds of its duration: the same, unless the duration overflows.\<close>

definition v3_grant_TTL :: "Session \<Rightarrow> int" where
  "v3_grant_TTL s = (if se_ttl s < 0 then - ((- se_ttl s) div Second) else se_ttl s div Second)"

lemma grant_TTL_sim:
  assumes "asked_TTL ttl s" and "0 < ttl" and "ttl \<le> 9223372036"
  shows "v3_grant_TTL (v3_session_of b s) = ttl"
proof -
  have "i64 (Second * ttl) = Second * ttl" using assms(2,3) by (intro i64_id) (auto simp: in_i64_def Second_def)
  then show ?thesis using assms by (simp add: asked_TTL_def v3_grant_TTL_def Second_def)
qed

text \<open>
  C34: the session of the root module behaves as the one of \<^verbatim>\<open>v3\<close>, whatever its back off counter computes: a new session
  stands for a new session of \<^verbatim>\<open>v3\<close>; on the same answers of etcd its loop ends when that of \<^verbatim>\<open>v3\<close> does, with the same lease,
  the same calls of the observer and the same leases revoked; \<^verbatim>\<open>Close\<close> returns when that of \<^verbatim>\<open>v3\<close> does, with the same
  effect; and every lease was asked for with the configured time to live, which is also what \<^verbatim>\<open>v3\<close> asks for, as long as it
  fits a duration.
\<close>

theorem Root_Session_refines:
  assumes "root_NewSession bo now True True conf_TTL = Ret (Inr s)" and "root_session_loop bo ins s = (s', ended)"
    and "ttl = (if conf_TTL = 0 then 30 else conf_TTL)"
  shows "\<exists>b1 b2 b3. NewSession now True True conf_TTL = Ret (Inr (v3_session_of b1 s)) \<and>
    session_loop ins (v3_session_of b1 s) = (v3_session_of b2 s', ended) \<and>
    Session_Close ins' (v3_session_of b2 s') = map_option (v3_session_of b3) (RootSession_Close bo ins' s') \<and>
    set (rss_asked s') \<subseteq> {ttl} \<and> (0 < ttl \<and> ttl \<le> 9223372036 \<longrightarrow> v3_grant_TTL (v3_session_of b2 s') = ttl)"
proof -
  obtain b1 where new: "NewSession now True True conf_TTL = Ret (Inr (v3_session_of b1 s))"
    using NewSession_sim [of now True True conf_TTL bo] assms(1) by auto
  obtain b2 where loop: "session_loop ins (v3_session_of b1 s) = (v3_session_of b2 s', ended)"
    using loop_sim [of ins b1 s bo] assms(2) by auto
  obtain b3 where close: "Session_Close ins' (v3_session_of b2 s') = map_option (v3_session_of b3) (RootSession_Close bo ins' s')"
    using Close_sim by blast
  have asked: "asked_TTL ttl s'"
    using loop_asked [OF NewSession_asked [OF assms(1)], of bo ins] assms(2,3) by simp
  show ?thesis using new loop close asked grant_TTL_sim [OF asked] by (auto simp: asked_TTL_def)
qed

text \<open>An example, with the counter of \<^verbatim>\<open>v3\<close>.\<close>

definition v3_counter :: "backOffCounter back_off_code" where
  "v3_counter = \<lparr>boc_New = newBackOffCounter, boc_Next = backOff_Next, boc_Reset = backOff_Reset\<rparr>"

theorem Root_Session_refines_witness:
  "\<exists>s s' b1 b2. root_NewSession v3_counter 0 True True 5 = Ret (Inr s) \<and> root_session_loop v3_counter [ex_gain] s = (s', False) \<and>
     session_loop [ex_gain] (v3_session_of b1 s) = (v3_session_of b2 s', False) \<and> rss_told s' = [(7, None)] \<and> rss_asked s' = [5]"
proof -
  obtain s s' where s: "root_NewSession v3_counter 0 True True 5 = Ret (Inr s)" "root_session_loop v3_counter [ex_gain] s = (s', False)"
    "rss_told s' = [(7, None)]" "rss_asked s' = [5]"
    by (simp add: root_NewSession_def RootSession_run_def Let_def i64_def Second_def root_session_callback_def root_gainLease_def
        root_tell_def ex_gain_def)
  from Root_Session_refines [OF s(1,2) refl, of "[]"] show ?thesis using s by blast
qed

text \<open>
  What the observer of \<^verbatim>\<open>v3\<close> knows, that of the root module knows as well.
\<close>

lemma Root_Session_told:
  assumes "root_NewSession bo now True True conf_TTL = Ret (Inr s)" and "root_session_loop bo ins s = (s', False)"
    and "\<forall>inp \<in> set ins. input_ok inp"
  shows "if rss_keepAlive s' then \<exists>l. rss_lease s' = Some l \<and> l \<noteq> NoLease \<and> rss_told s' \<noteq> [] \<and> last (rss_told s') = (l, None)
    else rss_told s' = [] \<or> fst (last (rss_told s')) = NoLease"
proof -
  obtain b1 b2 where "NewSession now True True conf_TTL = Ret (Inr (v3_session_of b1 s))"
    "session_loop ins (v3_session_of b1 s) = (v3_session_of b2 s', False)"
    using NewSession_sim [of now True True conf_TTL bo] loop_sim [of ins _ s bo] assms(1,2) by fastforce
  then have "told_lease (v3_session_of b2 s')" using session_loop_told [OF NewSession_told _ , of now conf_TTL] assms(3) by blast
  then show ?thesis unfolding told_lease_def v3_session_of_sel .
qed

end
