(* ===== verification/Call_Stack.thy ===== *)
theory Call_Stack
  imports Errors
begin

text \<open>
  The rest of \<^verbatim>\<open>stack/stack.go\<close> (\<^verbatim>\<open>v3/callstack/callstack.go\<close> has the same code): capturing the stack of the current goroutine
  and reading its id. The frames of the goroutine, and the text that the runtime writes about it, are arguments.
\<close>

section \<open>Capturing a stack\<close>

text \<open>\<^verbatim>\<open>runtime.Callers\<close>: the frames of the goroutine, the innermost first, which is that of \<^verbatim>\<open>Callers\<close> itself.\<close>

definition runtime_Callers :: "stack \<Rightarrow> nat \<Rightarrow> nat \<Rightarrow> stack" where
  "runtime_Callers frames skip size_pc = take size_pc (drop skip frames)"

definition Stack_New :: "stack \<Rightarrow> nat \<Rightarrow> stack" where
  "Stack_New frames skip =
     (let skip = skip + 2;
          depth = 32
      in runtime_Callers frames skip depth)"

function StackTrace_loop :: "stack \<Rightarrow> nat \<Rightarrow> nat list \<Rightarrow> nat list" where
  "StackTrace_loop s i f = (if i < length f then StackTrace_loop s (Suc i) (f[i := s ! i]) else f)"
  by pat_completeness auto
termination
  by (relation "measure (\<lambda>(s, i, f). length f - i)") auto

declare StackTrace_loop.simps [simp del]

definition Stack_StackTrace :: "stack \<Rightarrow> nat list" where
  "Stack_StackTrace s = StackTrace_loop s 0 (replicate (length s) 0)"

lemma StackTrace_loop_copies:
  "length f = length s \<Longrightarrow> i \<le> length s \<Longrightarrow> StackTrace_loop s i f = take i f @ drop i s"
proof (induction s i f rule: StackTrace_loop.induct)
  case (1 s i f)
  show ?case
  proof (cases "i < length f")
    case True
    then have "StackTrace_loop s i f = take (Suc i) (f[i := s ! i]) @ drop (Suc i) s"
      using 1 by (subst StackTrace_loop.simps) simp
    also have "\<dots> = take i f @ drop i s" using True "1.prems"(1) by (simp add: take_Suc_conv_app_nth Cons_nth_drop_Suc)
    finally show ?thesis .
  next
    case False
    then show ?thesis using "1.prems" by (subst StackTrace_loop.simps) simp
  qed
qed

lemma Stack_StackTrace_id: "Stack_StackTrace s = s"
  by (simp add: Stack_StackTrace_def StackTrace_loop_copies)

text \<open>
  The frames when a function of package \<^verbatim>\<open>errors\<close> calls \<^verbatim>\<open>stack.New\<close>: those of \<^verbatim>\<open>Callers\<close>, of \<^verbatim>\<open>New\<close> and of that function, and
  below them the client's.
\<close>

definition in_package :: "nat \<Rightarrow> nat \<Rightarrow> nat \<Rightarrow> stack \<Rightarrow> stack" where
  "in_package callers new fn client = callers # new # fn # client"

lemma Stack_New_in_package: "Stack_New (in_package callers new fn client) (1 + d) = take 32 (drop d client)"
  by (simp add: Stack_New_def runtime_Callers_def in_package_def)

text \<open>
  The trace of an error starts at the line of the client that made or wrapped it, and not inside the package, and
  goes down at most 32 frames; \<^verbatim>\<open>NewCauseError\<close> leaves out as many more frames as it is told to. An error wrapped with a
  context keeps the trace of the error inside, if it has one.
\<close>

theorem error_trace_of_client:
  fixes callers new fn :: nat and client :: stack
  defines "at \<equiv> in_package callers new fn client"
  shows "HasStackTrace (errors_New (Stack_New at 1) msg) = Some (take 32 client) \<and>
    map_option HasStackTrace (Wrap (Stack_New at 1) (Some e) msg) = Some (Some (take 32 client)) \<and>
    map_option HasStackTrace (errors_WithStack (Stack_New at 1) (Some e)) = Some (Some (take 32 client)) \<and>
    HasStackTrace (NewCauseError (Stack_New at) None [d]) = Some (take 32 (drop d client)) \<and>
    HasStackTrace (NewCauseError (Stack_New at) None []) = Some (take 32 client) \<and>
    map_option HasStackTrace (WithContext_Wrap (Stack_New at 1) c (Some e) msg) =
      Some (Some (case HasStackTrace e of Some trace \<Rightarrow> trace | None \<Rightarrow> take 32 client))"
  unfolding assms
  using Stack_New_in_package [of callers new fn client 0] Stack_New_in_package [of callers new fn client d]
  by (simp add: errors_New_def Wrap_def errors_WithStack_def NewCauseError_def WithContext_Wrap_def split: option.split)

section \<open>The id of a goroutine\<close>

text \<open>The number that \<^verbatim>\<open>strconv.ParseUint(s, 10, 64)\<close> returns, beside an error or not: 0 for what is no number, the largest for one too large.\<close>

fun ParseUint_loop :: "nat \<Rightarrow> string \<Rightarrow> nat" where
  "ParseUint_loop n [] = n"
| "ParseUint_loop n (c # s) =
     (case digit_val c of
        None \<Rightarrow> 0
      | Some d \<Rightarrow> if 2 ^ 64 \<le> n * 10 + d then 2 ^ 64 - 1 else ParseUint_loop (n * 10 + d) s)"

definition ParseUint :: "string \<Rightarrow> nat" where
  "ParseUint s = (if s = [] then 0 else ParseUint_loop 0 s)"

definition TrimPrefix :: "string \<Rightarrow> string \<Rightarrow> string" where
  "TrimPrefix s prefix = (if take (length prefix) s = prefix then drop (length prefix) s else s)"

text \<open>The argument is what \<^verbatim>\<open>runtime.Stack\<close> has to write; it is cut off at the length of the buffer. A slice up to -1 panics.\<close>

definition GoRoutineID :: "string \<Rightarrow> nat go" where
  "GoRoutineID written =
     (let b = take 64 written;
          b = TrimPrefix b ''goroutine ''
      in if CHR '' '' \<in> set b then Ret (ParseUint (takeWhile (\<lambda>c. c \<noteq> CHR '' '') b))
         else Panic (UserPanic ''slice bounds out of range''))"

lemma ParseUint_loop_append:
  "parse_digits n xs = Some m \<Longrightarrow> m < 2 ^ 64 \<Longrightarrow> ParseUint_loop n (xs @ ys) = ParseUint_loop m ys"
proof (induction xs arbitrary: n)
  case (Cons c xs)
  then obtain d where d: "digit_val c = Some d" "parse_digits (10 * n + d) xs = Some m" by (auto split: option.splits)
  have "k \<le> m'" if "parse_digits k zs = Some m'" for k zs m'
    using that by (induction zs arbitrary: k) (fastforce split: option.splits)+
  from this [OF d(2)] show ?case using Cons.IH [OF d(2) Cons.prems(2)] Cons.prems(2) d(1) by (simp add: mult.commute)
qed simp

lemma nat_digits_length: "n < 10 ^ Suc k \<Longrightarrow> length (nat_digits n) \<le> Suc k"
proof (induction k arbitrary: n)
  case (Suc k)
  then have "n div 10 < 10 ^ Suc k" by (simp add: less_mult_imp_div_less)
  then show ?case using Suc.IH [of "n div 10"] by (subst nat_digits.simps) auto
qed (simp add: nat_digits.simps)

text \<open>
  \<^verbatim>\<open>GoRoutineID\<close> reads the number from the text that the runtime writes about a goroutine, whatever follows it there: every
  id of 64 bits fits into the buffer.
\<close>

theorem GoRoutineID_reads:
  assumes "n < 2 ^ 64"
  shows "GoRoutineID (''goroutine '' @ nat_digits n @ '' ['' @ rest) = Ret n"
proof -
  have "n < 10 ^ Suc 19" using assms by simp
  then have len: "length (nat_digits n) \<le> 20" using nat_digits_length [of n 19] by simp
  let ?b = "nat_digits n @ take (54 - length (nat_digits n)) ('' ['' @ rest)"
  have "take 64 (''goroutine '' @ nat_digits n @ '' ['' @ rest) = ''goroutine '' @ ?b"
    using len by simp
  then have b: "TrimPrefix (take 64 (''goroutine '' @ nat_digits n @ '' ['' @ rest)) ''goroutine '' = ?b"
    by (simp add: TrimPrefix_def)
  obtain r where r: "take (54 - length (nat_digits n)) ('' ['' @ rest) = CHR '' '' # r"
    using len by (cases "54 - length (nat_digits n)") auto
  have "digit_val CHR '' '' = None" by (simp add: digit_val_def)
  then have "\<forall>c \<in> set (nat_digits n). c \<noteq> CHR '' ''" using nat_digits_chars [of _ n] digit_val_char by fastforce
  then have tw: "takeWhile (\<lambda>c. c \<noteq> CHR '' '') ?b = nat_digits n" "CHR '' '' \<in> set ?b"
    unfolding r by (simp_all add: takeWhile_append)
  have "ParseUint (nat_digits n) = n"
    using ParseUint_loop_append [OF parse_nat_digits assms, of "[]"] by (simp add: ParseUint_def)
  then show ?thesis unfolding GoRoutineID_def Let_def b tw(1) using tw(2) by simp
qed

theorem GoRoutineID_reads_witness: "GoRoutineID ''goroutine 17 [running]:'' = Ret 17"
proof -
  have "nat_digits 17 = ''17''" by code_simp
  then show ?thesis using GoRoutineID_reads [of 17 "''running]:''"] by simp
qed

end
