(* ===== verification/Clock_Sleep.thy ===== *)
theory Clock_Sleep
  imports Clock_Package
begin

text \<open>
  The rest of \<^verbatim>\<open>clock/frozen.go\<close> and \<^verbatim>\<open>clock/clock.go\<close>: sleeping on the frozen clock, channels of timers and tickers, and the
  functions of the package that forward to its provider. A channel is named by the address of its timer. \<^verbatim>\<open>Sleep\<close>
  has two steps: it starts a timer, and it receives from its channel, which is not possible as long as it is empty.
\<close>

section \<open>The frozen clock\<close>

definition frozen_Now :: "frozenTime \<Rightarrow> time" where
  "frozen_Now ft = ft_now ft"

definition Timer_C :: "frozenTime \<Rightarrow> addr \<Rightarrow> time list option" where
  "Timer_C ft t = tm_c (ft_tm ft t)"

definition frozen_After :: "frozenTime \<Rightarrow> duration \<Rightarrow> (frozenTime \<times> addr) go" where
  "frozen_After ft d = NewTimer ft d"

text \<open>Receiving from a channel: \<open>None\<close> when it blocks, as a nil channel always does.\<close>

definition chan_recv :: "frozenTime \<Rightarrow> addr \<Rightarrow> (frozenTime \<times> time) option" where
  "chan_recv ft t =
     (case Timer_C ft t of
        Some (x # xs) \<Rightarrow> Some (ft\<lparr>ft_tm := (ft_tm ft)(t := (ft_tm ft t)\<lparr>tm_c := Some xs\<rparr>)\<rparr>, x)
      | _ \<Rightarrow> None)"

definition Sleep_begin :: "frozenTime \<Rightarrow> duration \<Rightarrow> (frozenTime \<times> addr) go" where
  "Sleep_begin ft d = NewTimer ft d"

definition Sleep_end :: "frozenTime \<Rightarrow> addr \<Rightarrow> frozenTime option" where
  "Sleep_end ft t = map_option fst (chan_recv ft t)"

definition Ticker_C :: "frozenTime \<Rightarrow> addr \<Rightarrow> time list option" where
  "Ticker_C ft t = Timer_C ft t"

definition Ticker_Stop :: "frozenTime \<Rightarrow> addr \<Rightarrow> frozenTime" where
  "Ticker_Stop ft t = fst (Timer_Stop ft t)"

section \<open>The package\<close>

text \<open>A call of the provider: \<open>None\<close> when the provider is the system's clock, and package \<^verbatim>\<open>time\<close> is called.\<close>

definition provider_call :: "(frozenTime \<Rightarrow> (frozenTime \<times> 'a) go) \<Rightarrow> clock_package \<Rightarrow> (clock_package \<times> 'a) go option" where
  "provider_call f ck =
     (case ck_provider ck of
        Realtime \<Rightarrow> None
      | Frozen ft \<Rightarrow> Some (go_bind (f ft) (\<lambda>(ft', x). Ret (ck\<lparr>ck_provider := Frozen ft'\<rparr>, x))))"

definition clock_Realtime :: provider where
  "clock_Realtime = Realtime"

definition Unfreezer_Unfreeze :: "clock_package \<Rightarrow> clock_package" where
  "Unfreezer_Unfreeze ck = clock_Unfreeze ck"

definition clock_Sleep_begin :: "clock_package \<Rightarrow> duration \<Rightarrow> (clock_package \<times> addr) go option" where
  "clock_Sleep_begin ck d = provider_call (\<lambda>ft. Sleep_begin ft d) ck"

definition clock_After :: "clock_package \<Rightarrow> duration \<Rightarrow> (clock_package \<times> addr) go option" where
  "clock_After ck d = provider_call (\<lambda>ft. frozen_After ft d) ck"

definition clock_NewTimer :: "clock_package \<Rightarrow> duration \<Rightarrow> (clock_package \<times> addr) go option" where
  "clock_NewTimer ck d = provider_call (\<lambda>ft. NewTimer ft d) ck"

definition clock_AfterFunc :: "clock_package \<Rightarrow> duration \<Rightarrow> nat option \<Rightarrow> (clock_package \<times> addr) go option" where
  "clock_AfterFunc ck d f = provider_call (\<lambda>ft. AfterFunc ft d f) ck"

definition clock_NewTicker :: "clock_package \<Rightarrow> duration \<Rightarrow> (clock_package \<times> addr) go option" where
  "clock_NewTicker ck d = provider_call (\<lambda>ft. NewTicker ft d) ck"

definition clock_Tick :: "clock_package \<Rightarrow> duration \<Rightarrow> (clock_package \<times> addr option) go option" where
  "clock_Tick ck d = provider_call (\<lambda>ft. Tick ft d) ck"

section \<open>A timer with a channel while the clock moves\<close>

definition waiting :: "time \<Rightarrow> addr \<Rightarrow> frozenTime \<Rightarrow> bool" where
  "waiting w a ft \<longleftrightarrow> a \<in> set (ft_timers ft) \<and> when_of ft a = w \<and> interval_of ft a = 0 \<and> Timer_C ft a = Some []"

definition woken :: "time \<Rightarrow> addr \<Rightarrow> frozenTime \<Rightarrow> bool" where
  "woken w a ft \<longleftrightarrow> a \<notin> set (ft_timers ft) \<and> Timer_C ft a = Some [w] \<and> w \<le> ft_now ft"

lemma fire_self:
  assumes "interval_of ft t = 0" "Timer_C ft t = Some []" "t \<notin> set (ft_timers ft)" "when_of ft t \<le> ft_now ft"
  shows "woken (when_of ft t) t (fire ft t)"
  using assms by (simp add: woken_def fire_def Timer_C_def Let_def)

lemma fire_other:
  assumes "a \<noteq> t"
  shows "ft_tm (fire ft t) a = ft_tm ft a" "a \<in> set (ft_timers (fire ft t)) \<longleftrightarrow> a \<in> set (ft_timers ft)" "ft_now (fire ft t) = ft_now ft"
  using assms by (simp_all add: fire_def Let_def)

lemma pass_keeps:
  assumes "ft_wf ft" and next_: "nextExpired ft = Some (ft1, t)" and a: "waiting w a ft \<or> woken w a ft"
  shows "waiting w a (fire ft1 t) \<or> woken w a (fire ft1 t)"
proof -
  obtain ts where ts: "ft_timers ft = t # ts" "\<not> ft_now ft < when_of ft t"
    "ft1 = ft\<lparr>ft_timers := ts, ft_tm := (ft_tm ft)(t := (ft_tm ft t)\<lparr>tm_stopped := True\<rparr>)\<rparr>"
    using next_ by (auto simp: nextExpired_def time_Before_def split: list.splits if_splits)
  have fresh: "t \<notin> set ts" using assms(1) by (simp add: ft_wf_def ts(1))
  show ?thesis
  proof (cases "a = t")
    case True
    then have "waiting w t ft" using a ts(1) by (auto simp: woken_def)
    then have "woken (when_of ft1 t) t (fire ft1 t)" "when_of ft1 t = w"
      using ts fresh fire_self [of ft1 t] by (auto simp: waiting_def Timer_C_def)
    then show ?thesis using True by simp
  next
    case False
    from fire_other [OF this, of ft1] show ?thesis using a False ts(1,3) by (auto simp: waiting_def woken_def Timer_C_def)
  qed
qed

lemma advance_loop_wakes:
  assumes "inert fs" and "ft_wf ft" and "waiting w a ft \<or> woken w a ft"
  shows "\<exists>ft'. advance_loop fs ft = Some (Ret ft') \<and> ft_wf ft' \<and> ft_now ft' = ft_now ft \<and>
    (if w \<le> ft_now ft then woken w a ft' else waiting w a ft')"
  using assms(2,3)
proof (induction "size (expected ft)" arbitrary: ft rule: less_induct)
  case less
  show ?case
  proof (cases "nextExpired ft")
    case None
    have "\<forall>b \<in> set (ft_timers ft). ft_now ft < when_of ft b"
      using None less.prems(1) by (auto simp: nextExpired_def time_Before_def ft_wf_def split: list.splits if_splits)
    then show ?thesis using less.prems advance_loop_end [OF None, of fs] by (auto simp: waiting_def woken_def)
  next
    case (Some p)
    obtain ft1 t where p: "nextExpired ft = Some (ft1, t)" using Some by (cases p) auto
    note ps = pass [OF less.prems(1) p]
    have "size (expected (fire ft1 t)) < size (expected ft)" using ps(4) by simp
    from less.hyps [OF this ps(1) pass_keeps [OF less.prems(1) p less.prems(2)]]
    show ?thesis unfolding ps(2) advance_loop_pass [OF assms(1) p] .
  qed
qed

lemma advance_wakes:
  assumes "inert fs" and "ft_wf ft" and "waiting w a ft \<or> woken w a ft" and "0 \<le> d"
  shows "\<exists>ft'. advance fs ft d = Some (Ret ft') \<and> ft_wf ft' \<and> ft_now ft' = ft_now ft + d \<and>
    (if w \<le> ft_now ft + d then woken w a ft' else waiting w a ft')"
proof -
  let ?ft = "ft\<lparr>ft_now := ft_now ft + d\<rparr>"
  have "ft_wf ?ft" "waiting w a ?ft \<or> woken w a ?ft" using assms(2-4) by (auto simp: ft_wf_def waiting_def woken_def Timer_C_def)
  from advance_loop_wakes [OF assms(1) this] show ?thesis by (simp add: advance_def time_Add_def)
qed

lemma clock_advances_wakes:
  assumes "inert fs"
  shows "ft_wf ft \<Longrightarrow> ck_provider ck = Frozen ft \<Longrightarrow> waiting w a ft \<or> woken w a ft \<Longrightarrow> \<forall>d \<in> set ds. 0 \<le> d \<Longrightarrow>
    \<exists>ck' rs ft'. clock_advances fs ds ck = Some (Ret (ck', rs)) \<and> ck_provider ck' = Frozen ft' \<and>
      ft_now ft' = ft_now ft + sum_list ds \<and>
      (if ds = [] then ft' = ft else if w \<le> ft_now ft' then woken w a ft' else waiting w a ft')"
proof (induction ds arbitrary: ft ck)
  case (Cons d ds)
  obtain ft1 where ft1: "advance fs ft d = Some (Ret ft1)" "ft_wf ft1" "ft_now ft1 = ft_now ft + d"
    "if w \<le> ft_now ft + d then woken w a ft1 else waiting w a ft1"
    using advance_wakes [OF assms Cons.prems(1,3)] Cons.prems(4) by auto
  let ?ck = "ck\<lparr>ck_provider := Frozen ft1\<rparr>"
  have adv: "clock_Advance fs ck d = Some (Ret (?ck, time_Sub (ft_now ft1) (ck_frozenAt ck)))"
    using Cons.prems(2) ft1(1) by (simp add: clock_Advance_def)
  have now: "waiting w a ft1 \<or> woken w a ft1" using ft1(4) by (auto split: if_splits)
  obtain ck' rs ft' where rest: "clock_advances fs ds ?ck = Some (Ret (ck', rs))" "ck_provider ck' = Frozen ft'"
    "ft_now ft' = ft_now ft1 + sum_list ds"
    "if ds = [] then ft' = ft1 else if w \<le> ft_now ft' then woken w a ft' else waiting w a ft'"
    using Cons.IH [OF ft1(2) _ now, of ?ck] Cons.prems(4) by auto
  have "if w \<le> ft_now ft' then woken w a ft' else waiting w a ft'"
    using rest(3,4) ft1(3,4) by (cases "ds = []") auto
  then show ?case using rest(1-3) ft1(3) adv by (intro exI [of _ ck'] exI [of _ "_ # rs"] exI [of _ ft']) simp
qed simp

section \<open>Sleeping\<close>

lemma NewTimer_waiting:
  assumes "ft_wf ft" and "NewTimer ft d = Ret (ft', t)"
  shows "ft_wf ft'" "waiting (ft_now ft + d) t ft'" "ft_now ft' = ft_now ft"
proof -
  let ?tm = "\<lparr>tm_when = time_Add (ft_now ft) d, tm_interval = 0, tm_stopped = False, tm_c = Some [], tm_f = None\<rparr>"
  have start: "startTimer (alloc_timer ft ?tm) (ft_next ft) = Ret ft'" and t: "t = ft_next ft"
    using assms(2) by (auto simp: NewTimer_def AfterFunc_def Let_def go_bind_Ret_iff)
  show "ft_wf ft'" by (rule alloc_timer_wf [OF assms(1) _ start]) simp
  show "waiting (ft_now ft + d) t ft'" "ft_now ft' = ft_now ft"
    using startTimer_fields [OF start] by (simp_all add: waiting_def t alloc_timer_def Timer_C_def time_Add_def)
qed

lemma Sleep_end_iff:
  "waiting w a ft \<Longrightarrow> Sleep_end ft a = None" "woken w a ft \<Longrightarrow> Sleep_end ft a \<noteq> None"
  by (simp_all add: waiting_def woken_def Sleep_end_def chan_recv_def)

text \<open>
  C38: a goroutine that sleeps on the frozen clock goes on exactly when the clock has been advanced by the time it
  sleeps for, by one call of \<^verbatim>\<open>Advance\<close> or by several, and no earlier; but at least one call is needed: unlike \<^verbatim>\<open>time.Sleep\<close>, a
  sleep of no time at all waits for the next \<^verbatim>\<open>Advance\<close>.
\<close>

theorem Sleep_wakes_exactly:
  assumes "frozen_reach ft" and "ck_provider ck = Frozen ft" and "inert fs"
    and "clock_Sleep_begin ck d = Some (Ret (ck1, t))" and "\<forall>x \<in> set ds. 0 \<le> x"
  shows "\<exists>ck2 rs ft2. clock_advances fs ds ck1 = Some (Ret (ck2, rs)) \<and> ck_provider ck2 = Frozen ft2 \<and>
    clock_Now system ck2 = clock_Now system ck + sum_list ds \<and>
    (Sleep_end ft2 t \<noteq> None \<longleftrightarrow> ds \<noteq> [] \<and> d \<le> sum_list ds)"
proof -
  obtain ft1 where new: "NewTimer ft d = Ret (ft1, t)" and ck1: "ck_provider ck1 = Frozen ft1"
    using assms(2,4) by (auto simp: clock_Sleep_begin_def provider_call_def Sleep_begin_def go_bind_Ret_iff split: prod.splits)
  note ft1 = NewTimer_waiting [OF frozen_reach_wf [OF assms(1)] new]
  obtain ck2 rs ft2 where adv: "clock_advances fs ds ck1 = Some (Ret (ck2, rs))" "ck_provider ck2 = Frozen ft2"
    "ft_now ft2 = ft_now ft + sum_list ds"
    "if ds = [] then ft2 = ft1 else if ft_now ft + d \<le> ft_now ft2 then woken (ft_now ft + d) t ft2 else waiting (ft_now ft + d) t ft2"
    using clock_advances_wakes [OF assms(3) ft1(1) ck1 disjI1 [OF ft1(2)] assms(5)] ft1(3) by auto
  have "Sleep_end ft2 t \<noteq> None \<longleftrightarrow> ds \<noteq> [] \<and> d \<le> sum_list ds"
    using adv(3,4) ft1(2) Sleep_end_iff by (cases "ds = []") (auto split: if_splits)
  then show ?thesis using adv(1-3) assms(2) by (simp add: clock_Now_def)
qed

theorem Sleep_wakes_exactly_witness:
  "\<exists>ck1 t ck2 rs ft2. clock_Sleep_begin (clock_Freeze clock_init 0) 3 = Some (Ret (ck1, t)) \<and>
     clock_advances (\<lambda>_ ft. Ret ft) [1, 2] ck1 = Some (Ret (ck2, rs)) \<and> ck_provider ck2 = Frozen ft2 \<and> Sleep_end ft2 t \<noteq> None"
proof -
  let ?ck = "clock_Freeze clock_init 0"
  have ck: "ck_provider ?ck = Frozen (Freeze 0)" by (simp add: clock_Freeze_def)
  obtain ck1 t where start: "clock_Sleep_begin ?ck 3 = Some (Ret (ck1, t))"
    by (simp add: clock_Sleep_begin_def provider_call_def ck Sleep_begin_def NewTimer_def AfterFunc_def startTimer_def Let_def
        alloc_timer_def Freeze_def)
  from Sleep_wakes_exactly [OF frozen_reach.Freeze ck inert_skip start, of "[1, 2]" 0] show ?thesis using start by auto
qed

end
