(* ===== verification/Etcd2_New.thy ===== *)
theory Etcd2_New
  imports Etcd2_Election
begin

text \<open>
  \<^verbatim>\<open>New\<close> of \<^verbatim>\<open>election/election.go\<close>: the election with a client of its own, and the goroutine that keeps the client's list of
  endpoints up to date until the context that it shares with the election is done. The constructor of the client and what
  its \<^verbatim>\<open>AutoSync\<close> returns are parameters.
\<close>

datatype sync_error = ContextCanceled | ContextDeadlineExceeded | SyncFailed string

record sync_goroutine =
  sy_ended :: bool
  sy_logged :: "string list"

definition election2_New ::
  "(string list \<Rightarrow> string + 'c) \<Rightarrow> string option \<Rightarrow> string list \<Rightarrow> Election2Config \<Rightarrow>
   string + (Election2Config \<times> EtcdElection \<times> sync_goroutine)" where
  "election2_New etcd_New hostname endpoints conf =
     (case etcd_New endpoints of
        Inl err \<Rightarrow> Inl err
      | Inr client \<Rightarrow>
          let (conf', leader) = NewFromClient hostname conf
          in Inr (conf', leader, \<lparr>sy_ended = False, sy_logged = []\<rparr>))"

text \<open>One round of the goroutine: \<^verbatim>\<open>AutoSync\<close> returns an error.\<close>

definition sync_step :: "sync_error \<Rightarrow> sync_goroutine \<Rightarrow> sync_goroutine option" where
  "sync_step err sy =
     (if sy_ended sy then None
      else case err of
             ContextDeadlineExceeded \<Rightarrow> Some (sy\<lparr>sy_ended := True\<rparr>)
           | ContextCanceled \<Rightarrow> Some (sy\<lparr>sy_ended := True\<rparr>)
           | SyncFailed msg \<Rightarrow> Some (sy\<lparr>sy_logged := sy_logged sy @ [''EtcdElection sync: '' @ msg]\<rparr>))"

text \<open>
  The goroutine and the client of the election; \<^verbatim>\<open>AutoSync\<close> returns the error of its context once that is cancelled, as it
  is documented to.
\<close>

inductive sync_system :: "EtcdElection \<times> sync_goroutine \<Rightarrow> EtcdElection \<times> sync_goroutine \<Rightarrow> bool" where
  Sync: "sync_step err sy = Some sy' \<Longrightarrow> (if ee_cancelled e then err = ContextCanceled else err \<noteq> ContextCanceled) \<Longrightarrow>
    sync_system (e, sy) (e, sy')"
| StopCall: "EtcdElection_Stop k e = Some (k', e') \<Longrightarrow> sync_system (e, sy) (e', sy)"

inductive_cases sync_systemE: "sync_system (e, sy) s"

text \<open>
  A failure to reach etcd does not end the goroutine, it logs and tries again; \<^verbatim>\<open>Stop\<close> ends it, with the next return
  of \<^verbatim>\<open>AutoSync\<close> and without another line in the log.
\<close>

lemma sync_goroutine_ends:
  assumes "sync_system\<^sup>*\<^sup>* (e, sy) (e', sy')" and "ee_cancelled e" and "ee_client e = StopWait \<or> ee_client e = Stopped"
  shows "ee_cancelled e' \<and> (ee_client e' = StopWait \<or> ee_client e' = Stopped) \<and> sy_logged sy' = sy_logged sy \<and>
    (sy_ended sy' \<or> (\<exists>sy''. sync_system (e', sy') (e', sy'') \<and> sy_ended sy''))"
proof -
  have "ee_cancelled (fst s) \<and> (ee_client (fst s) = StopWait \<or> ee_client (fst s) = Stopped) \<and> sy_logged (snd s) = sy_logged sy"
    if "sync_system\<^sup>*\<^sup>* (e, sy) s" for s
    using that
  proof (induction rule: rtranclp_induct)
    case (step s s')
    then show ?case
      by (cases s) (auto elim!: sync_systemE simp: sync_step_def EtcdElection_Stop_def split: if_splits client_pc.splits)
  qed (use assms(2,3) in simp)
  from this [OF assms(1)] have inv: "ee_cancelled e'" "ee_client e' = StopWait \<or> ee_client e' = Stopped" "sy_logged sy' = sy_logged sy"
    by simp_all
  have "sync_system (e', sy') (e', sy'\<lparr>sy_ended := True\<rparr>)" if "\<not> sy_ended sy'"
    by (rule Sync [of ContextCanceled]) (use that inv(1) in \<open>simp_all add: sync_step_def\<close>)
  then show ?thesis using inv by fastforce
qed

end
