(* ===== verification/Spec2Isabelle.thy ===== *)
theory Spec2Isabelle
  imports Priority_Queue TTL_Map Nonce_Cache HTTP_Sign V3_HTTP_Sign LRU_Cache Fan_Out Expire_Cache
    Frozen_Clock Clock_Package Sleep_Clock Errors Wait_Group Broadcast Set_Default Go_Random Secret
    Etcd_Session Etcd_Election Root_Election Etcd2_Election Etcd_Config Durations Mail_Times Lemma_Command Utilities
    V3_Collections Auth_Curl Root_Session Call_Stack Clock_Sleep Etcd2_New
begin

text \<open>
  A verification of holster, Mailgun's library of Go utilities: signing of HTTP requests, encryption of
  secrets, caches and collections, goroutine helpers, clocks for tests, errors with context, random data,
  leader election over etcd and a command that encrypts files. The root module has the first version of most packages, the directory \<^verbatim>\<open>v3\<close> a second
  one; where the two have the same code, one model stands for both.

  \<^bold>\<open>How Go is modelled.\<close> A call returns or panics (\<open>go\<close> in \<open>Go_Prelude\<close>); errors are values of a datatype or of a
  sum. A pointer that is shared is an address into a store. A Go map is an association list without duplicate keys
  whose iteration order is an argument or chosen by a relation. Times and durations are integers in nanoseconds;
  \<open>i64\<close> wraps where the code can overflow. Readings of the clock, random bytes, files, host names, and
  third-party code (the hash, secretbox, the parser of JSON, statsd, etcd) are arguments; what a theorem needs of
  them is one of its hypotheses and its witness gives a concrete instance. Goroutines are step functions or
  relations over a shared state (\<open>Go_Sched\<close>): one step per critical section or channel operation, an execution
  is any sequence of steps, and two locales carry the proofs: \<open>invariant_system\<close> and \<open>terminating_system\<close>.

  \<^bold>\<open>The theories.\<close>

  \<^item> \<open>Go_Prelude\<close>, \<open>Go_Strings\<close>, \<open>Go_Base64\<close>, \<open>Go_Heap\<close>, \<open>Go_Duration\<close>, \<open>Go_Time\<close>, \<open>Go_Sched\<close>: the parts of the language and of its
    standard library that the code uses. \<open>Go_Heap\<close> has the sift operations of \<^verbatim>\<open>container/heap\<close> over an interface of
    four operations, a locale that the queue instantiates; \<open>Go_Duration\<close> prints and parses durations,
    \<open>Go_Time\<close> has the calendar and prints and parses times in two layouts.

  \<^item> \<open>Priority_Queue\<close> (\<^verbatim>\<open>priority_queue.go\<close>): the queue over the heap, with items that know their index. Pushing
    and popping sorts; \<^verbatim>\<open>Update\<close> moves one item; \<^verbatim>\<open>Remove\<close> takes one out.

  \<^item> \<open>TTL_Map\<close> (\<^verbatim>\<open>ttlmap.go\<close>): the map whose entries expire, with the queue for expiry. Every sequence of
    operations keeps map and queue in step; \<^verbatim>\<open>Set\<close> refines an update of a partial function, with the entries it may
    evict; \<^verbatim>\<open>Get\<close> checks again before it deletes, as another goroutine may have set the key in between.

  \<^item> \<open>Nonce_Cache\<close>, \<open>HTTP_Sign\<close> (\<^verbatim>\<open>httpsign/\<close>), \<open>V3_HTTP_Sign\<close> (\<^verbatim>\<open>v3/httpsign/\<close>): signing and authentication with
    every error branch, above the TTL map. A request is accepted once only, within its lifetime; a request accepted
    has the right MAC, a recent time stamp and a new nonce; the payload under the MAC determines the request's parts;
    a signed request is accepted; both versions agree.

  \<^item> \<open>LRU_Cache\<close> (\<^verbatim>\<open>lru_cache.go\<close>): linked list and map refine a list of recent keys; the bound holds; what was used
    within the bound is kept.

  \<^item> \<open>Fan_Out\<close>, \<open>Wait_Group\<close>, \<open>Broadcast\<close> (\<^verbatim>\<open>fanout.go\<close>, \<^verbatim>\<open>waitgroup.go\<close>, \<^verbatim>\<open>broadcast.go\<close>): any number of goroutines. The pool
    terminates, keeps its bound and returns every error; the wait group neither panics nor loses an error;
    the broadcaster delivers each event to each client; and under which conditions \<^verbatim>\<open>Stop\<close> and \<^verbatim>\<open>Broadcast\<close> never return.

  \<^item> \<open>Expire_Cache\<close> (\<^verbatim>\<open>expire_cache.go\<close>): \<^verbatim>\<open>Each\<close> as goroutines of a pool with other clients of the cache in between.

  \<^item> \<open>Frozen_Clock\<close>, \<open>Clock_Package\<close> (\<^verbatim>\<open>clock/\<close>), \<open>Sleep_Clock\<close> (\<^verbatim>\<open>clock.go\<close>): timers and tickers on a clock that a test moves.
    \<^verbatim>\<open>Advance\<close> fires exactly what is due, in order. \<open>Clock_Sleep\<close> has the functions of the package over its provider: a goroutine
    sleeps exactly as long as the clock needs to be advanced.

  \<^item> \<open>V3_Collections\<close> (\<^verbatim>\<open>v3/collections/\<close>): the three collections whose entries expire, read by the clock package: on a frozen
    clock entries live exactly as long as they should.

  \<^item> \<open>Errors\<close>, \<open>Call_Stack\<close> (\<^verbatim>\<open>errors/\<close>, \<^verbatim>\<open>stack/\<close>): wrapping, cause, context and log fields; where a trace starts, and the id of
    a goroutine.

  \<^item> \<open>Set_Default\<close> (\<^verbatim>\<open>set_default.go\<close>), \<open>Go_Random\<close> (\<^verbatim>\<open>random.go\<close>, \<^verbatim>\<open>random/\<close>), \<open>Secret\<close> (\<^verbatim>\<open>secret/\<close>): defaults by reflection;
    random providers and strings; sealing, with the round trip through the text form of sealed data.

  \<^item> \<open>Etcd_Session\<close>, \<open>Etcd_Election\<close> (\<^verbatim>\<open>v3/etcdutil/\<close>): the lease of a session and the campaign above it. What etcd
    answers is arbitrary. The observer of a session knows its lease; a candidate is leader only while it watches its
    own key; and the wait group that campaign and session share can stop both for good. \<open>Root_Session\<close> and
    \<open>Root_Election\<close> (\<^verbatim>\<open>etcdutil/\<close>) have the session of the root module, for any back off counter, and its election with its map
    of observers: they refine those of \<^verbatim>\<open>v3\<close>. The section below
    composes session and election: closing the session gives up the leadership.

  \<^item> \<open>Etcd2_Election\<close> (\<^verbatim>\<open>election/\<close>): candidates that share the keys of one etcd, with requests that fail or whose
    answers are lost. At most one is leader while the key does not expire under it; and once it did, two can stay leaders.
    \<open>Etcd2_New\<close> has the goroutine that keeps the client's endpoints up to date, and that it ends.

  \<^item> \<open>Etcd_Config\<close> (\<^verbatim>\<open>etcdutil/config.go\<close>): which of configuration, environment and default decides each field of the
    client's configuration, and when it uses TLS without verification.

  \<^item> \<open>Durations\<close> (\<^verbatim>\<open>clock/duration.go\<close>), \<open>Mail_Times\<close> (\<^verbatim>\<open>clock/rfc822.go\<close>, \<^verbatim>\<open>rfc/2822/\<close>): durations and times survive JSON, and which zones
    of a mail header do not.

  \<^item> \<open>Lemma_Command\<close> (\<^verbatim>\<open>cmd/lemma/\<close>): the command with its flags and files, above \<open>Secret\<close>; what it encrypts it decrypts.
    \<open>Auth_Curl\<close> (\<^verbatim>\<open>cmd/auth-curl/\<close>): the command that sends a signed request, above \<open>HTTP_Sign\<close>; what it sends is accepted.

  \<^item> \<open>Utilities\<close> (\<^verbatim>\<open>slice/\<close>, \<^verbatim>\<open>misc.go\<close>, \<^verbatim>\<open>useragent/\<close>): membership, log fields, environment variables, user agents.

  \<^bold>\<open>Interfaces.\<close> A locale states what a client relies on and each is interpreted on the model in the theory of the
  provider: \<open>heap_interface\<close> on the queue's implementation, \<open>indexed_priority_queue\<close> on the queue, \<open>ttl_store\<close> on the TTL
  map, where the proofs about nonces use it, \<open>worker_pool\<close> on the fan out, where those of \<^verbatim>\<open>Each\<close> do, \<open>expiring_store\<close>
  on the TTL map, the LRU cache and the expire cache, where those on the frozen clock do, and the two locales of \<open>Go_Sched\<close> on every system of goroutines.

  \<^bold>\<open>Termination.\<close> No function takes fuel to cut a computation short. Loops recur on their data; \<^verbatim>\<open>Advance\<close> of the frozen
  clock may not end (a callback can start timers for ever), it is a partial function whose result is an option, and
  the theorems about it show that it returns. A call that blocks is a step that is not enabled, or \<open>None\<close>.

  \<^bold>\<open>Not modelled.\<close> Calls of package \<^verbatim>\<open>time\<close> alone (\<^verbatim>\<open>clock/system.go\<close>, \<^verbatim>\<open>clock/go19.go\<close>), which have no logic of their own; \<^verbatim>\<open>cmd/bunker\<close>,
  which imports a package that the repository does not hold; \<^verbatim>\<open>cmd/election\<close>, which prints the events of an election; the debug
  logger of \<^verbatim>\<open>etcdutil/config.go\<close>; mocks. Data races on plain fields are not modelled, except where a theory says so.
\<close>

section \<open>Session and election\<close>

text \<open>
  C19: closing an election gives up its leadership: when the calls of \<^verbatim>\<open>onSessionChange\<close> that an election got are those
  that its session made up to the end of \<^verbatim>\<open>Close\<close>, then, as soon as the last of them has returned, the campaign has
  ended and \<^verbatim>\<open>IsLeader\<close> is false, whatever etcd answered to either of them.
\<close>

theorem Election_Close_gives_up:
  assumes "NewSession now True True ttl = Ret (Inr s0)" and "\<forall>inp \<in> set (ins @ ins'). input_ok inp"
    and "session_loop ins s0 = (s1, False)" and "se_isRunning s1" and "Session_Close ins' s1 = Some s2"
    and "election_run hostname conf (map fst (se_told s2)) s" and "\<not> es_stopping s"
  shows "\<not> IsLeader (es_election s) \<and> idle s"
proof -
  have told: "told_lease s1" using session_loop_told [OF NewSession_told [OF assms(1)] _ assms(3)] assms(2) by auto
  have "se_told s2 \<noteq> [] \<and> last (se_told s2) = (NoLease, None)"
    using Session_Close_told [OF told assms(4,5)] assms(2) by auto
  then have "last (map fst (se_told s2)) = NoLease" by (simp add: last_map)
  then have "\<not> el_isRunning (es_election s)" using election_run_lost [OF assms(6)] assms(7) by blast
  then show ?thesis using election_reach_inv [OF election_run_reach [OF assms(6)]]
    by (cases "es_phase s") (auto simp: election_inv_def IsLeader_def idle_def)
qed

definition ex_close :: session_input where
  "ex_close = \<lparr>in_Grant = Inl ''none'', in_KeepAlive = None, in_ctxDone = False, in_select = DoneClosed None\<rparr>"

definition ex_lost :: election_system where
  "ex_lost = lease_lost None (campaign_step 7 (ex_campaign\<lparr>ci_txn := TxnError ''context canceled'', ci_done := True\<rparr>)
     (onSessionChange NoLease (onSessionChange 7 (election_start ex_election))))"

lemma ex_lost_run: "election_run None ex_conf [7, NoLease] ex_lost" "\<not> es_stopping ex_lost"
proof -
  let ?s1 = "onSessionChange 7 (election_start ex_election)"
  let ?inp = "ex_campaign\<lparr>ci_txn := TxnError ''context canceled'', ci_done := True\<rparr>"
  let ?s2 = "onSessionChange NoLease ?s1"
  let ?s3 = "campaign_step 7 ?inp ?s2"
  have facts: "\<not> es_stopping (election_start ex_election)" "\<not> es_stopping ?s1" "es_phase ?s2 = Campaigning 7" "es_stopping ?s2"
    "es_stopping ?s3" "idle ?s3" by code_simp+
  have "election_run None ex_conf [] (election_start ex_election)" by (rule RunStart) (rule ex_won_simps(1))
  from RunSession [OF this facts(1), of 7] have "election_run None ex_conf [7] ?s1" by simp
  from RunSession [OF this facts(2), of NoLease] have run: "election_run None ex_conf [7, NoLease] ?s2" by simp
  have "own_step ?s2 ?s3" by (rule CampaignStep [OF facts(3)]) (simp add: facts(4))
  from RunOwn [OF run this] have run3: "election_run None ex_conf [7, NoLease] ?s3" .
  show "election_run None ex_conf [7, NoLease] ex_lost"
    unfolding ex_lost_def by (rule RunOwn [OF run3]) (rule LeaseLost [OF facts(5,6)])
  show "\<not> es_stopping ex_lost" by (simp add: ex_lost_def lease_lost_def Let_def)
qed

theorem Election_Close_gives_up_witness:
  "election_run None ex_conf [7, NoLease] ex_lost \<and> \<not> IsLeader (es_election ex_lost)"
proof -
  obtain s0 s1 s2 where session: "NewSession 0 True True 5 = Ret (Inr s0)" "session_loop [ex_gain] s0 = (s1, False)" "se_isRunning s1"
    "Session_Close [ex_close] s1 = Some s2" and told: "map fst (se_told s2) = [7, NoLease]"
    by (simp add: NewSession_def Session_start_def Let_def i64_def Second_def session_callback_def gainLease_def tell_def ex_gain_def
        Session_Close_def ex_close_def)
  have ok: "\<forall>inp \<in> set ([ex_gain] @ [ex_close]). input_ok inp" by (simp add: input_ok_def ex_gain_def ex_close_def NoLease_def)
  have "election_run None ex_conf (map fst (se_told s2)) ex_lost" unfolding told by (rule ex_lost_run(1))
  from Election_Close_gives_up [OF session(1) ok session(2-4) this ex_lost_run(2)] show ?thesis using ex_lost_run(1) by simp
qed

end
